(* ===== verification/Prelude.thy ===== *)
theory Prelude
  imports Main "HOL-Library.Word" "HOL-Library.Monad_Syntax"
begin

text \<open>
  The vocabulary shared by every component: the C integer types, the option monad used for code
  that may panic (\<open>None\<close> is a panic), linked lists threaded through an array, and the
  word lemmas behind the page arithmetic.
\<close>

unbundle bit_operations_syntax

type_synonym u8 = "8 word"
type_synonym u16 = "16 word"
type_synonym u32 = "32 word"

named_theorems word_addr \<open>arithmetic reading of the address macros\<close>

subsection \<open>Bit fields of 32-bit words\<close>

lemma mask_10_word: "(0x3FF :: u32) = mask 10"
  by (simp add: mask_eq_decr_exp)

lemma mask_12_word: "(0xFFF :: u32) = mask 12"
  by (simp add: mask_eq_decr_exp)

lemma unat_and_mask [word_addr]: "unat ((x :: u32) AND mask n) = unat x mod 2 ^ n"
proof -
  have "unat (take_bit n x) = take_bit n (unat x)"
    by (rule unsigned_take_bit_eq)
  then show ?thesis
    by (simp only: take_bit_eq_mask [symmetric] take_bit_eq_mod [of n "unat x"])
qed

lemma unat_drop_bit_div [word_addr]: "unat (drop_bit n (x :: u32)) = unat x div 2 ^ n"
  by (metis unat_drop_bit_eq drop_bit_eq_div)

lemma and_not_mask_plus: "((x :: u32) AND NOT (mask n)) + (x AND mask n) = x"
proof -
  have "(x AND NOT (mask n)) AND (x AND mask n) = 0"
    by (rule bit_word_eqI) (auto simp: bit_simps)
  then have "(x AND NOT (mask n)) + (x AND mask n) = (x AND NOT (mask n)) OR (x AND mask n)"
    by (rule disjunctive_add_eq_or)
  also have "\<dots> = x"
    by (rule bit_word_eqI) (auto simp: bit_simps)
  finally show ?thesis .
qed

lemma unat_and_not_mask [word_addr]:
  "unat ((x :: u32) AND NOT (mask n)) = unat x - unat x mod 2 ^ n"
proof -
  have "x AND NOT (mask n) = x - (x AND mask n)"
    using and_not_mask_plus [of x n] by (simp add: eq_diff_eq)
  moreover have "x AND mask n \<le> x"
    by (rule word_and_le2)
  ultimately have "unat (x AND NOT (mask n)) = unat x - unat (x AND mask n)"
    by (simp add: unat_sub)
  then show ?thesis
    by (simp add: unat_and_mask)
qed

lemma unat_less_32: "unat (x :: u32) < 4294967296"
  using unsigned_less [of x] by simp

lemma mult_add_unique:
  assumes "(y :: nat) < n" "v < n"
  shows "n * x + y = n * u + v \<longleftrightarrow> x = u \<and> y = v"
proof
  assume eq: "n * x + y = n * u + v"
  have "x = (n * x + y) div n" "u = (n * u + v) div n"
    using assms by simp_all
  with eq show "x = u \<and> y = v"
    by simp
qed simp

lemma find_map_option: "find P (map f xs) = map_option f (find (\<lambda>x. P (f x)) xs)"
  by (induction xs) auto

lemma find_upt_None: "find P [0..<n] = None \<longleftrightarrow> (\<forall>k<n. \<not> P k)"
  by (auto simp: find_None_iff)

lemma find_upt_Some: "find P [0..<n] = Some k \<longleftrightarrow> k < n \<and> P k \<and> (\<forall>j<k. \<not> P j)"
  by (auto simp: find_Some_iff)

subsection \<open>Lists threaded through an array\<close>

text \<open>
  \<open>linked next p xs\<close> says that following the link field \<open>next\<close> from the pointer
  \<open>p\<close> visits exactly the elements \<open>xs\<close> and then meets the null pointer.
\<close>

primrec linked :: "(nat \<Rightarrow> nat option) \<Rightarrow> nat option \<Rightarrow> nat list \<Rightarrow> bool" where
  "linked nxt p [] \<longleftrightarrow> p = None"
| "linked nxt p (x # xs) \<longleftrightarrow> p = Some x \<and> linked nxt (nxt x) xs"

lemma linked_None [simp]: "linked nxt None xs \<longleftrightarrow> xs = []"
  by (cases xs) auto

lemma linked_Some: "linked nxt (Some x) xs \<longleftrightarrow> (\<exists>ys. xs = x # ys \<and> linked nxt (nxt x) ys)"
  by (cases xs) auto

lemma linked_cong: "(\<And>x. x \<in> set xs \<Longrightarrow> nxt x = nxt' x) \<Longrightarrow> linked nxt p xs = linked nxt' p xs"
  by (induction xs arbitrary: p) auto

lemma linked_upd [simp]: "y \<notin> set xs \<Longrightarrow> linked (nxt(y := q)) p xs = linked nxt p xs"
  by (rule linked_cong) auto

lemma linked_last: "linked nxt p (xs @ [x]) \<Longrightarrow> nxt x = None"
  by (induction xs arbitrary: p) auto

lemma linked_suffix: "linked nxt p (xs @ x # ys) \<Longrightarrow> linked nxt (Some x) (x # ys)"
  by (induction xs arbitrary: p) auto

text \<open>Redirecting the link of the last element does not change the way there.\<close>

lemma linked_prefix:
  "linked (nxt(x := q)) p zs \<Longrightarrow> linked nxt p (xs @ [x]) \<Longrightarrow> x \<notin> set xs \<Longrightarrow> \<exists>ws. zs = xs @ x # ws"
proof (induction xs arbitrary: p zs)
  case Nil
  then show ?case by (cases zs) auto
next
  case (Cons y xs)
  then obtain zs' where "zs = y # zs'" "linked (nxt(x := q)) (nxt y) zs'"
    by (cases zs) (auto simp: fun_upd_def)
  with Cons show ?case by auto
qed

lemma linked_unique: "linked nxt p xs \<Longrightarrow> linked nxt p ys \<Longrightarrow> xs = ys"
  by (induction xs arbitrary: p ys) (auto simp: linked_Some)

subsection \<open>Signed reading of 32-bit words\<close>

lemma shifted_mod: "0 \<le> u \<Longrightarrow> u < 2 * m \<Longrightarrow> (u + m) mod (2 * m) - m = (if u < m then u else u - 2 * (m :: int))"
proof (cases "u < m")
  case False
  assume "0 \<le> u" "u < 2 * m"
  then have "(u - m) mod (2 * m) = u - m"
    using False by (intro mod_pos_pos_trivial) auto
  moreover have "(u + m) mod (2 * m) = (u - m) mod (2 * m)"
    using minus_mod_self2 [of "u + m" "2 * m"] by (simp add: algebra_simps)
  ultimately show ?thesis
    using False by simp
qed simp

lemma sint_u32: "sint (w :: u32) = (if unat w < 2147483648 then int (unat w) else int (unat w) - 4294967296)"
proof -
  have "sint w = (uint w + 2147483648) mod 4294967296 - 2147483648"
    by (simp add: sint_uint signed_take_bit_eq_take_bit_shift take_bit_eq_mod)
  also have "\<dots> = (if uint w < 2147483648 then uint w else uint w - 4294967296)"
    using shifted_mod [of "uint w" 2147483648] uint_lt2p [of w] by simp
  also have "\<dots> = (if unat w < 2147483648 then int (unat w) else int (unat w) - 4294967296)"
    by (simp only: uint_nat of_nat_less_numeral_iff)
  finally show ?thesis .
qed

lemma sint_pos_u32: "0 < sint (w :: u32) \<longleftrightarrow> 0 < unat w \<and> unat w < 2147483648"
  using unat_less_32 [of w] unfolding sint_u32 by (simp del: of_nat_unat split: if_split)

lemma or_low_bits:
  assumes "unat (b :: u32) < 2 ^ n"
  shows "unat ((a AND NOT (mask n)) OR b) = unat (a AND NOT (mask n)) + unat b"
proof -
  have b: "b AND mask n = b"
    using assms by (simp add: word_unat_eq_iff unat_and_mask)
  have "(a AND NOT (mask n)) AND (b AND mask n) = 0"
    by (rule bit_word_eqI) (simp add: bit_simps)
  then have e: "(a AND NOT (mask n)) OR b = (a AND NOT (mask n)) + b"
    unfolding b by (rule disjunctive_add_eq_or [symmetric])
  show ?thesis
    using le_word_or2 [of "a AND NOT (mask n)" b] unfolding e by (rule iffD1 [OF unat_plus_simple])
qed

subsection \<open>Loops whose body may fail\<close>

primrec fold_opt :: "('a \<Rightarrow> 's \<Rightarrow> 's option) \<Rightarrow> 'a list \<Rightarrow> 's \<Rightarrow> 's option" where
  "fold_opt f [] s = Some s"
| "fold_opt f (x # xs) s = (case f x s of None \<Rightarrow> None | Some s \<Rightarrow> fold_opt f xs s)"

lemma fold_opt_append: "fold_opt f (xs @ ys) s = (case fold_opt f xs s of None \<Rightarrow> None | Some s \<Rightarrow> fold_opt f ys s)"
  by (induction xs arbitrary: s) (simp_all split: option.split)

text \<open>A loop invariant \<open>I k\<close> over the number of iterations done gives the final state.\<close>

lemma fold_opt_upt:
  assumes "I 0 s" "\<And>k s. k < n \<Longrightarrow> I k s \<Longrightarrow> \<exists>s'. f k s = Some s' \<and> I (Suc k) s'"
  shows "\<exists>s'. fold_opt f [0..<n] s = Some s' \<and> I n s'"
proof -
  have "k \<le> n \<Longrightarrow> \<exists>s'. fold_opt f [0..<k] s = Some s' \<and> I k s'" for k
  proof (induction k)
    case (Suc k)
    then obtain s1 where "fold_opt f [0..<k] s = Some s1" "I k s1" by auto
    with assms(2) [of k s1] Suc.prems show ?case
      by (auto simp: fold_opt_append)
  qed (use assms(1) in simp)
  then show ?thesis by blast
qed

end
