(* ===== verification/JosMmu.thy ===== *)
theory JosMmu
  imports Prelude
begin

text \<open>
  The paging macros of JOS (inc/mmu.h, inc/types.h, inc/memlayout.h): splitting a linear address
  into directory index, table index and offset, the page-table-entry flags, rounding to page
  boundaries, and the address-space layout.
\<close>

subsection \<open>Constants\<close>

definition PGSIZE :: u32 where "PGSIZE = 4096"
definition NPTENTRIES :: u32 where "NPTENTRIES = 1024"
definition PTSIZE :: u32 where "PTSIZE = PGSIZE * NPTENTRIES"

definition PTE_P :: u32 where "PTE_P = 0x001"
definition PTE_W :: u32 where "PTE_W = 0x002"
definition PTE_U :: u32 where "PTE_U = 0x004"
definition PTE_PWT :: u32 where "PTE_PWT = 0x008"
definition PTE_PCD :: u32 where "PTE_PCD = 0x010"
definition PTE_AVAIL :: u32 where "PTE_AVAIL = 0xE00"
definition PTE_SYSCALL :: u32 where "PTE_SYSCALL = PTE_AVAIL OR PTE_P OR PTE_W OR PTE_U"

definition KERNBASE :: u32 where "KERNBASE = 0xF0000000"
definition IOPHYSMEM :: u32 where "IOPHYSMEM = 0x0A0000"
definition EXTPHYSMEM :: u32 where "EXTPHYSMEM = 0x100000"
definition KSTACKTOP :: u32 where "KSTACKTOP = KERNBASE"
definition KSTKSIZE :: u32 where "KSTKSIZE = 8 * PGSIZE"
definition KSTKGAP :: u32 where "KSTKGAP = 8 * PGSIZE"
definition MMIOLIM :: u32 where "MMIOLIM = KSTACKTOP - PTSIZE"
definition MMIOBASE :: u32 where "MMIOBASE = MMIOLIM - PTSIZE"
definition ULIM :: u32 where "ULIM = MMIOBASE"
definition UVPT :: u32 where "UVPT = ULIM - PTSIZE"
definition UPAGES :: u32 where "UPAGES = UVPT - PTSIZE"
definition UENVS :: u32 where "UENVS = UPAGES - PTSIZE"
definition UTOP :: u32 where "UTOP = UENVS"
definition UXSTACKTOP :: u32 where "UXSTACKTOP = UTOP"
definition USTACKTOP :: u32 where "USTACKTOP = UTOP - 2 * PGSIZE"
definition MPENTRY_PADDR :: u32 where "MPENTRY_PADDR = 0x7000"

lemmas pte_flag_defs = PTE_P_def PTE_W_def PTE_U_def PTE_PWT_def PTE_PCD_def PTE_AVAIL_def
  PTE_SYSCALL_def

lemmas layout_defs = PGSIZE_def NPTENTRIES_def PTSIZE_def KERNBASE_def IOPHYSMEM_def
  EXTPHYSMEM_def KSTACKTOP_def KSTKSIZE_def KSTKGAP_def MMIOLIM_def MMIOBASE_def ULIM_def
  UVPT_def UPAGES_def UENVS_def UTOP_def UXSTACKTOP_def USTACKTOP_def MPENTRY_PADDR_def

subsection \<open>Address macros\<close>

definition PGNUM :: "u32 \<Rightarrow> u32" where "PGNUM la = drop_bit 12 la"
definition PDX :: "u32 \<Rightarrow> u32" where "PDX la = drop_bit 22 la AND 0x3FF"
definition PTX :: "u32 \<Rightarrow> u32" where "PTX la = drop_bit 12 la AND 0x3FF"
definition PGOFF :: "u32 \<Rightarrow> u32" where "PGOFF la = la AND 0xFFF"
definition PGADDR :: "u32 \<Rightarrow> u32 \<Rightarrow> u32 \<Rightarrow> u32" where
  "PGADDR d t off = push_bit 22 d OR push_bit 12 t OR off"
definition PTE_ADDR :: "u32 \<Rightarrow> u32" where "PTE_ADDR pte = pte AND NOT 0xFFF"

definition ROUNDDOWN :: "u32 \<Rightarrow> u32 \<Rightarrow> u32" where "ROUNDDOWN a n = a - a mod n"
definition ROUNDUP :: "u32 \<Rightarrow> u32 \<Rightarrow> u32" where "ROUNDUP a n = ROUNDDOWN (a + n - 1) n"

lemma unat_PGNUM [word_addr]: "unat (PGNUM la) = unat la div 4096"
  by (simp add: PGNUM_def unat_drop_bit_div del: drop_bit_numeral_bit0)

lemma unat_PTX [word_addr]: "unat (PTX la) = unat la div 4096 mod 1024"
  by (simp only: PTX_def mask_10_word unat_and_mask unat_drop_bit_div) simp

lemma unat_PDX [word_addr]: "unat (PDX la) = unat la div 4194304"
proof -
  have "unat la div 4194304 < 1024"
    using unat_less_32 [of la] by simp
  then show ?thesis
    by (simp only: PDX_def mask_10_word unat_and_mask unat_drop_bit_div) simp
qed

lemma unat_PGOFF [word_addr]: "unat (PGOFF la) = unat la mod 4096"
  by (simp only: PGOFF_def mask_12_word unat_and_mask) simp

lemma unat_PTE_ADDR [word_addr]: "unat (PTE_ADDR la) = unat la - unat la mod 4096"
  by (simp only: PTE_ADDR_def mask_12_word unat_and_not_mask) simp

lemma PTX_less: "unat (PTX la) < 1024" and PDX_less: "unat (PDX la) < 1024"
  using unat_less_32 [of la] by (simp_all add: word_addr)

lemma PTE_ADDR_plus_PGOFF: "PTE_ADDR la + PGOFF la = la"
  by (simp only: PTE_ADDR_def PGOFF_def mask_12_word and_not_mask_plus)

lemma PGOFF_PTE_ADDR [simp]: "PGOFF (PTE_ADDR la) = 0"
  by (simp only: PTE_ADDR_def PGOFF_def mask_12_word) (rule bit_word_eqI, auto simp: bit_simps)

lemma PTE_ADDR_idem [simp]: "PTE_ADDR (PTE_ADDR la) = PTE_ADDR la"
  by (simp only: PTE_ADDR_def and.assoc and.idem)

lemma PTE_ADDR_or: "PTE_ADDR (a OR b) = PTE_ADDR a OR PTE_ADDR b"
  by (simp only: PTE_ADDR_def mask_12_word) (rule bit_word_eqI, auto simp: bit_simps)

lemma PTE_ADDR_0 [simp]: "PTE_ADDR 0 = 0"
  by (simp add: PTE_ADDR_def)

lemma PTE_ADDR_flags [simp]: "PTE_ADDR PTE_P = 0" "PTE_ADDR PTE_W = 0" "PTE_ADDR PTE_U = 0"
  "PTE_ADDR PTE_PWT = 0" "PTE_ADDR PTE_PCD = 0"
  by (simp_all add: PTE_ADDR_def pte_flag_defs)

lemma PTE_ADDR_aligned: "PGOFF a = 0 \<Longrightarrow> PTE_ADDR a = a"
  using PTE_ADDR_plus_PGOFF [of a] by simp

text \<open>Two addresses in the same page with the same table indices are in the same page.\<close>

lemma same_page_iff: "PTE_ADDR a = PTE_ADDR b \<longleftrightarrow> PDX a = PDX b \<and> PTX a = PTX b"
proof -
  have split: "unat x - unat x mod 4096 = 4096 * (1024 * (unat x div 4194304) + unat x div 4096 mod 1024)"
    for x :: u32
  proof -
    have "unat x div 4194304 = unat x div 4096 div 1024"
      by (simp add: div_mult2_eq [symmetric])
    then show ?thesis
      by (simp add: minus_mod_eq_mult_div)
  qed
  have "PTE_ADDR a = PTE_ADDR b \<longleftrightarrow> unat (PTE_ADDR a) = unat (PTE_ADDR b)"
    by (simp add: word_unat_eq_iff)
  also have "\<dots> \<longleftrightarrow> 1024 * unat (PDX a) + unat (PTX a) = 1024 * unat (PDX b) + unat (PTX b)"
    by (simp only: unat_PTE_ADDR split unat_PDX unat_PTX mult_cancel1) simp
  also have "\<dots> \<longleftrightarrow> unat (PDX a) = unat (PDX b) \<and> unat (PTX a) = unat (PTX b)"
    by (rule mult_add_unique [OF PTX_less PTX_less])
  finally show ?thesis
    by (simp add: word_unat_eq_iff)
qed

subsection \<open>Entries of a page-table page\<close>

lemma aligned_multiple:
  assumes "PGOFF base = 0"
  obtains k where "unat base = 4096 * k"
proof -
  have "unat base mod 4096 = 0"
    using assms by (metis unat_PGOFF unsigned_0)
  then show thesis
    using that by (auto elim: dvdE simp: mod_eq_0_iff_dvd)
qed

text \<open>C pointer arithmetic on \<open>pte_t *\<close>: entry \<open>i\<close> of the table at \<open>base\<close>.\<close>

definition entry :: "u32 \<Rightarrow> u32 \<Rightarrow> u32" where "entry base i = base + 4 * i"

lemma unat_entry:
  assumes "PGOFF base = 0" "unat i < 1024"
  shows "unat (entry base i) = unat base + 4 * unat i"
proof -
  obtain k where k: "unat base = 4096 * k"
    using assms(1) by (rule aligned_multiple)
  have i4: "unat (4 * i) = 4 * unat i"
    using assms(2) by (simp add: unat_word_ariths)
  have "unat base + 4 * unat i < 2 ^ 32"
    using k assms(2) unat_less_32 [of base] by simp
  then show ?thesis
    by (simp add: entry_def unat_word_ariths i4)
qed

lemma PTE_ADDR_entry [simp]: "PGOFF base = 0 \<Longrightarrow> unat i < 1024 \<Longrightarrow> PTE_ADDR (entry base i) = base"
proof -
  assume a: "PGOFF base = 0" "unat i < 1024"
  obtain k where k: "unat base = 4096 * k"
    using a(1) by (rule aligned_multiple)
  have "(4096 * k + 4 * unat i) mod 4096 = 4 * unat i"
    using a(2) by simp
  then have "unat (PTE_ADDR (entry base i)) = unat base"
    by (simp only: unat_PTE_ADDR unat_entry [OF a] k diff_add_inverse2)
  then show ?thesis
    by (simp add: word_unat_eq_iff)
qed

lemma entry_inject:
  assumes "PGOFF b = 0" "PGOFF c = 0" "unat i < 1024" "unat j < 1024"
  shows "entry b i = entry c j \<longleftrightarrow> b = c \<and> i = j"
proof
  assume eq: "entry b i = entry c j"
  then have "b = c"
    using assms by (metis PTE_ADDR_entry)
  moreover from this eq have "unat i = unat j"
    using unat_entry [OF assms(1,3)] unat_entry [OF assms(2,4)] by simp
  ultimately show "b = c \<and> i = j"
    by (simp add: word_unat_eq_iff)
qed simp

end
