(* ===== verification/JosState.thy ===== *)
theory JosState
  imports JosMmu
begin

text \<open>
  The data of the JOS kernel: trap frames (inc/trap.h), environments (inc/env.h), page descriptors
  (inc/memlayout.h), the error codes (inc/error.h), and the kernel state that one CPU works on while
  it holds the big kernel lock.

  Pointers into the arrays \<open>pages\<close> and \<open>envs\<close> are indices, with \<open>None\<close> for
  \<open>NULL\<close>. Pointers to page directories and page-table entries are kernel virtual addresses,
  as in the code. Physical memory is the function \<open>mem\<close> from the physical address of an aligned
  32-bit word to its contents; the kernel sees it at \<open>KERNBASE\<close> and above, which is what
  \<open>kload\<close> and \<open>kstore\<close> say.
\<close>

subsection \<open>Error codes\<close>

definition E_BAD_ENV :: int where "E_BAD_ENV = 2"
definition E_INVAL :: int where "E_INVAL = 3"
definition E_NO_MEM :: int where "E_NO_MEM = 4"
definition E_NO_FREE_ENV :: int where "E_NO_FREE_ENV = 5"
definition E_FAULT :: int where "E_FAULT = 6"
definition E_IPC_NOT_RECV :: int where "E_IPC_NOT_RECV = 7"

lemmas error_defs = E_BAD_ENV_def E_INVAL_def E_NO_MEM_def E_NO_FREE_ENV_def E_FAULT_def
  E_IPC_NOT_RECV_def

subsection \<open>Trap frames\<close>

record PushRegs =
  reg_edi :: u32
  reg_esi :: u32
  reg_ebp :: u32
  reg_oesp :: u32
  reg_ebx :: u32
  reg_edx :: u32
  reg_ecx :: u32
  reg_eax :: u32

record Trapframe =
  tf_regs :: PushRegs
  tf_es :: u16
  tf_ds :: u16
  tf_trapno :: u32
  tf_err :: u32
  tf_eip :: u32
  tf_cs :: u16
  tf_eflags :: u32
  tf_esp :: u32
  tf_ss :: u16

definition zero_regs :: PushRegs where
  "zero_regs = \<lparr>reg_edi = 0, reg_esi = 0, reg_ebp = 0, reg_oesp = 0, reg_ebx = 0, reg_edx = 0,
     reg_ecx = 0, reg_eax = 0\<rparr>"

definition zero_tf :: Trapframe where
  "zero_tf = \<lparr>tf_regs = zero_regs, tf_es = 0, tf_ds = 0, tf_trapno = 0, tf_err = 0, tf_eip = 0,
     tf_cs = 0, tf_eflags = 0, tf_esp = 0, tf_ss = 0\<rparr>"

subsection \<open>Environments and page descriptors\<close>

datatype env_status = ENV_FREE | ENV_DYING | ENV_RUNNABLE | ENV_RUNNING | ENV_NOT_RUNNABLE

datatype EnvType = ENV_TYPE_USER | ENV_TYPE_FS

text \<open>\<open>envid_t\<close> is a signed 32-bit integer: comparisons go through \<open>sint\<close>.\<close>

type_synonym envid_t = u32

definition NENV :: nat where "NENV = 1024"

definition ENVX :: "envid_t \<Rightarrow> nat" where "ENVX envid = unat (envid AND 0x3FF)"

record Env =
  env_tf :: Trapframe
  env_link :: "nat option"
  env_id :: envid_t
  env_parent_id :: envid_t
  env_type :: EnvType
  env_status :: env_status
  env_runs :: u32
  env_cpunum :: int
  env_pgdir :: u32
  env_pgfault_upcall :: u32
  env_ipc_recving :: bool
  env_ipc_dstva :: u32
  env_ipc_value :: u32
  env_ipc_from :: envid_t
  env_ipc_perm :: u32

text \<open>An entry of \<open>envs\<close> after \<open>memset(envs, 0, ...)\<close> in \<open>mem_init\<close>.\<close>

definition blank_env :: Env where
  "blank_env = \<lparr>env_tf = zero_tf, env_link = None, env_id = 0, env_parent_id = 0, env_type = ENV_TYPE_USER,
     env_status = ENV_FREE, env_runs = 0, env_cpunum = 0, env_pgdir = 0, env_pgfault_upcall = 0,
     env_ipc_recving = False, env_ipc_dstva = 0, env_ipc_value = 0, env_ipc_from = 0, env_ipc_perm = 0\<rparr>"

record PageInfo =
  pp_link :: "nat option"
  pp_ref :: u16

datatype cpu_state = CPU_UNUSED | CPU_STARTED | CPU_HALTED

subsection \<open>The kernel state\<close>

record kern =
  npages :: nat
  pages :: "PageInfo list"
  page_free_list :: "nat option"
  kern_pgdir :: u32
  nextfree :: u32
  mmio_base :: u32
  mem :: "u32 \<Rightarrow> u32"
  cr3 :: u32
  invlpgs :: "u32 list"
  user_mem_check_addr :: u32
  envs :: "Env list"
  env_free_list :: "nat option"
  curenv :: "nat option"
  cpu_num :: int
  cpu_status :: cpu_state
  kernel_locked :: bool

definition kload :: "kern \<Rightarrow> u32 \<Rightarrow> u32" where
  "kload s kva = mem s (kva - KERNBASE)"

definition kstore :: "kern \<Rightarrow> u32 \<Rightarrow> u32 \<Rightarrow> kern" where
  "kstore s kva v = s\<lparr>mem := (mem s)(kva - KERNBASE := v)\<rparr>"

definition upd_page :: "kern \<Rightarrow> nat \<Rightarrow> (PageInfo \<Rightarrow> PageInfo) \<Rightarrow> kern" where
  "upd_page s i f = s\<lparr>pages := (pages s)[i := f (pages s ! i)]\<rparr>"

definition upd_env :: "kern \<Rightarrow> nat \<Rightarrow> (Env \<Rightarrow> Env) \<Rightarrow> kern" where
  "upd_env s i f = s\<lparr>envs := (envs s)[i := f (envs s ! i)]\<rparr>"

definition ref_of :: "kern \<Rightarrow> nat \<Rightarrow> u16" where "ref_of s i = pp_ref (pages s ! i)"

definition link_of :: "kern \<Rightarrow> nat \<Rightarrow> nat option" where "link_of s i = pp_link (pages s ! i)"

text \<open>\<open>PADDR\<close>, \<open>KADDR\<close> and the conversions of kern/pmap.h, with their panics.\<close>

definition PADDR :: "u32 \<Rightarrow> u32 option" where
  "PADDR kva = (if kva < KERNBASE then None else Some (kva - KERNBASE))"

definition KADDR :: "kern \<Rightarrow> u32 \<Rightarrow> u32 option" where
  "KADDR s pa = (if unat (PGNUM pa) \<ge> npages s then None else Some (pa + KERNBASE))"

definition page2pa :: "nat \<Rightarrow> u32" where
  "page2pa pp = push_bit 12 (of_nat pp)"

definition pa2page :: "kern \<Rightarrow> u32 \<Rightarrow> nat option" where
  "pa2page s pa = (if unat (PGNUM pa) \<ge> npages s then None else Some (unat (PGNUM pa)))"

definition page2kva :: "kern \<Rightarrow> nat \<Rightarrow> u32 option" where
  "page2kva s pp = KADDR s (page2pa pp)"

text \<open>\<open>memset(kva, 0, PGSIZE)\<close> and \<open>memcpy(dst, src, PGSIZE)\<close> on whole pages.\<close>

definition zero_page :: "kern \<Rightarrow> u32 \<Rightarrow> kern" where
  "zero_page s kva = s\<lparr>mem := (\<lambda>a. if PTE_ADDR a = kva - KERNBASE then 0 else mem s a)\<rparr>"

definition copy_page :: "kern \<Rightarrow> u32 \<Rightarrow> u32 \<Rightarrow> kern" where
  "copy_page s dst src =
     s\<lparr>mem := (\<lambda>a. if PTE_ADDR a = dst - KERNBASE then mem s (src - KERNBASE + PGOFF a) else mem s a)\<rparr>"

subsection \<open>Reading the state after an update\<close>

lemma kload_kstore: "kload (kstore s p v) q = (if p = q then v else kload s q)"
  by (auto simp: kload_def kstore_def)

lemma kload_KADDR [simp]: "kload s (pa + KERNBASE) = mem s pa"
  by (simp add: kload_def)

lemma kstore_simps [simp]:
  "npages (kstore s p v) = npages s" "pages (kstore s p v) = pages s"
  "page_free_list (kstore s p v) = page_free_list s" "kern_pgdir (kstore s p v) = kern_pgdir s"
  "envs (kstore s p v) = envs s" "curenv (kstore s p v) = curenv s"
  "env_free_list (kstore s p v) = env_free_list s" "invlpgs (kstore s p v) = invlpgs s"
  "mmio_base (kstore s p v) = mmio_base s" "nextfree (kstore s p v) = nextfree s"
  "ref_of (kstore s p v) = ref_of s" "link_of (kstore s p v) = link_of s"
  "cr3 (kstore s p v) = cr3 s"
  by (auto simp: kstore_def ref_of_def link_of_def fun_eq_iff)

lemma upd_page_simps [simp]:
  "npages (upd_page s i f) = npages s" "mem (upd_page s i f) = mem s"
  "page_free_list (upd_page s i f) = page_free_list s" "kern_pgdir (upd_page s i f) = kern_pgdir s"
  "length (pages (upd_page s i f)) = length (pages s)" "kload (upd_page s i f) p = kload s p"
  "envs (upd_page s i f) = envs s" "curenv (upd_page s i f) = curenv s"
  "env_free_list (upd_page s i f) = env_free_list s" "invlpgs (upd_page s i f) = invlpgs s"
  "mmio_base (upd_page s i f) = mmio_base s" "nextfree (upd_page s i f) = nextfree s"
  "cr3 (upd_page s i f) = cr3 s"
  by (auto simp: upd_page_def kload_def)

lemma upd_env_simps [simp]:
  "npages (upd_env s i f) = npages s" "mem (upd_env s i f) = mem s" "pages (upd_env s i f) = pages s"
  "page_free_list (upd_env s i f) = page_free_list s" "kern_pgdir (upd_env s i f) = kern_pgdir s"
  "length (envs (upd_env s i f)) = length (envs s)" "kload (upd_env s i f) p = kload s p"
  "curenv (upd_env s i f) = curenv s" "env_free_list (upd_env s i f) = env_free_list s"
  "invlpgs (upd_env s i f) = invlpgs s" "ref_of (upd_env s i f) = ref_of s"
  "link_of (upd_env s i f) = link_of s" "cr3 (upd_env s i f) = cr3 s"
  by (auto simp: upd_env_def kload_def ref_of_def link_of_def fun_eq_iff)

lemma zero_page_simps [simp]:
  "npages (zero_page s p) = npages s" "pages (zero_page s p) = pages s"
  "page_free_list (zero_page s p) = page_free_list s" "kern_pgdir (zero_page s p) = kern_pgdir s"
  "envs (zero_page s p) = envs s" "curenv (zero_page s p) = curenv s"
  "env_free_list (zero_page s p) = env_free_list s" "invlpgs (zero_page s p) = invlpgs s"
  "mmio_base (zero_page s p) = mmio_base s" "nextfree (zero_page s p) = nextfree s"
  "ref_of (zero_page s p) = ref_of s" "link_of (zero_page s p) = link_of s" "cr3 (zero_page s p) = cr3 s"
  by (auto simp: zero_page_def ref_of_def link_of_def fun_eq_iff)

lemma upd_page_nth: "i < length (pages s) \<Longrightarrow>
    pages (upd_page s i f) ! j = (if i = j then f (pages s ! i) else pages s ! j)"
  by (simp add: upd_page_def nth_list_update)

lemma upd_env_nth: "i < length (envs s) \<Longrightarrow>
    envs (upd_env s i f) ! j = (if i = j then f (envs s ! i) else envs s ! j)"
  by (simp add: upd_env_def nth_list_update)

subsection \<open>Page numbers and physical addresses\<close>

lemma unat_page2pa: "pp < 1048576 \<Longrightarrow> unat (page2pa pp) = 4096 * pp"
proof -
  assume a: "pp < 1048576"
  have "page2pa pp = of_nat (4096 * pp)"
    by (simp add: page2pa_def push_bit_eq_mult)
  then show ?thesis
    using a by (simp add: unat_of_nat del: of_nat_mult)
qed

lemma PGOFF_page2pa [simp]: "PGOFF (page2pa pp) = 0"
  by (simp only: PGOFF_def page2pa_def mask_12_word) (rule bit_word_eqI, auto simp: bit_simps)

lemma PTE_ADDR_page2pa [simp]: "PTE_ADDR (page2pa pp) = page2pa pp"
  by (simp add: PTE_ADDR_aligned)

lemma PGNUM_page2pa: "pp < 1048576 \<Longrightarrow> unat (PGNUM (page2pa pp)) = pp"
  by (simp add: unat_PGNUM unat_page2pa)

lemma page2pa_inject: "pp < 1048576 \<Longrightarrow> qq < 1048576 \<Longrightarrow> page2pa pp = page2pa qq \<longleftrightarrow> pp = qq"
  by (metis PGNUM_page2pa)

lemma PGNUM_PTE_ADDR [simp]: "PGNUM (PTE_ADDR a) = PGNUM a"
  by (simp only: PGNUM_def PTE_ADDR_def mask_12_word)
    (rule bit_word_eqI, auto simp: bit_simps dest: bit_imp_le_length)

lemma page2pa_PGNUM: "page2pa (unat (PGNUM a)) = PTE_ADDR a"
proof -
  have "of_nat (unat (PGNUM a)) = PGNUM a"
    by simp
  then show ?thesis
    by (simp only: page2pa_def PGNUM_def PTE_ADDR_def mask_12_word)
      (rule bit_word_eqI, auto simp: bit_simps)
qed

end
