(* ===== verification/Allocator.thy ===== *)
theory Allocator
  imports Prelude
begin

text \<open>
  The contract of a physical page allocator, as its clients use it: the free pages form a list,
  allocation hands out its head, release puts a page back in front. The JOS allocator
  (kern/pmap.c) and the xv6 allocator (kalloc.c) both interpret this locale.
\<close>

primrec alloc_many :: "('s \<Rightarrow> ('p option \<times> 's) option) \<Rightarrow> nat \<Rightarrow> 's \<Rightarrow> ('p list \<times> 's) option" where
  "alloc_many alloc 0 s = Some ([], s)"
| "alloc_many alloc (Suc n) s = do {
     (r, s1) \<leftarrow> alloc s;
     case r of
       None \<Rightarrow> Some ([], s1)
     | Some x \<Rightarrow> do { (xs, s2) \<leftarrow> alloc_many alloc n s1; Some (x # xs, s2) }
   }"

primrec release_many :: "('s \<Rightarrow> 'p \<Rightarrow> 's option) \<Rightarrow> 'p list \<Rightarrow> 's \<Rightarrow> 's option" where
  "release_many release [] s = Some s"
| "release_many release (x # xs) s = do { s1 \<leftarrow> release s x; release_many release xs s1 }"

locale page_allocator =
  fixes inv :: "'s \<Rightarrow> 'p list \<Rightarrow> bool"
    and owned :: "'s \<Rightarrow> 'p \<Rightarrow> bool"
    and alloc :: "'s \<Rightarrow> ('p option \<times> 's) option"
    and release :: "'s \<Rightarrow> 'p \<Rightarrow> 's option"
  assumes inv_distinct: "inv s xs \<Longrightarrow> distinct xs"
    and alloc_empty: "inv s [] \<Longrightarrow> alloc s = Some (None, s)"
    and alloc_head: "inv s (x # xs) \<Longrightarrow>
          \<exists>s'. alloc s = Some (Some x, s') \<and> inv s' xs \<and> owned s' x \<and> (\<forall>y. owned s y \<longrightarrow> owned s' y)"
    and release_owned: "inv s xs \<Longrightarrow> owned s x \<Longrightarrow> x \<notin> set xs \<Longrightarrow>
          \<exists>s'. release s x = Some s' \<and> inv s' (x # xs) \<and> (\<forall>y. y \<noteq> x \<longrightarrow> owned s y \<longrightarrow> owned s' y)"
begin

lemma alloc_many_spec:
  "inv s xs \<Longrightarrow> \<exists>s'. alloc_many alloc n s = Some (take n xs, s') \<and> inv s' (drop n xs) \<and>
     (\<forall>y. owned s y \<longrightarrow> owned s' y) \<and> (\<forall>y \<in> set (take n xs). owned s' y)"
proof (induction n arbitrary: s xs)
  case 0
  then show ?case by auto
next
  case (Suc n)
  show ?case
  proof (cases xs)
    case Nil
    with Suc.prems show ?thesis by (auto simp: alloc_empty)
  next
    case (Cons x ys)
    with Suc.prems obtain s1 where s1: "alloc s = Some (Some x, s1)" "inv s1 ys" "owned s1 x"
      "\<forall>y. owned s y \<longrightarrow> owned s1 y"
      using alloc_head by blast
    from Suc.IH [OF s1(2)] obtain s2 where "alloc_many alloc n s1 = Some (take n ys, s2)"
      "inv s2 (drop n ys)" "\<forall>y. owned s1 y \<longrightarrow> owned s2 y" "\<forall>y \<in> set (take n ys). owned s2 y"
      by blast
    with s1 Cons show ?thesis by auto
  qed
qed

lemma release_many_spec:
  "inv s xs \<Longrightarrow> distinct ys \<Longrightarrow> set ys \<inter> set xs = {} \<Longrightarrow> \<forall>y \<in> set ys. owned s y \<Longrightarrow>
     \<exists>s'. release_many release ys s = Some s' \<and> inv s' (rev ys @ xs)"
proof (induction ys arbitrary: s xs)
  case Nil
  then show ?case by simp
next
  case (Cons y ys)
  then obtain s1 where s1: "release s y = Some s1" "inv s1 (y # xs)"
    "\<forall>z. z \<noteq> y \<longrightarrow> owned s z \<longrightarrow> owned s1 z"
    using release_owned [of s xs y] by auto
  with Cons.prems have "\<forall>z \<in> set ys. owned s1 z" "set ys \<inter> set (y # xs) = {}" "distinct ys"
    by auto
  from Cons.IH [OF s1(2) this(3,2,1)] s1(1) show ?case by auto
qed

text \<open>Allocating and then releasing in reverse order restores the free list exactly.\<close>

lemma alloc_release_roundtrip:
  assumes "inv s xs"
  shows "\<exists>s1 s2. alloc_many alloc n s = Some (take n xs, s1) \<and>
     release_many release (rev (take n xs)) s1 = Some s2 \<and> inv s2 xs"
proof -
  obtain s1 where s1: "alloc_many alloc n s = Some (take n xs, s1)" "inv s1 (drop n xs)"
    "\<forall>y \<in> set (take n xs). owned s1 y"
    using alloc_many_spec [OF assms] by blast
  have d: "distinct (take n xs)" "set (take n xs) \<inter> set (drop n xs) = {}"
    using inv_distinct [OF assms] by (simp_all add: set_take_disj_set_drop_if_distinct)
  obtain s2 where "release_many release (rev (take n xs)) s1 = Some s2"
    "inv s2 (rev (rev (take n xs)) @ drop n xs)"
    using release_many_spec [OF s1(2), of "rev (take n xs)"] d s1(3) by auto
  with s1(1) show ?thesis by auto
qed

end

end
