(* ===== verification/JosPmap.thy ===== *)
theory JosPmap
  imports JosState Allocator
begin

text \<open>
  The JOS physical page allocator and two-level page tables (kern/pmap.c), function by function.
  A result \<open>None\<close> is a kernel panic; \<open>NULL\<close> pointers are an inner \<open>None\<close>. The linker
  symbol \<open>end\<close> is the argument \<open>end_sym\<close> of the boot-time functions.
\<close>

subsection \<open>Boot-time allocation\<close>

definition boot_alloc :: "u32 \<Rightarrow> kern \<Rightarrow> u32 \<Rightarrow> u32 \<times> kern" where
  "boot_alloc end_sym s n =
     (let s1 = (if nextfree s = 0 then s\<lparr>nextfree := ROUNDUP end_sym PGSIZE\<rparr> else s);
          result = nextfree s1
      in (result, s1\<lparr>nextfree := ROUNDUP (result + n) PGSIZE\<rparr>))"

subsection \<open>The page allocator\<close>

text \<open>One iteration of the loop of \<open>page_init\<close>, for page \<open>i\<close>.\<close>

definition page_init_step :: "nat \<Rightarrow> nat \<Rightarrow> nat \<Rightarrow> kern \<Rightarrow> kern" where
  "page_init_step io_hole_start_page kernel_end_page i s =
     (if i = 0 then upd_page s i (\<lambda>p. p\<lparr>pp_ref := 1, pp_link := None\<rparr>)
      else if i \<ge> io_hole_start_page \<and> i < kernel_end_page
        then upd_page s i (\<lambda>p. p\<lparr>pp_ref := 1, pp_link := None\<rparr>)
      else if i = unat (MPENTRY_PADDR div PGSIZE)
        then upd_page s i (\<lambda>p. p\<lparr>pp_ref := 1, pp_link := None\<rparr>)
      else (upd_page s i (\<lambda>p. p\<lparr>pp_ref := 0, pp_link := page_free_list s\<rparr>))\<lparr>page_free_list := Some i\<rparr>)"

definition page_init :: "u32 \<Rightarrow> kern \<Rightarrow> kern option" where
  "page_init end_sym s = do {
     let io_hole_start_page = unat (IOPHYSMEM div PGSIZE);
     let (first_free, s) = boot_alloc end_sym s 0;
     kernel_end_pa \<leftarrow> PADDR first_free;
     let kernel_end_page = unat (kernel_end_pa div PGSIZE);
     Some (fold (page_init_step io_hole_start_page kernel_end_page) [0..<npages s] s)
   }"

definition ALLOC_ZERO :: u32 where "ALLOC_ZERO = 1"

definition page_alloc :: "kern \<Rightarrow> u32 \<Rightarrow> (nat option \<times> kern) option" where
  "page_alloc s alloc_flags =
     (case page_free_list s of
        None \<Rightarrow> Some (None, s)
      | Some ret \<Rightarrow>
          let s1 = s\<lparr>page_free_list := link_of s ret\<rparr>;
              s2 = upd_page s1 ret (\<lambda>p. p\<lparr>pp_link := None\<rparr>)
          in if alloc_flags AND ALLOC_ZERO \<noteq> 0
             then do { kva \<leftarrow> page2kva s2 ret; Some (Some ret, zero_page s2 kva) }
             else Some (Some ret, s2))"

definition page_free :: "kern \<Rightarrow> nat \<Rightarrow> kern option" where
  "page_free s pp =
     (if ref_of s pp \<noteq> 0 \<or> link_of s pp \<noteq> None then None
      else Some ((upd_page s pp (\<lambda>p. p\<lparr>pp_link := page_free_list s\<rparr>))\<lparr>page_free_list := Some pp\<rparr>))"

definition page_decref :: "kern \<Rightarrow> nat \<Rightarrow> kern option" where
  "page_decref s pp =
     (let s1 = upd_page s pp (\<lambda>p. p\<lparr>pp_ref := pp_ref p - 1\<rparr>)
      in if ref_of s1 pp = 0 then page_free s1 pp else Some s1)"

subsection \<open>Page tables\<close>

definition pgdir_walk :: "kern \<Rightarrow> u32 \<Rightarrow> u32 \<Rightarrow> bool \<Rightarrow> (u32 option \<times> kern) option" where
  "pgdir_walk s pgdir va create =
     (let pde_ptr = entry pgdir (PDX va);
          finish = (\<lambda>s. do { kva \<leftarrow> KADDR s (PTE_ADDR (kload s pde_ptr));
                             Some (Some (entry kva (PTX va)), s) })
      in if kload s pde_ptr AND PTE_P = 0
         then if create
              then do {
                (r, s) \<leftarrow> page_alloc s 1;
                case r of
                  None \<Rightarrow> Some (None, s)
                | Some pp \<Rightarrow>
                    let s = upd_page s pp (\<lambda>p. p\<lparr>pp_ref := pp_ref p + 1\<rparr>)
                    in finish (kstore s pde_ptr (page2pa pp OR PTE_P OR PTE_U OR PTE_W))
              }
              else Some (None, s)
         else finish s)"

fun boot_map_loop :: "nat \<Rightarrow> kern \<Rightarrow> u32 \<Rightarrow> u32 \<Rightarrow> u32 \<Rightarrow> u32 \<Rightarrow> kern option" where
  "boot_map_loop 0 s pgdir va pa perm = Some s"
| "boot_map_loop (Suc n) s pgdir va pa perm = do {
     (pte, s) \<leftarrow> pgdir_walk s pgdir va True;
     case pte of
       None \<Rightarrow> None
     | Some p \<Rightarrow> boot_map_loop n (kstore s p (pa OR PTE_P OR perm)) pgdir (va + PGSIZE) (pa + PGSIZE) perm
   }"

definition boot_map_region :: "kern \<Rightarrow> u32 \<Rightarrow> u32 \<Rightarrow> u32 \<Rightarrow> u32 \<Rightarrow> u32 \<Rightarrow> kern option" where
  "boot_map_region s pgdir va sz pa perm =
     (let pgs = sz div PGSIZE;
          pgs = (if sz mod PGSIZE \<noteq> 0 then pgs + 1 else pgs)
      in boot_map_loop (unat pgs) s pgdir va pa perm)"

text \<open>C's logical negation as a value, needed for the test \<open>!(*pte) & PTE_P\<close> of \<open>page_lookup\<close>.\<close>

definition c_not :: "u32 \<Rightarrow> u32" where "c_not x = (if x = 0 then 1 else 0)"

definition page_lookup :: "kern \<Rightarrow> u32 \<Rightarrow> u32 \<Rightarrow> (nat \<times> u32) option option" where
  "page_lookup s pgdir va = do {
     (r, _) \<leftarrow> pgdir_walk s pgdir va False;
     case r of
       None \<Rightarrow> Some None
     | Some pte \<Rightarrow>
         if c_not (kload s pte) AND PTE_P \<noteq> 0 then Some None
         else do { pp \<leftarrow> pa2page s (PTE_ADDR (kload s pte)); Some (Some (pp, pte)) }
   }"

definition tlb_invalidate :: "kern \<Rightarrow> u32 \<Rightarrow> u32 \<Rightarrow> kern" where
  "tlb_invalidate s pgdir va =
     (case curenv s of
        None \<Rightarrow> s\<lparr>invlpgs := va # invlpgs s\<rparr>
      | Some e \<Rightarrow> if env_pgdir (envs s ! e) = pgdir then s\<lparr>invlpgs := va # invlpgs s\<rparr> else s)"

definition page_remove :: "kern \<Rightarrow> u32 \<Rightarrow> u32 \<Rightarrow> kern option" where
  "page_remove s pgdir va = do {
     r \<leftarrow> page_lookup s pgdir va;
     case r of
       None \<Rightarrow> Some s
     | Some (pp, pte_store) \<Rightarrow> do {
         s \<leftarrow> page_decref s pp;
         Some (tlb_invalidate (kstore s pte_store 0) pgdir va)
       }
   }"

definition page_insert :: "kern \<Rightarrow> u32 \<Rightarrow> nat \<Rightarrow> u32 \<Rightarrow> u32 \<Rightarrow> (int \<times> kern) option" where
  "page_insert s pgdir pp va perm = do {
     (r, s) \<leftarrow> pgdir_walk s pgdir va True;
     case r of
       None \<Rightarrow> Some (- E_NO_MEM, s)
     | Some pte \<Rightarrow> do {
         let s = upd_page s pp (\<lambda>p. p\<lparr>pp_ref := pp_ref p + 1\<rparr>);
         s \<leftarrow> (if kload s pte AND PTE_P \<noteq> 0 then page_remove s pgdir va else Some s);
         let pa = page2pa pp;
         let s = kstore s pte (pa OR perm OR PTE_P);
         let s = kstore s (entry pgdir (PDX va)) (kload s (entry pgdir (PDX va)) OR perm);
         Some (0, s)
       }
   }"

definition mmio_map_region :: "kern \<Rightarrow> u32 \<Rightarrow> u32 \<Rightarrow> (u32 \<times> kern) option" where
  "mmio_map_region s pa sz =
     (let sz = ROUNDUP (pa + sz) PGSIZE;
          pa = ROUNDDOWN pa PGSIZE;
          sz = sz - pa
      in if mmio_base s + sz \<ge> MMIOLIM then None
         else do {
           s \<leftarrow> boot_map_region s (kern_pgdir s) (mmio_base s) sz pa (PTE_PCD OR PTE_PWT OR PTE_W);
           let s = s\<lparr>mmio_base := mmio_base s + sz\<rparr>;
           Some (mmio_base s - sz, s)
         })"

subsection \<open>Checking user pointers\<close>

partial_function (option) user_mem_loop ::
    "kern \<Rightarrow> u32 \<Rightarrow> u32 \<Rightarrow> u32 \<Rightarrow> u32 \<Rightarrow> u32 \<Rightarrow> (int \<times> kern) option" where
  "user_mem_loop s pgdir va perm i end_va =
     (if i < end_va then do {
        (r, s) \<leftarrow> pgdir_walk s pgdir i False;
        if i \<ge> ULIM \<or> r = None \<or> kload s (the r) AND PTE_P = 0 \<or> kload s (the r) AND perm \<noteq> perm
        then Some (- E_FAULT, s\<lparr>user_mem_check_addr := (if i < va then va else i)\<rparr>)
        else user_mem_loop s pgdir va perm (i + PGSIZE) end_va
      } else Some (0, s))"

definition user_mem_check :: "kern \<Rightarrow> nat \<Rightarrow> u32 \<Rightarrow> u32 \<Rightarrow> u32 \<Rightarrow> (int \<times> kern) option" where
  "user_mem_check s env va len perm =
     user_mem_loop s (env_pgdir (envs s ! env)) va perm (ROUNDDOWN va PGSIZE) (ROUNDUP (va + len) PGSIZE)"

subsection \<open>The free list\<close>

text \<open>
  \<open>free_inv s xs\<close>: the link fields starting at \<open>page_free_list\<close> visit exactly the distinct pages
  \<open>xs\<close>, all of them in range and unreferenced. \<open>releasable\<close> is what \<open>page_free\<close> checks.
\<close>

definition free_inv :: "kern \<Rightarrow> nat list \<Rightarrow> bool" where
  "free_inv s xs \<longleftrightarrow> length (pages s) = npages s \<and> npages s \<le> 1048576 \<and>
     linked (link_of s) (page_free_list s) xs \<and> distinct xs \<and>
     (\<forall>x \<in> set xs. x < npages s \<and> ref_of s x = 0) \<and>
     (\<forall>x < npages s. x \<notin> set xs \<longrightarrow> link_of s x = None)"

definition releasable :: "kern \<Rightarrow> nat \<Rightarrow> bool" where
  "releasable s pp \<longleftrightarrow> pp < npages s \<and> ref_of s pp = 0 \<and> link_of s pp = None"

lemma link_of_upd_page: "i < length (pages s) \<Longrightarrow>
    link_of (upd_page s i f) = (link_of s)(i := pp_link (f (pages s ! i)))"
  by (auto simp: link_of_def upd_page_nth fun_eq_iff)

lemma ref_of_upd_page: "i < length (pages s) \<Longrightarrow>
    ref_of (upd_page s i f) = (ref_of s)(i := pp_ref (f (pages s ! i)))"
  by (auto simp: ref_of_def upd_page_nth fun_eq_iff)

lemma ref_of_upd_link [simp]: "ref_of (upd_page s i (pp_link_update g)) = ref_of s"
  by (cases "i < length (pages s)") (auto simp: ref_of_def upd_page_nth fun_eq_iff, simp add: upd_page_def not_less list_update_beyond)

lemma link_of_upd_ref [simp]: "link_of (upd_page s i (pp_ref_update g)) = link_of s"
  by (cases "i < length (pages s)") (auto simp: link_of_def upd_page_nth fun_eq_iff, simp add: upd_page_def not_less list_update_beyond)

lemma ref_of_upd_inc [simp]: "i < length (pages s) \<Longrightarrow>
    ref_of (upd_page s i (\<lambda>p. p\<lparr>pp_ref := pp_ref p + 1\<rparr>)) = (ref_of s)(i := ref_of s i + 1)"
  by (auto simp: ref_of_def upd_page_nth fun_eq_iff)

lemma ref_of_upd_dec [simp]: "i < length (pages s) \<Longrightarrow>
    ref_of (upd_page s i (\<lambda>p. p\<lparr>pp_ref := pp_ref p - 1\<rparr>)) = (ref_of s)(i := ref_of s i - 1)"
  by (auto simp: ref_of_def upd_page_nth fun_eq_iff)

lemma link_of_upd_ref_fun [simp]: "link_of (upd_page s i (\<lambda>p. p\<lparr>pp_ref := g p\<rparr>)) = link_of s"
  by (cases "i < length (pages s)")
    (auto simp: link_of_def upd_page_nth fun_eq_iff, simp add: upd_page_def not_less list_update_beyond)

lemma free_list_upd_simps [simp]:
  "link_of (s\<lparr>page_free_list := q\<rparr>) = link_of s" "ref_of (s\<lparr>page_free_list := q\<rparr>) = ref_of s"
  "upd_page (s\<lparr>page_free_list := q\<rparr>) i f = (upd_page s i f)\<lparr>page_free_list := q\<rparr>"
  by (auto simp: link_of_def ref_of_def fun_eq_iff upd_page_def)

lemma KADDR_page2pa: "pp < npages s \<Longrightarrow> npages s \<le> 1048576 \<Longrightarrow> KADDR s (page2pa pp) = Some (page2pa pp + KERNBASE)"
  by (simp add: KADDR_def PGNUM_page2pa)

text \<open>What allocation from a non-empty free list does.\<close>

lemma page_alloc_Cons:
  assumes "free_inv s (x # xs)"
  shows "page_alloc s fl = Some (Some x,
     let s2 = upd_page (s\<lparr>page_free_list := link_of s x\<rparr>) x (\<lambda>p. p\<lparr>pp_link := None\<rparr>)
     in if fl AND ALLOC_ZERO \<noteq> 0 then zero_page s2 (page2pa x + KERNBASE) else s2)"
  using assms by (simp add: free_inv_def page_alloc_def page2kva_def KADDR_page2pa Let_def)

lemma page_alloc_mem:
  assumes "free_inv s (x # xs)" "page_alloc s fl = Some (r, s')" "unat (PGNUM a) \<noteq> x"
  shows "mem s' a = mem s a"
proof -
  have "x < 1048576"
    using assms(1) by (auto simp: free_inv_def)
  then have "PTE_ADDR a \<noteq> page2pa x"
    using assms(3) PGNUM_page2pa by (metis PGNUM_PTE_ADDR)
  then show ?thesis
    using assms(2) by (auto simp: page_alloc_Cons [OF assms(1)] Let_def zero_page_def)
qed

lemma page_alloc_Nil: "free_inv s [] \<Longrightarrow> page_alloc s fl = Some (None, s)"
  by (simp add: free_inv_def page_alloc_def)

lemma page_alloc_inv:
  assumes "free_inv s (x # xs)" "page_alloc s fl = Some (r, s')"
  shows "r = Some x" "free_inv s' xs" "releasable s' x" "\<And>y. y \<noteq> x \<Longrightarrow> releasable s y \<Longrightarrow> releasable s' y"
    "ref_of s' = ref_of s" "npages s' = npages s"
proof -
  from assms(1) have x: "x < length (pages s)" "linked (link_of s) (link_of s x) xs" "x \<notin> set xs"
    "ref_of s x = 0" "npages s = length (pages s)"
    by (auto simp: free_inv_def)
  note defs = free_inv_def releasable_def link_of_upd_page Let_def
  from assms(2) show "r = Some x"
    by (simp add: page_alloc_Cons [OF assms(1)])
  from assms(2) x show "free_inv s' xs"
    using assms(1) by (auto simp: page_alloc_Cons [OF assms(1)] defs split: if_splits)
  from assms(2) x show "releasable s' x" "\<And>y. y \<noteq> x \<Longrightarrow> releasable s y \<Longrightarrow> releasable s' y" "ref_of s' = ref_of s"
     "npages s' = npages s"
    by (auto simp: page_alloc_Cons [OF assms(1)] defs split: if_splits)
qed

lemma page_free_inv:
  assumes "free_inv s xs" "releasable s x" "x \<notin> set xs"
  obtains s' where "page_free s x = Some s'" "free_inv s' (x # xs)"
    "\<And>y. y \<noteq> x \<Longrightarrow> releasable s y \<Longrightarrow> releasable s' y" "ref_of s' = ref_of s" "mem s' = mem s" "npages s' = npages s"
proof -
  let ?s = "(upd_page s x (\<lambda>p. p\<lparr>pp_link := page_free_list s\<rparr>))\<lparr>page_free_list := Some x\<rparr>"
  have x: "x < length (pages s)" and r: "ref_of s x = 0" "link_of s x = None"
    using assms by (auto simp: free_inv_def releasable_def)
  have "page_free s x = Some ?s"
    using r by (simp add: page_free_def)
  moreover have "free_inv ?s (x # xs)"
    using assms x by (auto simp: free_inv_def link_of_upd_page releasable_def)
  moreover have "releasable ?s y" if "y \<noteq> x" "releasable s y" for y
    using that x by (auto simp: releasable_def link_of_upd_page)
  ultimately show thesis
    by (intro that [of ?s]) auto
qed

interpretation jos_alloc: page_allocator free_inv releasable "\<lambda>s. page_alloc s fl" page_free
proof unfold_locales
  fix s x xs
  show "free_inv s xs \<Longrightarrow> distinct xs" by (simp add: free_inv_def)
  show "free_inv s [] \<Longrightarrow> page_alloc s fl = Some (None, s)" by (rule page_alloc_Nil)
  show "\<exists>s'. page_alloc s fl = Some (Some x, s') \<and> free_inv s' xs \<and> releasable s' x \<and> (\<forall>y. releasable s y \<longrightarrow> releasable s' y)"
    if fx: "free_inv s (x # xs)"
  proof -
    obtain r s' where rs: "page_alloc s fl = Some (r, s')"
      using page_alloc_Cons [OF fx] by blast
    from page_alloc_inv [OF fx rs] rs show ?thesis by metis
  qed
  show "\<exists>s'. page_free s x = Some s' \<and> free_inv s' (x # xs) \<and> (\<forall>y. y \<noteq> x \<longrightarrow> releasable s y \<longrightarrow> releasable s' y)"
    if "free_inv s xs" "releasable s x" "x \<notin> set xs"
    using page_free_inv [OF that] by metis
qed

subsection \<open>What \<open>page_init\<close> leaves free\<close>

definition reserved_page :: "nat \<Rightarrow> nat \<Rightarrow> bool" where
  "reserved_page kernel_end i \<longleftrightarrow> i = 0 \<or> (160 \<le> i \<and> i < kernel_end) \<or> i = 7"

lemma page_init_consts: "unat (IOPHYSMEM div PGSIZE) = 160" "unat (MPENTRY_PADDR div PGSIZE) = 7"
  by (simp_all add: layout_defs unat_div)

lemma page_init_loop:
  assumes "length (pages s) = npages s" "npages s \<le> 1048576" "page_free_list s = None" "n \<le> npages s"
    "\<forall>i < npages s. link_of s i = None"
    and "s' = fold (page_init_step 160 kend) [0..<n] s"
  shows "free_inv s' (rev (filter (\<lambda>i. \<not> reserved_page kend i) [0..<n])) \<and>
     npages s' = npages s \<and> (\<forall>i<n. reserved_page kend i \<longrightarrow> ref_of s' i = 1)"
  using assms(4,6)
proof (induction n arbitrary: s')
  case 0
  then show ?case using assms by (simp add: free_inv_def)
next
  case (Suc n)
  define t where "t = fold (page_init_step 160 kend) [0..<n] s"
  have s': "s' = page_init_step 160 kend n t"
    using Suc.prems by (simp add: t_def)
  have IH: "free_inv t (rev (filter (\<lambda>i. \<not> reserved_page kend i) [0..<n]))" "npages t = npages s"
    "\<forall>i<n. reserved_page kend i \<longrightarrow> ref_of t i = 1"
    using Suc.IH [of t] Suc.prems t_def by auto
  have n: "n < length (pages t)"
    using IH Suc.prems assms by (simp add: free_inv_def)
  show ?case
  proof (cases "reserved_page kend n")
    case True
    then have "s' = upd_page t n (\<lambda>p. p\<lparr>pp_ref := 1, pp_link := None\<rparr>)"
      unfolding s' page_init_step_def page_init_consts reserved_page_def by auto
    with IH n True show ?thesis
      by (auto simp: free_inv_def link_of_upd_page ref_of_upd_page less_Suc_eq)
  next
    case False
    then have "s' = (upd_page t n (\<lambda>p. p\<lparr>pp_ref := 0, pp_link := page_free_list t\<rparr>))\<lparr>page_free_list := Some n\<rparr>"
      unfolding s' page_init_step_def page_init_consts reserved_page_def by auto
    with IH n False show ?thesis
      by (auto simp: free_inv_def link_of_upd_page ref_of_upd_page less_Suc_eq)
  qed
qed

text \<open>A machine with 512 pages (2 MB) just before \<open>page_init\<close>, and the kernel image ending at 1.25 MB.\<close>

definition kboot :: kern where
  "kboot = \<lparr>npages = 512, pages = replicate 512 \<lparr>pp_link = None, pp_ref = 0\<rparr>,
     page_free_list = None, kern_pgdir = KERNBASE, nextfree = 0xF0140000, mmio_base = MMIOBASE,
     mem = (\<lambda>_. 0), cr3 = 0, invlpgs = [], user_mem_check_addr = 0, envs = [], env_free_list = None,
     curenv = None, cpu_num = 0, cpu_status = CPU_STARTED, kernel_locked = True\<rparr>"

text \<open>
  C26. \<open>page_init\<close>, run on zeroed page descriptors with \<open>boot_alloc\<close>'s next free address \<open>kend\<close> at or
  above \<open>KERNBASE\<close>, puts on the free list exactly the pages that are not page 0, not in the range from the
  I/O hole to the end of the kernel's boot-time allocations, and not the page of the application-processor
  entry code, in descending order; every other page gets reference count 1.
\<close>

theorem page_init_correct:
  assumes "length (pages s) = npages s" "npages s \<le> 1048576" "page_free_list s = None"
    and "\<forall>i < npages s. link_of s i = None" "nextfree s \<noteq> 0" "KERNBASE \<le> nextfree s"
  shows "\<exists>s'. page_init end_sym s = Some s' \<and>
     (let kend = unat ((nextfree s - KERNBASE) div PGSIZE)
      in free_inv s' (rev (filter (\<lambda>i. \<not> reserved_page kend i) [0..<npages s])) \<and>
         (\<forall>i < npages s. reserved_page kend i \<longrightarrow> ref_of s' i = 1))"
proof -
  let ?kend = "unat ((nextfree s - KERNBASE) div PGSIZE)"
  define s1 where "s1 = s\<lparr>nextfree := ROUNDUP (nextfree s + 0) PGSIZE\<rparr>"
  have f: "npages s1 = npages s" "pages s1 = pages s" "page_free_list s1 = None" "link_of s1 = link_of s"
    using assms(3) by (auto simp: s1_def link_of_def)
  define s' where "s' = fold (page_init_step 160 ?kend) [0..<npages s] s1"
  have "page_init end_sym s = Some s'"
    using assms(5,6) f(1) by (simp add: page_init_def boot_alloc_def PADDR_def page_init_consts not_less s'_def Let_def s1_def)
  moreover have "free_inv s' (rev (filter (\<lambda>i. \<not> reserved_page ?kend i) [0..<npages s])) \<and>
     npages s' = npages s1 \<and> (\<forall>i<npages s. reserved_page ?kend i \<longrightarrow> ref_of s' i = 1)"
    using assms f by (intro page_init_loop [OF _ _ _ _ _ s'_def]) simp_all
  ultimately show ?thesis
    by (auto simp: Let_def)
qed

theorem page_init_correct_witness:
  "\<exists>s'. page_init 0xF0140000 kboot = Some s' \<and> ref_of s' 200 = 1 \<and>
     free_inv s' (rev (filter (\<lambda>i. \<not> reserved_page 320 i) [0..<512]))"
proof -
  have k: "npages kboot = 512" "length (pages kboot) = 512" "page_free_list kboot = None" "nextfree kboot = 0xF0140000"
    "\<forall>i < 512. link_of kboot i = None"
    by (simp_all add: kboot_def link_of_def)
  have e: "unat ((nextfree kboot - KERNBASE) div PGSIZE) = 320"
    by (simp add: k layout_defs unat_div)
  show ?thesis
    using page_init_correct [of kboot "0xF0140000", unfolded e] k
    by (auto simp: KERNBASE_def Let_def) (simp add: reserved_page_def)
qed

text \<open>
  Allocation and release: \<open>n\<close> calls of \<open>page_alloc\<close> return the first \<open>n\<close> pages of the free list (fewer
  when it is shorter), each page once, and \<open>page_free\<close> of those pages in the opposite order restores the
  same free list; neither panics.
\<close>

theorem page_alloc_free_roundtrip:
  assumes "free_inv s xs"
  shows "\<exists>s1 s2. alloc_many (\<lambda>s. page_alloc s fl) n s = Some (take n xs, s1) \<and>
     release_many page_free (rev (take n xs)) s1 = Some s2 \<and> free_inv s2 xs \<and> distinct (take n xs)"
  using jos_alloc.alloc_release_roundtrip [OF assms] assms by (auto simp: free_inv_def)

theorem page_alloc_free_roundtrip_witness:
  "\<exists>s1 s2. alloc_many (\<lambda>s. page_alloc s 1) 3 (kboot\<lparr>page_free_list := Some 9\<rparr>) = Some ([9], s1) \<and>
     release_many page_free [9] s1 = Some s2"
proof -
  have "free_inv (kboot\<lparr>page_free_list := Some 9\<rparr>) [9]"
    by (simp add: free_inv_def) (simp add: kboot_def link_of_def ref_of_def)
  from page_alloc_free_roundtrip [OF this, of 1 3] show ?thesis
    by auto
qed

text \<open>
  C39. The double-free check of \<open>page_free\<close> misses the page at the tail of the free list, whose link is
  \<open>NULL\<close> like that of an allocated page: freeing it again does not panic and turns the free list into a
  cycle, so no finite list describes it any more.
\<close>

theorem page_free_tail_again:
  assumes "free_inv s (xs @ [p])"
  shows "\<exists>s'. page_free s p = Some s' \<and> (\<nexists>ys. linked (link_of s') (page_free_list s') ys)"
proof -
  have p: "p < length (pages s)" "ref_of s p = 0" and dist: "p \<notin> set xs"
    and lk: "linked (link_of s) (page_free_list s) (xs @ [p])"
    using assms by (auto simp: free_inv_def)
  have tail: "link_of s p = None"
    using lk by (rule linked_last)
  define s' where "s' = (upd_page s p (\<lambda>q. q\<lparr>pp_link := page_free_list s\<rparr>))\<lparr>page_free_list := Some p\<rparr>"
  have "page_free s p = Some s'"
    using p tail by (simp add: page_free_def s'_def)
  moreover have "\<not> linked (link_of s') (page_free_list s') ys" for ys
  proof
    assume a: "linked (link_of s') (page_free_list s') ys"
    have l': "link_of s' = (link_of s)(p := page_free_list s)" "page_free_list s' = Some p"
      using p by (simp_all add: s'_def link_of_upd_page)
    from a l' obtain zs where zs: "ys = p # zs" "linked (link_of s') (page_free_list s) zs"
      by (auto simp: linked_Some)
    have "\<exists>ws. zs = xs @ p # ws"
      using zs(2) lk dist unfolding l' by (rule linked_prefix)
    then obtain ws where ws: "zs = xs @ p # ws" ..
    then have "linked (link_of s') (Some p) (p # ws)"
      using linked_suffix [of "link_of s'" "page_free_list s" xs p ws] zs(2) by simp
    then have "p # ws = ys"
      using a l'(2) linked_unique by metis
    with zs(1) ws show False by simp
  qed
  ultimately show ?thesis by blast
qed

theorem page_free_tail_again_witness:
  "\<exists>s'. page_free (kboot\<lparr>page_free_list := Some 9\<rparr>) 9 = Some s' \<and>
     (\<nexists>ys. linked (link_of s') (page_free_list s') ys)"
proof -
  have "free_inv (kboot\<lparr>page_free_list := Some 9\<rparr>) ([] @ [9])"
    by (simp add: free_inv_def) (simp add: kboot_def link_of_def ref_of_def)
  then show ?thesis
    by (rule page_free_tail_again)
qed

end
