(* ===== verification/JosPageTable.thy ===== *)
theory JosPageTable
  imports JosPmap
begin

text \<open>
  What the page tables of a set of environments mean, and that the operations of kern/pmap.c keep
  the reference counts right. The abstract view of a set \<open>Ds\<close> of page directories is a pair of
  finite maps: \<open>tabs\<close> sends a directory slot to the page-table page installed there, \<open>mapped\<close>
  sends a page-table slot to the physical page mapped there. The invariant \<open>pt_inv\<close> relates the
  counters \<open>pp_ref\<close> to these maps.
\<close>

subsection \<open>Counting the preimages of a page\<close>

definition count_refs :: "('k \<rightharpoonup> nat) \<Rightarrow> nat \<Rightarrow> nat" where
  "count_refs m p = card {k. m k = Some p}"

lemma finite_preimage: "finite (dom m) \<Longrightarrow> finite {k. m k = Some p}"
  by (rule finite_subset [of _ "dom m"]) auto

lemma count_refs_insert:
  assumes "finite (dom m)" "m k = None"
  shows "count_refs (m(k \<mapsto> p)) q = count_refs m q + (if q = p then 1 else 0)"
proof (cases "q = p")
  case True
  have "{x. (m(k \<mapsto> p)) x = Some q} = insert k {x. m x = Some q}"
    using True by auto
  then show ?thesis
    using True assms by (simp add: count_refs_def finite_preimage)
next
  case False
  have "{x. (m(k \<mapsto> p)) x = Some q} = {x. m x = Some q}"
    using False assms(2) by auto
  then show ?thesis
    using False by (simp add: count_refs_def)
qed

lemma count_refs_delete:
  assumes "finite (dom m)" "m k = Some p"
  shows "count_refs m q = count_refs (m(k := None)) q + (if q = p then 1 else 0)"
proof -
  have "m = (m(k := None))(k \<mapsto> p)"
    using assms(2) by auto
  then show ?thesis
    using count_refs_insert [of "m(k := None)" k p q] assms(1) by simp
qed

lemma count_refs_pos: "finite (dom m) \<Longrightarrow> m k = Some p \<Longrightarrow> 0 < count_refs m p"
  using count_refs_delete [of m k p p] by simp

subsection \<open>The abstract invariant\<close>

text \<open>
  \<open>pend p\<close> counts the references to \<open>p\<close> that are not page-table entries: pages reserved at boot,
  and references that running code holds between two steps.
\<close>

definition ref_inv :: "nat set \<Rightarrow> ('t \<rightharpoonup> nat) \<Rightarrow> ('k \<rightharpoonup> nat) \<Rightarrow>
    (nat \<Rightarrow> u16) \<Rightarrow> nat \<Rightarrow> (nat \<Rightarrow> nat) \<Rightarrow> bool" where
  "ref_inv Ds T M ref n pend \<longleftrightarrow>
     finite Ds \<and> finite (dom T) \<and> finite (dom M) \<and>
     (\<forall>d \<in> Ds. d < n) \<and> (\<forall>p \<in> ran T. p < n \<and> p \<notin> Ds) \<and> inj_on T (dom T) \<and>
     (\<forall>p \<in> ran M. p < n \<and> p \<notin> Ds \<and> p \<notin> ran T) \<and>
     (\<forall>p \<in> Ds \<union> ran T. ref p = 1 \<and> pend p = 0) \<and>
     (\<forall>p < n. p \<notin> Ds \<union> ran T \<longrightarrow> unat (ref p) = count_refs M p + pend p)"

lemma ref_inv_unreferenced:
  assumes "ref_inv Ds T M ref n pend" "ref p = 0" "p < n"
  shows "p \<notin> Ds" "p \<notin> ran T" "p \<notin> ran M" "pend p = 0" "count_refs M p = 0"
proof -
  show 1: "p \<notin> Ds" "p \<notin> ran T"
    using assms by (auto simp: ref_inv_def)
  then show 2: "pend p = 0" "count_refs M p = 0"
    using assms by (auto simp: ref_inv_def)
  have "finite (dom M)"
    using assms by (simp add: ref_inv_def)
  then show "p \<notin> ran M"
    using count_refs_pos [of M _ p] 2 by (auto simp: ran_def)
qed

lemma ref_inv_new_table:
  assumes inv: "ref_inv Ds T M ref n pend" and x: "ref x = 0" "x < n" and k: "T k = None"
  shows "ref_inv Ds (T(k \<mapsto> x)) M (ref(x := 1)) n pend"
proof -
  note fresh = ref_inv_unreferenced [OF inv x]
  have ran: "ran (T(k \<mapsto> x)) = insert x (ran T)"
    using k by simp
  have "inj_on (T(k \<mapsto> x)) (dom (T(k \<mapsto> x)))"
    using inv k fresh(2) by (auto simp: ref_inv_def inj_on_def ran_def dom_def)
  then show ?thesis
    using inv x fresh unfolding ref_inv_def ran by auto
qed

lemma ref_inv_take:
  assumes inv: "ref_inv Ds T M ref n pend" and p: "p < n" "p \<notin> Ds" "p \<notin> ran T"
    and ov: "unat (ref p) + 1 < 65536"
  shows "ref_inv Ds T M (ref(p := ref p + 1)) n (pend(p := pend p + 1))"
proof -
  have "unat (ref p + 1) = unat (ref p) + 1"
    using ov by (simp add: unat_word_ariths)
  then show ?thesis
    using inv p unfolding ref_inv_def by auto
qed

lemma ref_inv_install:
  assumes inv: "ref_inv Ds T M ref n pend" and p: "p < n" "p \<notin> Ds" "p \<notin> ran T" "0 < pend p"
    and k: "M k = None"
  shows "ref_inv Ds T (M(k \<mapsto> p)) ref n (pend(p := pend p - 1))"
proof -
  have ran: "ran (M(k \<mapsto> p)) = insert p (ran M)"
    using k by simp
  have fin: "finite (dom M)"
    using inv by (simp add: ref_inv_def)
  show ?thesis
    using inv p unfolding ref_inv_def ran count_refs_insert [OF fin k] by auto
qed

lemma ref_inv_uninstall:
  assumes inv: "ref_inv Ds T M ref n pend" and k: "M k = Some p"
  shows "ref_inv Ds T (M(k := None)) (ref(p := ref p - 1)) n pend"
    "p < n" "p \<notin> Ds" "p \<notin> ran T" "ref p \<noteq> 0"
proof -
  have fin: "finite (dom M)"
    using inv by (simp add: ref_inv_def)
  have "p \<in> ran M"
    using k by (rule ranI)
  then show p: "p < n" "p \<notin> Ds" "p \<notin> ran T"
    using inv by (auto simp: ref_inv_def)
  have cnt: "unat (ref p) = count_refs M p + pend p"
    using inv p by (auto simp: ref_inv_def)
  moreover have pos: "0 < count_refs M p"
    by (rule count_refs_pos [OF fin k])
  ultimately show nz: "ref p \<noteq> 0"
    by auto
  have dec: "unat (ref p - 1) = unat (ref p) - 1"
    using nz by (simp add: unat_minus_one)
  have sub: "ran (M(k := None)) \<subseteq> ran M"
    by (auto simp: ran_def)
  have "unat ((ref(p := ref p - 1)) q) = count_refs (M(k := None)) q + pend q"
    if "q < n" "q \<notin> Ds \<union> ran T" for q
    using that inv cnt pos dec count_refs_delete [OF fin k, of q] unfolding ref_inv_def
    by (auto split: if_splits)
  then show "ref_inv Ds T (M(k := None)) (ref(p := ref p - 1)) n pend"
    using inv p sub unfolding ref_inv_def by auto
qed

lemma ref_inv_drop_table:
  assumes inv: "ref_inv Ds T M ref n pend" and k: "T k = Some p"
  shows "ref_inv Ds (T(k := None)) M (ref(p := 0)) n (pend(p := 0))"
proof -
  have p: "p \<in> ran T" using k by (rule ranI)
  have ran: "ran (T(k := None)) = ran T - {p}"
  proof
    show "ran (T(k := None)) \<subseteq> ran T - {p}"
      using inv k by (auto simp: ref_inv_def inj_on_def ran_def dom_def)
    show "ran T - {p} \<subseteq> ran (T(k := None))"
    proof
      fix x assume "x \<in> ran T - {p}"
      then obtain a where "T a = Some x" "x \<noteq> p" by (auto simp: ran_def)
      with k have "(T(k := None)) a = Some x" by auto
      then show "x \<in> ran (T(k := None))" by (rule ranI)
    qed
  qed
  have "p \<notin> ran M"
    using inv p by (auto simp: ref_inv_def)
  then have "count_refs M p = 0"
    by (auto simp: count_refs_def ran_def)
  moreover have "inj_on (T(k := None)) (dom (T(k := None)))"
    using inv by (auto simp: ref_inv_def inj_on_def dom_def)
  ultimately show ?thesis
    using inv p unfolding ref_inv_def ran by auto
qed

subsection \<open>The view of concrete page tables\<close>

definition present :: "u32 \<Rightarrow> bool" where "present e \<longleftrightarrow> e AND PTE_P \<noteq> 0"

text \<open>Entry \<open>i\<close> of the directory in page \<open>d\<close>, and entry \<open>j\<close> of the table it points to.\<close>

definition pde_at :: "kern \<Rightarrow> nat \<Rightarrow> u32 \<Rightarrow> u32" where
  "pde_at s d i = mem s (entry (page2pa d) i)"

definition pte_at :: "kern \<Rightarrow> nat \<Rightarrow> u32 \<Rightarrow> u32 \<Rightarrow> u32" where
  "pte_at s d i j = mem s (entry (PTE_ADDR (pde_at s d i)) j)"

definition tabs :: "kern \<Rightarrow> nat set \<Rightarrow> nat \<times> u32 \<rightharpoonup> nat" where
  "tabs s Ds = (\<lambda>(d, i). if d \<in> Ds \<and> unat i < unat (PDX UTOP) \<and> present (pde_at s d i)
     then Some (unat (PGNUM (pde_at s d i))) else None)"

definition mapped :: "kern \<Rightarrow> nat set \<Rightarrow> nat \<times> u32 \<times> u32 \<rightharpoonup> nat" where
  "mapped s Ds = (\<lambda>(d, i, j). if tabs s Ds (d, i) \<noteq> None \<and> unat j < 1024 \<and> present (pte_at s d i j)
     then Some (unat (PGNUM (pte_at s d i j))) else None)"

text \<open>
  \<open>clean\<close>: a page-table entry is zero or present. \<open>page_lookup\<close> depends on it, since its test
  \<open>!(*pte) & PTE_P\<close> only recognises zero entries as unmapped.
\<close>

definition clean :: "kern \<Rightarrow> nat set \<Rightarrow> bool" where
  "clean s Ds \<longleftrightarrow> (\<forall>d i j. tabs s Ds (d, i) \<noteq> None \<longrightarrow> unat j < 1024 \<longrightarrow>
     pte_at s d i j = 0 \<or> present (pte_at s d i j))"

definition pt_inv :: "kern \<Rightarrow> nat set \<Rightarrow> nat list \<Rightarrow> (nat \<Rightarrow> nat) \<Rightarrow> bool" where
  "pt_inv s Ds xs pend \<longleftrightarrow> free_inv s xs \<and>
     ref_inv Ds (tabs s Ds) (mapped s Ds) (ref_of s) (npages s) pend \<and> clean s Ds"

lemma UPDES: "unat (PDX UTOP) = 955"
  by (simp add: unat_PDX layout_defs)

lemma tabs_Some:
  "tabs s Ds (d, i) = Some t \<longleftrightarrow>
     d \<in> Ds \<and> unat i < 955 \<and> present (pde_at s d i) \<and> t = unat (PGNUM (pde_at s d i))"
  by (auto simp: tabs_def UPDES)

lemma tabs_None: "d \<in> Ds \<Longrightarrow> unat i < 955 \<Longrightarrow> tabs s Ds (d, i) = None \<longleftrightarrow> \<not> present (pde_at s d i)"
  by (auto simp: tabs_def UPDES)

lemma table_page: "tabs s Ds (d, i) = Some t \<Longrightarrow> PTE_ADDR (pde_at s d i) = page2pa t"
  by (auto simp: tabs_Some page2pa_PGNUM)

lemma pte_at_table: "tabs s Ds (d, i) = Some t \<Longrightarrow> pte_at s d i j = mem s (entry (page2pa t) j)"
  by (simp add: pte_at_def table_page)

lemma mapped_Some:
  "mapped s Ds (d, i, j) = Some p \<longleftrightarrow> (\<exists>t. tabs s Ds (d, i) = Some t) \<and> unat j < 1024 \<and>
     present (pte_at s d i j) \<and> p = unat (PGNUM (pte_at s d i j))"
  by (auto simp: mapped_def)

lemma pt_invD:
  assumes "pt_inv s Ds xs pend"
  shows "free_inv s xs" "ref_inv Ds (tabs s Ds) (mapped s Ds) (ref_of s) (npages s) pend" "clean s Ds"
    "npages s \<le> 1048576" "length (pages s) = npages s" "d \<in> Ds \<Longrightarrow> d < npages s"
    "tabs s Ds (d, i) = Some t \<Longrightarrow> t < npages s" "tabs s Ds (d, i) = Some t \<Longrightarrow> t \<notin> Ds"
  using assms by (auto simp: pt_inv_def free_inv_def ref_inv_def dest: ranI)

lemma tabs_inj:
  assumes "pt_inv s Ds xs pend" "tabs s Ds k = Some t" "tabs s Ds k' = Some t"
  shows "k = k'"
proof -
  have "inj_on (tabs s Ds) (dom (tabs s Ds))"
    using assms(1) by (simp add: pt_inv_def ref_inv_def)
  then show ?thesis
    using assms(2,3) by (metis inj_onD domI)
qed

text \<open>A page that is neither a directory nor a table can change without affecting the view.\<close>

lemma view_unchanged:
  assumes inv: "pt_inv s Ds xs pend"
    and same: "\<And>a. (\<exists>d \<in> Ds. PTE_ADDR a = page2pa d) \<or> (\<exists>t \<in> ran (tabs s Ds). PTE_ADDR a = page2pa t) \<Longrightarrow>
      mem s' a = mem s a"
  shows "tabs s' Ds = tabs s Ds" "mapped s' Ds = mapped s Ds" "clean s' Ds = clean s Ds"
    "\<And>d i. d \<in> Ds \<Longrightarrow> unat i < 955 \<Longrightarrow> pde_at s' d i = pde_at s d i"
    "\<And>d i j. tabs s Ds (d, i) \<noteq> None \<Longrightarrow> unat j < 1024 \<Longrightarrow> pte_at s' d i j = pte_at s d i j"
proof -
  show pde: "pde_at s' d i = pde_at s d i" if "d \<in> Ds" "unat i < 955" for d i
    unfolding pde_at_def by (rule same) (use that in auto)
  show tabs: "tabs s' Ds = tabs s Ds"
    by (auto simp: tabs_def UPDES fun_eq_iff pde)
  show pte: "pte_at s' d i j = pte_at s d i j" if ne: "tabs s Ds (d, i) \<noteq> None" and j: "unat j < 1024" for d i j
  proof -
    obtain t where t: "tabs s Ds (d, i) = Some t"
      using ne by auto
    have "mem s' (entry (page2pa t) j) = mem s (entry (page2pa t) j)"
      using j t by (intro same) (auto intro: ranI)
    then show ?thesis
      using t tabs by (simp add: pte_at_table [of s' Ds] pte_at_table [of s Ds])
  qed
  show "mapped s' Ds = mapped s Ds"
    by (auto simp: mapped_def tabs fun_eq_iff pte)
  show "clean s' Ds = clean s Ds"
    unfolding clean_def tabs using pte by metis
qed

text \<open>Storing a page-table entry.\<close>

lemma view_store_pte:
  assumes inv: "pt_inv s Ds xs pend" and t: "tabs s Ds (d, i) = Some t" and j: "unat j < 1024"
    and s': "mem s' = (mem s)(entry (page2pa t) j := v)"
  shows "tabs s' Ds = tabs s Ds"
    "\<And>d' i' j'. tabs s Ds (d', i') \<noteq> None \<Longrightarrow> unat j' < 1024 \<Longrightarrow>
       pte_at s' d' i' j' = (if (d', i', j') = (d, i, j) then v else pte_at s d' i' j')"
    "mapped s' Ds = (mapped s Ds)((d, i, j) := if present v then Some (unat (PGNUM v)) else None)"
    "v = 0 \<or> present v \<Longrightarrow> clean s' Ds"
proof -
  note D = pt_invD [OF inv]
  have pde: "pde_at s' d' i' = pde_at s d' i'" if "d' \<in> Ds" "unat i' < 955" for d' i'
  proof -
    have "page2pa t \<noteq> page2pa d'"
      using that D(4,6) D(7,8) [OF t] by (subst page2pa_inject) (fastforce simp: order_less_le_trans)+
    then show ?thesis
      using that j by (simp add: pde_at_def s' entry_inject)
  qed
  show tabs: "tabs s' Ds = tabs s Ds"
    by (auto simp: tabs_def UPDES fun_eq_iff pde)
  show pte: "pte_at s' d' i' j' = (if (d', i', j') = (d, i, j) then v else pte_at s d' i' j')"
    if ne: "tabs s Ds (d', i') \<noteq> None" and j': "unat j' < 1024" for d' i' j'
  proof -
    obtain t' where t': "tabs s Ds (d', i') = Some t'"
      using ne by auto
    have "page2pa t = page2pa t' \<longleftrightarrow> (d, i) = (d', i')"
      using D(4,7) t t' tabs_inj [OF inv t, of "(d', i')"]
      by (subst page2pa_inject) (fastforce simp: order_less_le_trans)+
    then have "entry (page2pa t') j' = entry (page2pa t) j \<longleftrightarrow> (d', i', j') = (d, i, j)"
      using j j' by (auto simp: entry_inject)
    then show ?thesis
      using t' tabs pte_at_table [of s' Ds d' i' t' j'] pte_at_table [of s Ds d' i' t' j'] by (simp add: s')
  qed
  show "mapped s' Ds = (mapped s Ds)((d, i, j) := if present v then Some (unat (PGNUM v)) else None)"
    using t j by (auto simp: mapped_def tabs fun_eq_iff pte)
  show "clean s' Ds" if "v = 0 \<or> present v"
    using that D(3) unfolding clean_def tabs by (auto simp: pte)
qed

text \<open>Storing a directory entry.\<close>

lemma view_store_pde:
  assumes inv: "pt_inv s Ds xs pend" and d: "d \<in> Ds" and i: "unat i < 955"
    and s': "mem s' = (mem s)(entry (page2pa d) i := v)"
  shows "\<And>d' i'. d' \<in> Ds \<Longrightarrow> unat i' < 955 \<Longrightarrow>
       pde_at s' d' i' = (if (d', i') = (d, i) then v else pde_at s d' i')"
    "tabs s' Ds = (tabs s Ds)((d, i) := if present v then Some (unat (PGNUM v)) else None)"
    "\<And>d' i' j. tabs s Ds (d', i') \<noteq> None \<Longrightarrow> unat j < 1024 \<Longrightarrow> (d', i') \<noteq> (d, i) \<Longrightarrow>
       pte_at s' d' i' j = pte_at s d' i' j"
proof -
  note D = pt_invD [OF inv]
  show pde: "pde_at s' d' i' = (if (d', i') = (d, i) then v else pde_at s d' i')"
    if "d' \<in> Ds" "unat i' < 955" for d' i'
  proof -
    have "page2pa d = page2pa d' \<longleftrightarrow> d = d'"
      using that d D(4) D(6) [of d] D(6) [of d'] by (intro page2pa_inject) auto
    then have "entry (page2pa d') i' = entry (page2pa d) i \<longleftrightarrow> (d', i') = (d, i)"
      using that i by (auto simp: entry_inject)
    then show ?thesis
      by (simp add: pde_at_def s')
  qed
  show tabs: "tabs s' Ds = (tabs s Ds)((d, i) := if present v then Some (unat (PGNUM v)) else None)"
    using d i by (auto simp: tabs_def UPDES fun_eq_iff pde)
  show "pte_at s' d' i' j = pte_at s d' i' j"
    if ne: "tabs s Ds (d', i') \<noteq> None" and j: "unat j < 1024" and k: "(d', i') \<noteq> (d, i)" for d' i' j
  proof -
    obtain t' where t': "tabs s Ds (d', i') = Some t'"
      using ne by auto
    then have t'2: "tabs s' Ds (d', i') = Some t'"
      using k by (auto simp: tabs)
    have "page2pa t' \<noteq> page2pa d"
      using d D(4) D(6) [of d] D(7,8) [OF t'] by (subst page2pa_inject) auto
    then have "entry (page2pa t') j \<noteq> entry (page2pa d) i"
      using j i by (auto simp: entry_inject)
    then show ?thesis
      by (simp add: pte_at_table [OF t'] pte_at_table [OF t'2] s')
  qed
qed

lemma view_same_table:
  assumes inv: "pt_inv s Ds xs pend" and t: "tabs s Ds (d, i) = Some t"
    and s': "mem s' = (mem s)(entry (page2pa d) i := v)"
    and v: "present v" "PTE_ADDR v = page2pa t"
  shows "tabs s' Ds = tabs s Ds" "mapped s' Ds = mapped s Ds" "clean s' Ds"
    "\<And>d' i' j. tabs s Ds (d', i') \<noteq> None \<Longrightarrow> unat j < 1024 \<Longrightarrow> pte_at s' d' i' j = pte_at s d' i' j"
proof -
  have d: "d \<in> Ds" "unat i < 955"
    using t by (auto simp: tabs_Some)
  note D = pt_invD [OF inv] and S = view_store_pde [OF inv d s']
  have tn: "t < 1048576" "t \<noteq> d"
    using D(4) D(7,8) [OF t] d by auto
  have "unat (PGNUM v) = t"
    using v(2) PGNUM_page2pa [OF tn(1)] by (metis PGNUM_PTE_ADDR)
  then show tabs: "tabs s' Ds = tabs s Ds"
    using t v by (auto simp: S(2) fun_eq_iff)
  have "page2pa t \<noteq> page2pa d"
    using tn D(4) D(6) [OF d(1)] by (subst page2pa_inject) auto
  then show pte: "pte_at s' d' i' j = pte_at s d' i' j"
    if "tabs s Ds (d', i') \<noteq> None" "unat j < 1024" for d' i' j
    using S(3) that t tabs d pte_at_table [of s' Ds d i t j] pte_at_table [OF t, of j]
    by (cases "(d', i') = (d, i)") (auto simp: s' entry_inject)
  show "mapped s' Ds = mapped s Ds"
    by (auto simp: mapped_def tabs fun_eq_iff pte)
  show "clean s' Ds"
    using D(3) pte unfolding clean_def tabs by metis
qed

lemma view_new_table:
  assumes inv: "pt_inv s Ds xs pend" and d: "d \<in> Ds" "unat i < 955" "tabs s Ds (d, i) = None"
    and x: "x < npages s" "ref_of s x = 0" and z: "\<forall>a. PTE_ADDR a = page2pa x \<longrightarrow> mem s a = 0"
    and s': "mem s' = (mem s)(entry (page2pa d) i := v)"
    and v: "present v" "PTE_ADDR v = page2pa x"
  shows "tabs s' Ds = (tabs s Ds)((d, i) \<mapsto> x)" "mapped s' Ds = mapped s Ds" "clean s' Ds"
    "\<And>d' i' j. tabs s Ds (d', i') \<noteq> None \<Longrightarrow> unat j < 1024 \<Longrightarrow> pte_at s' d' i' j = pte_at s d' i' j"
    "\<And>j. unat j < 1024 \<Longrightarrow> pte_at s' d i j = 0"
proof -
  note D = pt_invD [OF inv] and S = view_store_pde [OF inv d(1,2) s']
  have xn: "x < 1048576" "x \<noteq> d"
    using D(4) x d ref_inv_unreferenced(1) [OF D(2) x(2,1)] by auto
  have "unat (PGNUM v) = x"
    using v(2) PGNUM_page2pa [OF xn(1)] by (metis PGNUM_PTE_ADDR)
  then show tabs: "tabs s' Ds = (tabs s Ds)((d, i) \<mapsto> x)"
    using v by (simp add: S(2))
  have "page2pa x \<noteq> page2pa d"
    using xn D(4) D(6) [OF d(1)] by (subst page2pa_inject) auto
  then show new: "pte_at s' d i j = 0" if "unat j < 1024" for j
    using that d(2) z pte_at_table [of s' Ds d i x j] tabs by (simp add: s' entry_inject)
  show pte: "pte_at s' d' i' j = pte_at s d' i' j"
    if "tabs s Ds (d', i') \<noteq> None" "unat j < 1024" for d' i' j
    using S(3) that d(3) by force
  show "mapped s' Ds = mapped s Ds"
    using d(3) by (auto simp: mapped_def tabs fun_eq_iff pte new present_def)
  show "clean s' Ds"
    using D(3) pte new unfolding clean_def tabs by auto
qed

subsection \<open>The operations\<close>

text \<open>The entry the MMU finds for \<open>va\<close> in the directory in page \<open>d\<close>, and the pages not touched.\<close>

definition va_pte :: "kern \<Rightarrow> nat \<Rightarrow> u32 \<Rightarrow> u32" where
  "va_pte s d va = (if present (pde_at s d (PDX va)) then pte_at s d (PDX va) (PTX va) else 0)"

definition kframe :: "kern \<Rightarrow> kern \<Rightarrow> bool" where
  "kframe s s' \<longleftrightarrow> npages s' = npages s \<and> envs s' = envs s \<and> env_free_list s' = env_free_list s \<and>
     curenv s' = curenv s \<and> kern_pgdir s' = kern_pgdir s \<and> cr3 s' = cr3 s"

lemma kframe_refl [simp]: "kframe s s" and kframe_trans: "kframe s t \<Longrightarrow> kframe t u \<Longrightarrow> kframe s u"
  by (auto simp: kframe_def)

text \<open>Memory outside the pages \<open>A\<close> is unchanged; unreferenced pages that are not on the free list.\<close>

definition mem_frame :: "nat set \<Rightarrow> kern \<Rightarrow> kern \<Rightarrow> bool" where
  "mem_frame A s s' \<longleftrightarrow> (\<forall>a. unat (PGNUM a) \<notin> A \<longrightarrow> mem s' a = mem s a)"

definition leaks :: "kern \<Rightarrow> nat list \<Rightarrow> nat set" where
  "leaks s xs = {q. q < npages s \<and> ref_of s q = 0 \<and> q \<notin> set xs}"

lemma mem_frame_refl [simp]: "mem_frame A s s"
  by (simp add: mem_frame_def)

lemma mem_frame_mono: "mem_frame A s s' \<Longrightarrow> A \<subseteq> B \<Longrightarrow> mem_frame B s s'"
  by (auto simp: mem_frame_def)

lemma mem_frame_trans: "mem_frame A s t \<Longrightarrow> mem_frame B t u \<Longrightarrow> A \<union> B \<subseteq> C \<Longrightarrow> mem_frame C s u"
  unfolding mem_frame_def by (metis UnI1 UnI2 subsetD)

lemma PGNUM_entry: "p < 1048576 \<Longrightarrow> unat i < 1024 \<Longrightarrow> unat (PGNUM (entry (page2pa p) i)) = p"
  by (metis PGNUM_PTE_ADDR PTE_ADDR_entry PGNUM_page2pa PGOFF_page2pa)

lemma mem_frame_entry:
  assumes "mem s' = (mem s)(entry (page2pa p) i := v)" "unat i < 1024" "p < 1048576" "p \<in> A"
  shows "mem_frame A s s'"
  using assms PGNUM_entry [of p i] by (auto simp: mem_frame_def)

abbreviation pt_pages :: "kern \<Rightarrow> nat set \<Rightarrow> nat list \<Rightarrow> nat set" where
  "pt_pages s Ds xs \<equiv> Ds \<union> ran (tabs s Ds) \<union> set xs"

abbreviation dir_kva :: "nat \<Rightarrow> u32" where "dir_kva d \<equiv> page2pa d + KERNBASE"

definition user_va :: "u32 \<Rightarrow> bool" where "user_va va \<longleftrightarrow> va < UTOP"

lemma user_va_PDX: "user_va va \<longleftrightarrow> unat (PDX va) < 955"
proof -
  have "unat UTOP = 955 * 4194304"
    by (simp add: layout_defs)
  then have "va < UTOP \<longleftrightarrow> unat va < 955 * 4194304"
    by (simp add: word_less_nat_alt)
  then show ?thesis
    by (simp add: user_va_def unat_PDX div_less_iff_less_mult)
qed

lemma entry_dir_kva: "entry (a + KERNBASE) i = entry a i + KERNBASE"
  by (simp add: entry_def)

lemma kload_pde: "kload s (entry (dir_kva d) i) = pde_at s d i"
  by (simp add: entry_dir_kva pde_at_def)

lemma kload_pte: "tabs s Ds (d, i) = Some t \<Longrightarrow> kload s (entry (page2pa t) j + KERNBASE) = pte_at s d i j"
  by (simp add: pte_at_table)

lemma kstore_mem: "mem (kstore s (a + KERNBASE) v) = (mem s)(a := v)"
  by (simp add: kstore_def)

lemma va_pte_cong:
  assumes "tabs s' Ds (d, PDX va) = tabs s Ds (d, PDX va)" "d \<in> Ds" "user_va va"
    and "tabs s Ds (d, PDX va) \<noteq> None \<Longrightarrow> pte_at s' d (PDX va) (PTX va) = pte_at s d (PDX va) (PTX va)"
  shows "va_pte s' d va = va_pte s d va"
  using assms by (auto simp: va_pte_def user_va_PDX tabs_def UPDES split: if_splits)

lemma va_pte_table: "tabs s Ds (d, PDX va) = Some t \<Longrightarrow> va_pte s d va = pte_at s d (PDX va) (PTX va)"
  by (auto simp: va_pte_def tabs_Some)

lemma pgdir_walk_present:
  assumes "pt_inv s Ds xs pend" "tabs s Ds (d, PDX va) = Some t"
  shows "pgdir_walk s (dir_kva d) va c = Some (Some (entry (page2pa t) (PTX va) + KERNBASE), s)"
proof -
  note D = pt_invD [OF assms(1)]
  have "t < npages s" "npages s \<le> 1048576"
    using D(4) D(7) [OF assms(2)] by auto
  then have "KADDR s (PTE_ADDR (pde_at s d (PDX va))) = Some (page2pa t + KERNBASE)"
    by (simp add: table_page [OF assms(2)] KADDR_page2pa)
  moreover have "pde_at s d (PDX va) AND PTE_P \<noteq> 0"
    using assms(2) by (simp add: tabs_Some present_def)
  ultimately show ?thesis
    by (simp add: pgdir_walk_def kload_pde Let_def) (simp add: entry_dir_kva)
qed

lemma pgdir_walk_absent:
  assumes "d \<in> Ds" "user_va va" "tabs s Ds (d, PDX va) = None"
  shows "pgdir_walk s (dir_kva d) va False = Some (None, s)"
  using assms by (simp add: pgdir_walk_def kload_pde tabs_None user_va_PDX present_def)

lemma pt_inv_alloc:
  assumes inv: "pt_inv s Ds (x # xs) pend" and s': "page_alloc s fl = Some (r, s')"
  shows "r = Some x" "pt_inv s' Ds xs pend" "ref_of s' = ref_of s" "x < npages s" "ref_of s x = 0" "x \<notin> set xs"
    "tabs s' Ds = tabs s Ds" "mapped s' Ds = mapped s Ds" "kframe s s'" "link_of s' x = None"
    "\<And>d va. d \<in> Ds \<Longrightarrow> user_va va \<Longrightarrow> va_pte s' d va = va_pte s d va"
    "fl AND ALLOC_ZERO \<noteq> 0 \<Longrightarrow> PTE_ADDR a = page2pa x \<Longrightarrow> mem s' a = 0"
proof -
  note D = pt_invD [OF inv] and A = page_alloc_inv [OF D(1) s']
  show x: "r = Some x" "ref_of s' = ref_of s" "x < npages s" "ref_of s x = 0" "x \<notin> set xs"
    using A D(1) by (auto simp: free_inv_def)
  have fresh: "x \<notin> Ds" "x \<notin> ran (tabs s Ds)"
    using ref_inv_unreferenced [OF D(2) x(4,3)] by auto
  have e: "s' = (let s2 = upd_page (s\<lparr>page_free_list := link_of s x\<rparr>) x (\<lambda>p. p\<lparr>pp_link := None\<rparr>)
     in if fl AND ALLOC_ZERO \<noteq> 0 then zero_page s2 (page2pa x + KERNBASE) else s2)"
    using s' by (simp add: page_alloc_Cons [OF D(1)])
  have m: "mem s' a = (if fl AND ALLOC_ZERO \<noteq> 0 \<and> PTE_ADDR a = page2pa x then 0 else mem s a)" for a
    by (simp add: e Let_def zero_page_def)
  then show "fl AND ALLOC_ZERO \<noteq> 0 \<Longrightarrow> PTE_ADDR a = page2pa x \<Longrightarrow> mem s' a = 0"
    by simp
  show "kframe s s'"
    by (simp add: kframe_def e Let_def)
  show "link_of s' x = None"
    using A(3) by (simp add: releasable_def)
  have "mem s' a = mem s a"
    if "(\<exists>d \<in> Ds. PTE_ADDR a = page2pa d) \<or> (\<exists>t \<in> ran (tabs s Ds). PTE_ADDR a = page2pa t)" for a
  proof -
    have "PTE_ADDR a \<noteq> page2pa x"
    proof
      assume "PTE_ADDR a = page2pa x"
      with that obtain y where y: "y \<in> Ds \<or> y \<in> ran (tabs s Ds)" "page2pa y = page2pa x" by metis
      then have "y < npages s"
        using D(2) by (auto simp: ref_inv_def)
      with y x(3) D(4) have "y = x" by (subst (asm) page2pa_inject) auto
      with y fresh show False by auto
    qed
    then show ?thesis by (simp add: m)
  qed
  note V = view_unchanged [OF inv this]
  show "tabs s' Ds = tabs s Ds"
    by (rule V(1))
  show "mapped s' Ds = mapped s Ds"
    by (rule V(2))
  show "pt_inv s' Ds xs pend"
    using D(2,3) A(2,5,6) V(1-3) by (simp add: pt_inv_def)
  show "va_pte s' d va = va_pte s d va" if "d \<in> Ds" "user_va va" for d va
    using that V(1) V(5) PTX_less by (intro va_pte_cong) auto
qed

lemma present_bit: "present e \<longleftrightarrow> bit e 0"
  by (simp add: present_def PTE_P_def and_one_eq odd_iff_mod_2_eq_one bit_0)

lemma present_or: "present (a OR b) \<longleftrightarrow> present a \<or> present b"
  by (simp add: present_bit bit_or_iff)

lemma present_PTE_P [simp]: "present PTE_P" and present_0 [simp]: "\<not> present 0"
  by (simp_all add: present_def PTE_P_def)

lemma pgdir_walk_out_of_memory:
  assumes "pt_inv s Ds [] pend" "d \<in> Ds" "user_va va" "tabs s Ds (d, PDX va) = None"
  shows "pgdir_walk s (dir_kva d) va True = Some (None, s)"
  using assms page_alloc_Nil [OF pt_invD(1) [OF assms(1)]]
  by (simp add: pgdir_walk_def kload_pde tabs_None user_va_PDX present_def)

lemma pgdir_walk_new_table:
  assumes inv: "pt_inv s Ds (x # xs) pend" and d: "d \<in> Ds" "user_va va" "tabs s Ds (d, PDX va) = None"
  obtains s' where
    "pgdir_walk s (dir_kva d) va True = Some (Some (entry (page2pa x) (PTX va) + KERNBASE), s')"
    "pt_inv s' Ds xs pend" "tabs s' Ds = (tabs s Ds)((d, PDX va) \<mapsto> x)" "mapped s' Ds = mapped s Ds"
    "kframe s s'" "ref_of s' = (ref_of s)(x := 1)" "pte_at s' d (PDX va) (PTX va) = 0"
    "\<And>d' va'. d' \<in> Ds \<Longrightarrow> user_va va' \<Longrightarrow> va_pte s' d' va' = va_pte s d' va'"
    "mem_frame {d, x} s s'"
proof -
  have i: "unat (PDX va) < 955"
    using d by (simp add: user_va_PDX)
  obtain r s1 where s1: "page_alloc s 1 = Some (r, s1)"
    using page_alloc_Cons [OF pt_invD(1) [OF inv]] by blast
  have z: "(1 :: u32) AND ALLOC_ZERO \<noteq> 0"
    by (simp add: ALLOC_ZERO_def)
  note A = pt_inv_alloc [OF inv s1] and D1 = pt_invD [OF pt_inv_alloc(2) [OF inv s1]]
  define v where "v = page2pa x OR PTE_P OR PTE_U OR PTE_W"
  define s2 where "s2 = upd_page s1 x (\<lambda>p. p\<lparr>pp_ref := pp_ref p + 1\<rparr>)"
  define s' where "s' = kstore s2 (entry (dir_kva d) (PDX va)) v"
  have v: "present v" "PTE_ADDR v = page2pa x"
    by (simp_all add: v_def present_or PTE_ADDR_or)
  have xl: "x < length (pages s1)" "x < npages s1" "ref_of s1 x = 0"
    using A(3,4,5,9) D1(5) by (auto simp: kframe_def)
  have ref: "ref_of s' = (ref_of s)(x := 1)"
    using xl A(3) by (simp add: s'_def s2_def)
  have m: "mem s' = (mem s1)(entry (page2pa d) (PDX va) := v)"
    by (simp add: s'_def s2_def entry_dir_kva kstore_mem)
  have tn: "tabs s1 Ds (d, PDX va) = None"
    using d A(7) by simp
  have zz: "\<forall>a. PTE_ADDR a = page2pa x \<longrightarrow> mem s1 a = 0"
    using A(12) [OF z] by blast
  note V = view_new_table [OF A(2) d(1) i tn xl(2,3) zz m v]
  have "KADDR s' (PTE_ADDR v) = Some (dir_kva x)"
    using xl D1(4) by (simp add: v KADDR_page2pa s'_def s2_def)
  moreover have p0: "kload s (entry (dir_kva d) (PDX va)) AND PTE_P = 0"
    using d i by (simp add: kload_pde tabs_None present_def)
  moreover have pv: "kload s' (entry (dir_kva d) (PDX va)) = v"
    by (simp add: s'_def kload_kstore)
  ultimately have walk: "pgdir_walk s (dir_kva d) va True = Some (Some (entry (page2pa x) (PTX va) + KERNBASE), s')"
    using s1 A(1) p0 pv unfolding pgdir_walk_def Let_def
    by (simp flip: s2_def v_def s'_def) (simp add: entry_dir_kva)
  have "free_inv s' xs"
    using D1(1) ref A(3,5,6) by (auto simp: free_inv_def s'_def s2_def)
  moreover have "npages s' = npages s" "npages s1 = npages s"
    using A(9) by (simp_all add: s'_def s2_def kframe_def)
  ultimately have inv': "pt_inv s' Ds xs pend"
    using V(1-3) ref ref_inv_new_table [OF D1(2) xl(3,2) tn] A(3) by (simp add: pt_inv_def)
  have view: "va_pte s' d' va' = va_pte s d' va'" if "d' \<in> Ds" "user_va va'" for d' va'
  proof -
    have "va_pte s' d' va' = va_pte s1 d' va'"
    proof (cases "(d', PDX va') = (d, PDX va)")
      case True
      then show ?thesis
        using V(5) [OF PTX_less] d i by (simp add: va_pte_def tn [unfolded tabs_None [OF d(1) i]])
    next
      case False
      then show ?thesis
        using that V(1,4) PTX_less by (intro va_pte_cong) auto
    qed
    with A(11) that show ?thesis by simp
  qed
  have fr: "kframe s s'"
    using A(9) by (simp add: kframe_def s'_def s2_def)
  have "mem_frame {x} s s1"
    unfolding mem_frame_def using page_alloc_mem [OF pt_invD(1) [OF inv] s1] by simp
  moreover have "mem_frame {d} s1 s'"
    using i D1(4) D1(6) [of d] d(1) by (intro mem_frame_entry [OF m]) simp_all
  ultimately have mf: "mem_frame {d, x} s s'"
    by (rule mem_frame_trans) simp
  show thesis
    using that [OF walk inv' _ _ fr ref V(5) [OF PTX_less] view mf] V(1,2) A(7,8) by simp
qed

text \<open>Under the invariant, lookup finds exactly the mapped page.\<close>

lemma page_lookup_mapped:
  assumes inv: "pt_inv s Ds xs pend" and d: "d \<in> Ds" "user_va va"
  shows "page_lookup s (dir_kva d) va =
     (case mapped s Ds (d, PDX va, PTX va) of
        None \<Rightarrow> Some None
      | Some p \<Rightarrow> Some (Some (p, entry (PTE_ADDR (pde_at s d (PDX va))) (PTX va) + KERNBASE)))"
proof (cases "tabs s Ds (d, PDX va)")
  case None
  then show ?thesis
    using d by (simp add: page_lookup_def pgdir_walk_absent [OF d None] mapped_def)
next
  case (Some t)
  note D = pt_invD [OF inv]
  have cl: "pte_at s d (PDX va) (PTX va) = 0 \<or> present (pte_at s d (PDX va) (PTX va))"
    using D(3) Some PTX_less by (auto simp: clean_def)
  show ?thesis
  proof (cases "present (pte_at s d (PDX va) (PTX va))")
    case True
    then have m: "mapped s Ds (d, PDX va, PTX va) = Some (unat (PGNUM (pte_at s d (PDX va) (PTX va))))"
      using Some PTX_less by (simp add: mapped_def)
    then have "unat (PGNUM (pte_at s d (PDX va) (PTX va))) < npages s"
      using D(2) by (auto simp: ref_inv_def dest: ranI)
    moreover have "pte_at s d (PDX va) (PTX va) \<noteq> 0"
      using True by auto
    ultimately show ?thesis
      by (simp add: page_lookup_def pgdir_walk_present [OF inv Some] kload_pte [OF Some] pa2page_def m
          c_not_def table_page [OF Some] del: kload_KADDR)
  next
    case False
    with cl have "pte_at s d (PDX va) (PTX va) = 0" by simp
    with False show ?thesis
      using Some by (simp add: page_lookup_def pgdir_walk_present [OF inv Some] kload_pte [OF Some] mapped_def
          c_not_def PTE_P_def del: kload_KADDR)
  qed
qed

text \<open>Dropping one page-table reference: decrement, free at zero.\<close>

lemma page_decref_free_inv:
  assumes fi: "free_inv s xs" and p: "p < npages s" "ref_of s p \<noteq> 0"
  obtains s' xs' where "page_decref s p = Some s'" "free_inv s' xs'" "mem s' = mem s" "kframe s s'"
    "ref_of s' = (ref_of s)(p := ref_of s p - 1)"
    "xs' = (if ref_of s p = 1 then p # xs else xs)"
proof -
  define s1 where "s1 = upd_page s p (\<lambda>q. q\<lparr>pp_ref := pp_ref q - 1\<rparr>)"
  have pl: "p < length (pages s)" and pn: "p \<notin> set xs" "link_of s p = None"
    using fi p by (auto simp: free_inv_def)
  have r1: "ref_of s1 = (ref_of s)(p := ref_of s p - 1)"
    using pl by (simp add: s1_def)
  have f1: "free_inv s1 xs"
    using fi pn r1 by (auto simp: free_inv_def s1_def)
  show thesis
  proof (cases "ref_of s p = 1")
    case True
    have "releasable s1 p"
      using p pn r1 True by (simp add: releasable_def s1_def)
    then obtain s' where s': "page_free s1 p = Some s'" "free_inv s' (p # xs)" "ref_of s' = ref_of s1"
      "mem s' = mem s1"
      using page_free_inv [OF f1 _ pn(1)] by metis
    have "kframe s1 s'"
      using s'(1) by (auto simp: page_free_def kframe_def split: if_splits)
    then have "kframe s s'"
      by (simp add: kframe_def s1_def)
    moreover have "page_decref s p = Some s'"
      using s'(1) r1 True by (simp add: page_decref_def s1_def [symmetric])
    ultimately show thesis
      using that [of s' "p # xs"] s' r1 True by (simp add: s1_def)
  next
    case False
    have "page_decref s p = Some s1"
      using False r1 by (simp add: page_decref_def s1_def [symmetric])
    moreover have "kframe s s1" "mem s1 = mem s"
      by (simp_all add: kframe_def s1_def)
    ultimately show thesis
      using that [of s1 xs] f1 r1 False by simp
  qed
qed

lemma tlb_invalidate_simps [simp]:
  "mem (tlb_invalidate s g va) = mem s" "pages (tlb_invalidate s g va) = pages s"
  "npages (tlb_invalidate s g va) = npages s" "page_free_list (tlb_invalidate s g va) = page_free_list s"
  "ref_of (tlb_invalidate s g va) = ref_of s" "link_of (tlb_invalidate s g va) = link_of s"
  "kframe s' (tlb_invalidate s g va) = kframe s' s"
  by (auto simp: tlb_invalidate_def ref_of_def link_of_def kframe_def split: option.splits)

lemma page_fields_cong: "pages s' = pages s \<Longrightarrow> ref_of s' = ref_of s"
  "pages s' = pages s \<Longrightarrow> link_of s' = link_of s"
  by (auto simp: ref_of_def link_of_def)

lemma free_inv_cong:
  assumes "pages s' = pages s" "npages s' = npages s" "page_free_list s' = page_free_list s"
  shows "free_inv s' xs = free_inv s xs"
  using assms page_fields_cong [OF assms(1)] by (simp add: free_inv_def)

text \<open>Whether the directory is the one in use, so that a changed entry needs \<open>invlpg\<close>.\<close>

definition loaded :: "kern \<Rightarrow> u32 \<Rightarrow> bool" where
  "loaded s pgdir \<longleftrightarrow> (case curenv s of None \<Rightarrow> True | Some e \<Rightarrow> env_pgdir (envs s ! e) = pgdir)"

lemma page_remove_unmapped:
  assumes "pt_inv s Ds xs pend" "d \<in> Ds" "user_va va" "mapped s Ds (d, PDX va, PTX va) = None"
  shows "page_remove s (dir_kva d) va = Some s"
  by (simp add: page_remove_def page_lookup_mapped [OF assms(1-3)] assms(4))

lemma page_remove_mapped:
  assumes inv: "pt_inv s Ds xs pend" and d: "d \<in> Ds" "user_va va"
    and m: "mapped s Ds (d, PDX va, PTX va) = Some p"
  obtains s' where "page_remove s (dir_kva d) va = Some s'"
    "pt_inv s' Ds (if ref_of s p = 1 then p # xs else xs) pend"
    "tabs s' Ds = tabs s Ds" "mapped s' Ds = (mapped s Ds)((d, PDX va, PTX va) := None)"
    "ref_of s' = (ref_of s)(p := ref_of s p - 1)" "kframe s s'"
    "\<And>d' i' j'. tabs s Ds (d', i') \<noteq> None \<Longrightarrow> unat j' < 1024 \<Longrightarrow>
       pte_at s' d' i' j' = (if (d', i', j') = (d, PDX va, PTX va) then 0 else pte_at s d' i' j')"
    "invlpgs s' = (if loaded s (dir_kva d) then va # invlpgs s else invlpgs s)"
    "mem_frame (ran (tabs s Ds)) s s'" "leaks s' (if ref_of s p = 1 then p # xs else xs) = leaks s xs"
proof -
  note D = pt_invD [OF inv] and U = ref_inv_uninstall [OF pt_invD(2) [OF inv] m]
  obtain t where t: "tabs s Ds (d, PDX va) = Some t"
    using m by (auto simp: mapped_Some)
  obtain s1 xs' where s1: "page_decref s p = Some s1" "free_inv s1 xs'" "mem s1 = mem s" "kframe s s1"
    "ref_of s1 = (ref_of s)(p := ref_of s p - 1)" "xs' = (if ref_of s p = 1 then p # xs else xs)"
    using page_decref_free_inv [OF D(1) U(2,5)] by blast
  define s' where "s' = tlb_invalidate (kstore s1 (entry (page2pa t) (PTX va) + KERNBASE) 0) (dir_kva d) va"
  have rem: "page_remove s (dir_kva d) va = Some s'"
    by (simp add: page_remove_def page_lookup_mapped [OF inv d] m s1(1) table_page [OF t] s'_def)
  have mm: "mem s' = (mem s)(entry (page2pa t) (PTX va) := 0)"
    by (simp add: s'_def kstore_mem s1(3))
  note V = view_store_pte [OF inv t PTX_less mm]
  have np: "npages s' = npages s" "kframe s s'" "ref_of s' = (ref_of s)(p := ref_of s p - 1)"
    using s1(4,5) by (simp_all add: s'_def) (simp_all add: kframe_def)
  have "free_inv s' xs'"
    using s1(2) by (subst free_inv_cong [of s' s1]) (simp_all add: s'_def)
  then have "pt_inv s' Ds xs' pend"
    using U(1) V np by (simp add: pt_inv_def)
  moreover have "invlpgs s' = (if loaded s (dir_kva d) then va # invlpgs s else invlpgs s)"
  proof -
    have "invlpgs s1 = invlpgs s"
      using s1(1) by (auto simp: page_decref_def page_free_def Let_def split: if_splits)
    then show ?thesis
      using s1(4) by (auto simp: s'_def tlb_invalidate_def loaded_def kframe_def split: option.splits)
  qed
  moreover have "mem_frame (ran (tabs s Ds)) s s'"
    using mem_frame_entry [OF mm PTX_less, of "ran (tabs s Ds)"] ranI [of "tabs s Ds"] t D(4) D(7) [OF t] by fastforce
  moreover have "leaks s' xs' = leaks s xs"
    using U(5) s1(6) np by (auto simp: leaks_def)
  ultimately show thesis
    using that [OF rem _ V(1) _ np(3,2) V(2)] V(3) s1(6) by simp
qed

lemma pt_inv_take:
  assumes inv: "pt_inv s Ds xs pend" and p: "p < npages s" "p \<notin> Ds" "p \<notin> ran (tabs s Ds)" "p \<notin> set xs"
    and ov: "unat (ref_of s p) + 1 < 65536"
    and s': "s' = upd_page s p (\<lambda>q. q\<lparr>pp_ref := pp_ref q + 1\<rparr>)"
  shows "pt_inv s' Ds xs (pend(p := pend p + 1))" "tabs s' Ds = tabs s Ds" "mapped s' Ds = mapped s Ds"
    "pde_at s' = pde_at s" "pte_at s' = pte_at s" "ref_of s' = (ref_of s)(p := ref_of s p + 1)" "kframe s s'"
proof -
  note D = pt_invD [OF inv]
  have pl: "p < length (pages s)"
    using D p by simp
  have m: "mem s' = mem s" by (simp add: s')
  show pde: "pde_at s' = pde_at s"
    by (auto simp: pde_at_def m fun_eq_iff)
  show pte: "pte_at s' = pte_at s"
    by (auto simp: pte_at_def m pde fun_eq_iff)
  show tabs: "tabs s' Ds = tabs s Ds"
    unfolding tabs_def pde ..
  show mapped: "mapped s' Ds = mapped s Ds"
    unfolding mapped_def pte tabs ..
  show ref: "ref_of s' = (ref_of s)(p := ref_of s p + 1)"
    using pl by (simp add: s')
  show "kframe s s'"
    by (simp add: kframe_def s')
  have "free_inv s' xs"
    using D(1) p ref by (auto simp: free_inv_def s')
  moreover have "clean s' Ds"
    using D(3) by (simp add: clean_def tabs pte)
  moreover have "npages s' = npages s" by (simp add: s')
  ultimately show "pt_inv s' Ds xs (pend(p := pend p + 1))"
    using ref_inv_take [OF D(2) p(1-3) ov] by (simp add: pt_inv_def tabs mapped ref)
qed

lemma pt_inv_install:
  assumes inv: "pt_inv s Ds xs pend" and t: "tabs s Ds (d, i) = Some t" and j: "unat j < 1024"
    and m: "mapped s Ds (d, i, j) = None" and p: "p < npages s" "p \<notin> Ds" "p \<notin> ran (tabs s Ds)" "0 < pend p"
    and perm: "PTE_ADDR perm = 0"
    and s': "s' = kstore s (entry (page2pa t) j + KERNBASE) (page2pa p OR perm OR PTE_P)"
  shows "pt_inv s' Ds xs (pend(p := pend p - 1))" "tabs s' Ds = tabs s Ds"
    "mapped s' Ds = (mapped s Ds)((d, i, j) \<mapsto> p)" "kframe s s'" "ref_of s' = ref_of s"
    "\<And>d' i' j'. tabs s Ds (d', i') \<noteq> None \<Longrightarrow> unat j' < 1024 \<Longrightarrow> pte_at s' d' i' j' =
       (if (d', i', j') = (d, i, j) then page2pa p OR perm OR PTE_P else pte_at s d' i' j')"
proof -
  note D = pt_invD [OF inv]
  have v: "present (page2pa p OR perm OR PTE_P)" "PTE_ADDR (page2pa p OR perm OR PTE_P) = page2pa p"
    using perm by (simp_all add: present_or PTE_ADDR_or)
  have pg: "unat (PGNUM (page2pa p OR perm OR PTE_P)) = p"
    using v(2) p D(4) PGNUM_page2pa [of p] by (metis PGNUM_PTE_ADDR order_less_le_trans)
  have mm: "mem s' = (mem s)(entry (page2pa t) j := page2pa p OR perm OR PTE_P)"
    by (simp add: s' kstore_mem)
  note V = view_store_pte [OF inv t j mm]
  show "tabs s' Ds = tabs s Ds" by (rule V(1))
  show M: "mapped s' Ds = (mapped s Ds)((d, i, j) \<mapsto> p)"
    using V(3) v(1) pg by simp
  show "kframe s s'" "ref_of s' = ref_of s" by (simp_all add: kframe_def s')
  have "free_inv s' xs"
    using D(1) by (subst free_inv_cong [of s' s]) (simp_all add: s')
  then show "pt_inv s' Ds xs (pend(p := pend p - 1))"
    using ref_inv_install [OF D(2) p m] V(1) V(4) v(1) M by (simp add: pt_inv_def) (simp add: s')
  show "pte_at s' d' i' j' = (if (d', i', j') = (d, i, j) then page2pa p OR perm OR PTE_P else pte_at s d' i' j')"
    if "tabs s Ds (d', i') \<noteq> None" "unat j' < 1024" for d' i' j'
    using that by (rule V(2))
qed

lemma pt_inv_pde_flags:
  assumes inv: "pt_inv s Ds xs pend" and t: "tabs s Ds (d, i) = Some t" and perm: "PTE_ADDR perm = 0"
    and s': "s' = kstore s (entry (dir_kva d) i) (kload s (entry (dir_kva d) i) OR perm)"
  shows "pt_inv s' Ds xs pend" "tabs s' Ds = tabs s Ds" "mapped s' Ds = mapped s Ds" "kframe s s'"
    "ref_of s' = ref_of s"
    "\<And>d' i' j'. tabs s Ds (d', i') \<noteq> None \<Longrightarrow> unat j' < 1024 \<Longrightarrow> pte_at s' d' i' j' = pte_at s d' i' j'"
proof -
  note D = pt_invD [OF inv]
  have v: "present (pde_at s d i OR perm)" "PTE_ADDR (pde_at s d i OR perm) = page2pa t"
    using t perm by (simp_all add: present_or PTE_ADDR_or table_page) (simp add: tabs_Some)
  have mm: "mem s' = (mem s)(entry (page2pa d) i := pde_at s d i OR perm)"
    by (simp add: s' kload_pde) (simp add: entry_dir_kva kstore_mem)
  note V = view_same_table [OF inv t mm v]
  show "tabs s' Ds = tabs s Ds" by (rule V(1))
  show "mapped s' Ds = mapped s Ds" by (rule V(2))
  show fr: "kframe s s'" "ref_of s' = ref_of s" by (simp_all add: kframe_def s')
  have "free_inv s' xs"
    using D(1) by (subst free_inv_cong [of s' s]) (simp_all add: s')
  then show "pt_inv s' Ds xs pend"
    using V(1-3) D(2) fr by (simp add: pt_inv_def kframe_def)
  show "pte_at s' d' i' j' = pte_at s d' i' j'"
    if "tabs s Ds (d', i') \<noteq> None" "unat j' < 1024" for d' i' j'
    using that by (rule V(4))
qed

lemma va_pte_updated:
  assumes "tabs s' Ds = tabs s Ds" "tabs s Ds (d, PDX va) \<noteq> None" "d \<in> Ds" "user_va va"
    and "\<And>d' i' j'. tabs s Ds (d', i') \<noteq> None \<Longrightarrow> unat j' < 1024 \<Longrightarrow>
       pte_at s' d' i' j' = (if (d', i', j') = (d, PDX va, PTX va) then v else pte_at s d' i' j')"
  shows "va_pte s' d va = v"
    "\<And>d' va'. d' \<in> Ds \<Longrightarrow> user_va va' \<Longrightarrow> (d', PTE_ADDR va') \<noteq> (d, PTE_ADDR va) \<Longrightarrow>
       va_pte s' d' va' = va_pte s d' va'"
proof -
  show "va_pte s' d va = v"
    using assms(1,2) assms(5) [of d "PDX va" "PTX va"] PTX_less by (auto simp: va_pte_table [of s' Ds])
  show "va_pte s' d' va' = va_pte s d' va'"
    if "d' \<in> Ds" "user_va va'" "(d', PTE_ADDR va') \<noteq> (d, PTE_ADDR va)" for d' va'
    using that assms(1) assms(5) [of d' "PDX va'" "PTX va'"] PTX_less
    by (intro va_pte_cong) (auto simp: same_page_iff)
qed

text \<open>The part of \<open>page_insert\<close> after a successful walk.\<close>

definition insert_body :: "kern \<Rightarrow> u32 \<Rightarrow> nat \<Rightarrow> u32 \<Rightarrow> u32 \<Rightarrow> u32 \<Rightarrow> (int \<times> kern) option" where
  "insert_body s pgdir pp va perm pte = do {
     let s = upd_page s pp (\<lambda>p. p\<lparr>pp_ref := pp_ref p + 1\<rparr>);
     s \<leftarrow> (if kload s pte AND PTE_P \<noteq> 0 then page_remove s pgdir va else Some s);
     let s = kstore s pte (page2pa pp OR perm OR PTE_P);
     Some (0, kstore s (entry pgdir (PDX va)) (kload s (entry pgdir (PDX va)) OR perm))
   }"

lemma page_insert_walk: "page_insert s pgdir pp va perm = do {
    (r, s) \<leftarrow> pgdir_walk s pgdir va True;
    case r of None \<Rightarrow> Some (- E_NO_MEM, s) | Some pte \<Rightarrow> insert_body s pgdir pp va perm pte }"
  unfolding page_insert_def insert_body_def Let_def ..

lemma insert_body_spec:
  assumes inv: "pt_inv s Ds xs pend" and d: "d \<in> Ds" "user_va va" and t: "tabs s Ds (d, PDX va) = Some t"
    and p: "p < npages s" "p \<notin> Ds" "p \<notin> ran (tabs s Ds)" "p \<notin> set xs" "unat (ref_of s p) + 1 < 65536"
    and perm: "PTE_ADDR perm = 0"
  obtains s' xs' where
    "insert_body s (dir_kva d) p va perm (entry (page2pa t) (PTX va) + KERNBASE) = Some (0, s')"
    "pt_inv s' Ds xs' pend" "tabs s' Ds = tabs s Ds"
    "mapped s' Ds = (mapped s Ds)((d, PDX va, PTX va) \<mapsto> p)" "kframe s s'"
    "va_pte s' d va = page2pa p OR perm OR PTE_P"
    "\<And>d' va'. d' \<in> Ds \<Longrightarrow> user_va va' \<Longrightarrow> (d', PTE_ADDR va') \<noteq> (d, PTE_ADDR va) \<Longrightarrow>
       va_pte s' d' va' = va_pte s d' va'"
    "mem_frame (insert d (ran (tabs s Ds))) s s'" "leaks s' xs' = leaks s xs - {p}" "length xs \<le> length xs'"
proof -
  let ?k = "(d, PDX va, PTX va)" and ?pte = "entry (page2pa t) (PTX va) + KERNBASE"
  define s1 where "s1 = upd_page s p (\<lambda>q. q\<lparr>pp_ref := pp_ref q + 1\<rparr>)"
  note T = pt_inv_take [OF inv p s1_def]
  let ?pend = "pend(p := pend p + 1)"
  have t1: "tabs s1 Ds (d, PDX va) = Some t" and p1: "p < npages s1"
    using t T(2,7) p by (simp_all add: kframe_def)
  obtain s2 xs' where s2: "(if kload s1 ?pte AND PTE_P \<noteq> 0 then page_remove s1 (dir_kva d) va else Some s1) = Some s2"
    and inv2: "pt_inv s2 Ds xs' ?pend" and tabs2: "tabs s2 Ds = tabs s1 Ds"
    and map2: "mapped s2 Ds = (mapped s1 Ds)(?k := None)" and fr2: "kframe s1 s2"
    and pte2: "\<And>d' i' j'. tabs s1 Ds (d', i') \<noteq> None \<Longrightarrow> unat j' < 1024 \<Longrightarrow> (d', i', j') \<noteq> ?k \<Longrightarrow>
       pte_at s2 d' i' j' = pte_at s1 d' i' j'"
    and mf2: "mem_frame (ran (tabs s1 Ds)) s1 s2" and lk2: "leaks s2 xs' = leaks s1 xs" and ln2: "length xs \<le> length xs'"
  proof (cases "mapped s1 Ds ?k")
    case None
    then have "kload s1 ?pte AND PTE_P = 0"
      using t1 PTX_less [of va]
      by (auto simp: kload_pte [OF t1] mapped_def present_def simp del: kload_KADDR split: if_splits)
    moreover from None have "mapped s1 Ds = (mapped s1 Ds)(?k := None)"
      by auto
    ultimately show thesis
      using T(1) by (intro that [of s1 xs]) auto
  next
    case (Some q)
    then have "kload s1 ?pte AND PTE_P \<noteq> 0"
      by (auto simp: kload_pte [OF t1] mapped_Some present_def simp del: kload_KADDR)
    moreover obtain s2 where "page_remove s1 (dir_kva d) va = Some s2"
      "pt_inv s2 Ds (if ref_of s1 q = 1 then q # xs else xs) ?pend"
      "tabs s2 Ds = tabs s1 Ds" "mapped s2 Ds = (mapped s1 Ds)(?k := None)" "kframe s1 s2"
      "\<And>d' i' j'. tabs s1 Ds (d', i') \<noteq> None \<Longrightarrow> unat j' < 1024 \<Longrightarrow>
         pte_at s2 d' i' j' = (if (d', i', j') = ?k then 0 else pte_at s1 d' i' j')"
      "mem_frame (ran (tabs s1 Ds)) s1 s2" "leaks s2 (if ref_of s1 q = 1 then q # xs else xs) = leaks s1 xs"
      using page_remove_mapped [OF T(1) d Some] by metis
    ultimately show thesis
      by (intro that [of s2 "if ref_of s1 q = 1 then q # xs else xs"]) auto
  qed
  have t2: "tabs s2 Ds (d, PDX va) = Some t" and p2: "p < npages s2" "p \<notin> ran (tabs s2 Ds)"
    using t1 tabs2 fr2 p1 p(3) T(2) by (simp_all add: kframe_def)
  define s3 where "s3 = kstore s2 ?pte (page2pa p OR perm OR PTE_P)"
  have "mapped s2 Ds ?k = None" "0 < ?pend p"
    using map2 by simp_all
  note I = pt_inv_install [OF inv2 t2 PTX_less this(1) p2(1) p(2) p2(2) this(2) perm s3_def]
  have t3: "tabs s3 Ds (d, PDX va) = Some t"
    using I(2) t2 by simp
  define s4 where "s4 = kstore s3 (entry (dir_kva d) (PDX va)) (kload s3 (entry (dir_kva d) (PDX va)) OR perm)"
  note F = pt_inv_pde_flags [OF I(1) t3 perm s4_def]
  have body: "insert_body s (dir_kva d) p va perm ?pte = Some (0, s4)"
    using s2 by (simp add: insert_body_def Let_def flip: s1_def s3_def s4_def)
  have tabs4: "tabs s4 Ds = tabs s Ds"
    using F(2) I(2) tabs2 T(2) by simp
  have pend: "?pend(p := ?pend p - 1) = pend"
    by auto
  have map4: "mapped s4 Ds = (mapped s Ds)(?k \<mapsto> p)"
    using F(3) I(3) map2 T(3) by simp
  have fr4: "kframe s s4"
    using T(7) fr2 I(4) F(4) by (blast intro: kframe_trans)
  have pte4: "pte_at s4 d' i' j' = (if (d', i', j') = ?k then page2pa p OR perm OR PTE_P else pte_at s d' i' j')"
    if "tabs s Ds (d', i') \<noteq> None" "unat j' < 1024" for d' i' j'
    using that F(6) I(6) I(2) pte2 tabs2 T(2,5) by (cases "(d', i', j') = ?k") auto
  note W = va_pte_updated [OF tabs4 _ d pte4]
  note D = pt_invD [OF inv]
  have n: "d < 1048576" "t < 1048576" "t \<in> ran (tabs s Ds)"
    using D(4) D(6) [OF d(1)] D(7) [OF t] ranI [of "tabs s Ds"] t by auto
  have "mem_frame {t} s2 s3"
    using n by (intro mem_frame_entry [where p = t and i = "PTX va"]) (simp_all add: s3_def kstore_mem PTX_less)
  moreover have "mem_frame {d} s3 s4"
    using n(1) d(2) by (intro mem_frame_entry [where p = d and i = "PDX va"])
      (simp_all add: s4_def entry_dir_kva kstore_mem user_va_PDX)
  moreover have "mem_frame (ran (tabs s Ds)) s s2"
    using mf2 T(2) by (simp add: mem_frame_def s1_def)
  ultimately have mf4: "mem_frame (insert d (ran (tabs s Ds))) s s4"
    using n(3) unfolding mem_frame_def by auto
  have "ref_of s p + 1 \<noteq> 0"
  proof -
    have "unat (ref_of s p + 1) = unat (ref_of s p) + 1"
      using p(5) by (simp add: unat_word_ariths)
    then show ?thesis by auto
  qed
  then have "leaks s1 xs = leaks s xs - {p}"
    using T(6,7) by (auto simp: leaks_def kframe_def)
  then have lk4: "leaks s4 xs' = leaks s xs - {p}"
    using lk2 F(4,5) I(4,5) by (simp add: leaks_def kframe_def)
  show thesis
    using that [OF body F(1) [unfolded pend] tabs4 map4 fr4 _ _ mf4 lk4 ln2] W t by auto
qed

text \<open>A directory whose entries are all zero maps nothing.\<close>

lemma pt_inv_blank:
  assumes "free_inv s xs" "finite Ds" "\<And>d. d \<in> Ds \<Longrightarrow> d < npages s \<and> ref_of s d = 1"
    and "\<And>d i. d \<in> Ds \<Longrightarrow> unat i < 955 \<Longrightarrow> pde_at s d i = 0"
  shows "pt_inv s Ds xs (\<lambda>p. if p \<in> Ds then 0 else unat (ref_of s p))"
proof -
  have T: "tabs s Ds = Map.empty"
    using assms(4) by (auto simp: tabs_def UPDES fun_eq_iff present_def)
  then have M: "mapped s Ds = Map.empty"
    by (auto simp: mapped_def fun_eq_iff)
  have "clean s Ds"
    by (simp add: clean_def T)
  then show ?thesis
    using assms by (auto simp: pt_inv_def ref_inv_def T M count_refs_def)
qed

text \<open>A machine with eight pages: page 2 is an empty directory, pages 3 to 7 are free.\<close>

definition kdemo :: kern where
  "kdemo = \<lparr>npages = 8,
     pages = [\<lparr>pp_link = None, pp_ref = 1\<rparr>, \<lparr>pp_link = None, pp_ref = 1\<rparr>, \<lparr>pp_link = None, pp_ref = 1\<rparr>,
       \<lparr>pp_link = Some 4, pp_ref = 0\<rparr>, \<lparr>pp_link = Some 5, pp_ref = 0\<rparr>, \<lparr>pp_link = Some 6, pp_ref = 0\<rparr>,
       \<lparr>pp_link = Some 7, pp_ref = 0\<rparr>, \<lparr>pp_link = None, pp_ref = 0\<rparr>],
     page_free_list = Some 3, kern_pgdir = KERNBASE, nextfree = 0, mmio_base = MMIOBASE,
     mem = (\<lambda>_. 0), cr3 = 0, invlpgs = [], user_mem_check_addr = 0, envs = [], env_free_list = None,
     curenv = None, cpu_num = 0, cpu_status = CPU_STARTED, kernel_locked = True\<rparr>"

definition demo_pend :: "nat \<Rightarrow> nat" where "demo_pend p = (if p = 2 then 0 else unat (ref_of kdemo p))"

lemma kdemo_simps: "npages kdemo = 8" "length (pages kdemo) = 8" "page_free_list kdemo = Some 3"
  "mem kdemo = (\<lambda>_. 0)" "curenv kdemo = None" "invlpgs kdemo = []"
  by (simp_all add: kdemo_def)

lemma kdemo_nth: "i < 8 \<Longrightarrow> pages kdemo ! i =
    \<lparr>pp_link = (if 3 \<le> i \<and> i < 7 then Some (i + 1) else None), pp_ref = (if i < 3 then 1 else 0)\<rparr>"
proof -
  assume "i < 8"
  then consider "i = 0" | "i = 1" | "i = 2" | "i = 3" | "i = 4" | "i = 5" | "i = 6" | "i = 7"
    by linarith
  then show ?thesis
    by cases (simp_all add: kdemo_def)
qed

lemma kdemo_free: "free_inv kdemo [3, 4, 5, 6, 7]"
  by (auto simp: free_inv_def link_of_def ref_of_def kdemo_nth kdemo_simps)

lemma kdemo_inv: "pt_inv kdemo {2} [3, 4, 5, 6, 7] demo_pend"
proof -
  have "pt_inv kdemo {2} [3, 4, 5, 6, 7] (\<lambda>p. if p \<in> {2} then 0 else unat (ref_of kdemo p))"
    by (rule pt_inv_blank [OF kdemo_free]) (auto simp: ref_of_def kdemo_nth pde_at_def kdemo_simps)
  then show ?thesis
    by (simp add: demo_pend_def [abs_def])
qed

lemma kdemo_tabs: "tabs kdemo {2} = Map.empty"
  by (auto simp: tabs_def fun_eq_iff pde_at_def kdemo_simps)

lemma page_insert_spec:
  assumes "pt_inv s Ds xs pend" "d \<in> Ds" "user_va va"
    and "pp < npages s" "pp \<notin> Ds" "pp \<notin> ran (tabs s Ds)" "pp \<notin> set xs" "unat (ref_of s pp) + 1 < 65536"
    and "PTE_ADDR perm = 0"
  shows "if xs = [] \<and> tabs s Ds (d, PDX va) = None
     then page_insert s (dir_kva d) pp va perm = Some (- E_NO_MEM, s)
     else \<exists>s' xs'. page_insert s (dir_kva d) pp va perm = Some (0, s') \<and> pt_inv s' Ds xs' pend \<and>
       mapped s' Ds = (mapped s Ds)((d, PDX va, PTX va) \<mapsto> pp) \<and>
       va_pte s' d va = page2pa pp OR perm OR PTE_P \<and>
       (\<forall>d' va'. d' \<in> Ds \<longrightarrow> user_va va' \<longrightarrow> (d', PTE_ADDR va') \<noteq> (d, PTE_ADDR va) \<longrightarrow>
          va_pte s' d' va' = va_pte s d' va') \<and> kframe s s' \<and>
       mem_frame (pt_pages s Ds xs) s s' \<and> leaks s' xs' = leaks s xs - {pp} \<and> length xs \<le> Suc (length xs')"
proof (cases "tabs s Ds (d, PDX va)")
  case (Some t)
  obtain s' xs' where
    "insert_body s (dir_kva d) pp va perm (entry (page2pa t) (PTX va) + KERNBASE) = Some (0, s')"
    "pt_inv s' Ds xs' pend" "mapped s' Ds = (mapped s Ds)((d, PDX va, PTX va) \<mapsto> pp)" "kframe s s'"
    "va_pte s' d va = page2pa pp OR perm OR PTE_P"
    "\<And>d' va'. d' \<in> Ds \<Longrightarrow> user_va va' \<Longrightarrow> (d', PTE_ADDR va') \<noteq> (d, PTE_ADDR va) \<Longrightarrow>
       va_pte s' d' va' = va_pte s d' va'"
    "mem_frame (insert d (ran (tabs s Ds))) s s'" "leaks s' xs' = leaks s xs - {pp}" "length xs \<le> length xs'"
    using insert_body_spec [OF assms(1-3) Some assms(4-9)] by metis
  moreover from this(7) have "mem_frame (pt_pages s Ds xs) s s'"
    using assms(2) by (auto simp: mem_frame_def)
  ultimately show ?thesis
    using Some by (auto simp: page_insert_walk pgdir_walk_present [OF assms(1) Some])
next
  case None
  show ?thesis
  proof (cases xs)
    case Nil
    with None assms show ?thesis
      by (simp add: page_insert_walk pgdir_walk_out_of_memory)
  next
    case (Cons x ys)
    obtain s1 where walk: "pgdir_walk s (dir_kva d) va True = Some (Some (entry (page2pa x) (PTX va) + KERNBASE), s1)"
      and s1: "pt_inv s1 Ds ys pend" "tabs s1 Ds = (tabs s Ds)((d, PDX va) \<mapsto> x)" "mapped s1 Ds = mapped s Ds"
      "kframe s s1" "ref_of s1 = (ref_of s)(x := 1)"
      "\<And>d' va'. d' \<in> Ds \<Longrightarrow> user_va va' \<Longrightarrow> va_pte s1 d' va' = va_pte s d' va'"
      "mem_frame {d, x} s s1"
      using pgdir_walk_new_table [OF assms(1) [unfolded Cons] assms(2,3) None] by metis
    have p1: "pp < npages s1" "pp \<notin> ran (tabs s1 Ds)" "pp \<notin> set ys" "unat (ref_of s1 pp) + 1 < 65536"
      "tabs s1 Ds (d, PDX va) = Some x"
      using assms(4-8) s1(2,4,5) None Cons by (auto simp: kframe_def)
    obtain s' xs' where
      "insert_body s1 (dir_kva d) pp va perm (entry (page2pa x) (PTX va) + KERNBASE) = Some (0, s')"
      "pt_inv s' Ds xs' pend" "mapped s' Ds = (mapped s1 Ds)((d, PDX va, PTX va) \<mapsto> pp)" "kframe s1 s'"
      "va_pte s' d va = page2pa pp OR perm OR PTE_P"
      "\<And>d' va'. d' \<in> Ds \<Longrightarrow> user_va va' \<Longrightarrow> (d', PTE_ADDR va') \<noteq> (d, PTE_ADDR va) \<Longrightarrow>
         va_pte s' d' va' = va_pte s1 d' va'"
      and mf: "mem_frame (insert d (ran (tabs s1 Ds))) s1 s'" and lk: "leaks s' xs' = leaks s1 ys - {pp}"
      and ln: "length ys \<le> length xs'"
      using insert_body_spec [OF s1(1) assms(2,3) p1(5,1) assms(5) p1(2,3,4) assms(9)] by metis
    moreover have "mem_frame (pt_pages s Ds xs) s s'"
      using s1(7) mf by (rule mem_frame_trans) (use assms(2) Cons s1(2) None in auto)
    moreover have "leaks s1 ys = leaks s xs"
      using s1(4,5) Cons pt_invD(1) [OF assms(1)] by (auto simp: leaks_def kframe_def free_inv_def)
    ultimately show ?thesis
      using Cons walk s1 by (auto simp: page_insert_walk intro: kframe_trans)
  qed
qed

text \<open>
  C1. \<open>page_insert\<close> on a well-formed address space. It fails with \<open>-E_NO_MEM\<close>, changing
  nothing, exactly when a page table is missing and the free list is empty. Otherwise it returns 0;
  the entry for \<open>va\<close> is the page's address with \<open>perm|PTE_P\<close>; no other user page of any
  address space changes; and the invariant (reference counts equal the number of mappings, free
  pages are unmapped) holds again, whether or not a page was mapped there before. Memory outside page
  directories, page tables and free pages keeps its contents, and no page is lost: a page without
  references is on the free list, unless it was in use without references before.
\<close>

theorem page_insert_correct:
  assumes "pt_inv s Ds xs pend" "d \<in> Ds" "user_va va"
    and "pp < npages s" "pp \<notin> Ds" "pp \<notin> ran (tabs s Ds)" "pp \<notin> set xs" "unat (ref_of s pp) + 1 < 65536"
    and "PTE_ADDR perm = 0"
  shows "if xs = [] \<and> tabs s Ds (d, PDX va) = None
     then page_insert s (dir_kva d) pp va perm = Some (- E_NO_MEM, s)
     else \<exists>s' xs'. page_insert s (dir_kva d) pp va perm = Some (0, s') \<and> pt_inv s' Ds xs' pend \<and>
       mapped s' Ds = (mapped s Ds)((d, PDX va, PTX va) \<mapsto> pp) \<and>
       va_pte s' d va = page2pa pp OR perm OR PTE_P \<and>
       (\<forall>d' va'. d' \<in> Ds \<longrightarrow> user_va va' \<longrightarrow> (d', PTE_ADDR va') \<noteq> (d, PTE_ADDR va) \<longrightarrow>
          va_pte s' d' va' = va_pte s d' va') \<and> kframe s s' \<and>
       mem_frame (pt_pages s Ds xs) s s' \<and> leaks s' xs' = leaks s xs - {pp} \<and> length xs \<le> Suc (length xs')"
  using assms by (rule page_insert_spec)

theorem page_insert_correct_witness:
  "\<exists>s' xs'. page_insert kdemo (dir_kva 2) 0 0x400000 (PTE_U OR PTE_W) = Some (0, s') \<and>
     pt_inv s' {2} xs' demo_pend \<and> va_pte s' 2 0x400000 = 7"
proof -
  have h: "user_va 0x400000" "PTE_ADDR (PTE_U OR PTE_W) = 0" "(0 :: nat) < npages kdemo" "unat (ref_of kdemo 0) + 1 < 65536"
    by (simp_all add: user_va_def layout_defs PTE_ADDR_or ref_of_def kdemo_nth kdemo_simps)
  have "page2pa 0 OR (PTE_U OR PTE_W) OR PTE_P = 7"
    by (simp add: page2pa_def pte_flag_defs)
  then show ?thesis
    using page_insert_correct [OF kdemo_inv _ h(1) h(3) _ _ _ h(4) h(2), of 2] by (auto simp: kdemo_tabs)
qed

text \<open>
  C4. \<open>page_remove\<close> on a well-formed address space always succeeds. Where a page \<open>p\<close> was mapped,
  its counter drops by one, it returns to the free list exactly when that was the last reference, the
  entry becomes zero, the TLB entry is flushed if the directory is in use, no other user page changes and
  the invariant is kept; where nothing was mapped, nothing changes.
\<close>

theorem page_remove_correct:
  assumes "pt_inv s Ds xs pend" "d \<in> Ds" "user_va va"
  shows "case mapped s Ds (d, PDX va, PTX va) of
       None \<Rightarrow> page_remove s (dir_kva d) va = Some s
     | Some p \<Rightarrow> \<exists>s'. page_remove s (dir_kva d) va = Some s' \<and>
         pt_inv s' Ds (if ref_of s p = 1 then p # xs else xs) pend \<and>
         mapped s' Ds = (mapped s Ds)((d, PDX va, PTX va) := None) \<and>
         ref_of s' = (ref_of s)(p := ref_of s p - 1) \<and> va_pte s' d va = 0 \<and>
         (\<forall>d' va'. d' \<in> Ds \<longrightarrow> user_va va' \<longrightarrow> (d', PTE_ADDR va') \<noteq> (d, PTE_ADDR va) \<longrightarrow>
            va_pte s' d' va' = va_pte s d' va') \<and>
         invlpgs s' = (if loaded s (dir_kva d) then va # invlpgs s else invlpgs s)"
proof (cases "mapped s Ds (d, PDX va, PTX va)")
  case None
  then show ?thesis
    using page_remove_unmapped [OF assms] by simp
next
  case (Some p)
  have t: "tabs s Ds (d, PDX va) \<noteq> None"
    using Some by (auto simp: mapped_Some)
  obtain s' where s': "page_remove s (dir_kva d) va = Some s'"
    "pt_inv s' Ds (if ref_of s p = 1 then p # xs else xs) pend" "tabs s' Ds = tabs s Ds"
    "mapped s' Ds = (mapped s Ds)((d, PDX va, PTX va) := None)" "ref_of s' = (ref_of s)(p := ref_of s p - 1)" "kframe s s'"
    "\<And>d' i' j'. tabs s Ds (d', i') \<noteq> None \<Longrightarrow> unat j' < 1024 \<Longrightarrow>
       pte_at s' d' i' j' = (if (d', i', j') = (d, PDX va, PTX va) then 0 else pte_at s d' i' j')"
    "invlpgs s' = (if loaded s (dir_kva d) then va # invlpgs s else invlpgs s)"
    by (rule page_remove_mapped [OF assms Some]) (rule that)
  note W = va_pte_updated [OF s'(3) t assms(2,3) s'(7)]
  show ?thesis
    unfolding Some option.case
    by (intro exI [of _ s'] conjI allI impI s'(1,2,4,5,8) W(1) W(2))
qed

text \<open>The state of \<open>kdemo\<close> after mapping page 0 at address \<open>0x400000\<close>.\<close>

lemma demo_mapped:
  "\<exists>s xs. page_insert kdemo (dir_kva 2) 0 0x400000 (PTE_U OR PTE_W) = Some (0, s) \<and> pt_inv s {2} xs demo_pend \<and>
     mapped s {2} (2, PDX 0x400000, PTX 0x400000) = Some 0 \<and> va_pte s 2 0x400000 = 7"
proof -
  have h: "user_va 0x400000" "PTE_ADDR (PTE_U OR PTE_W) = 0" "(0 :: nat) < npages kdemo" "unat (ref_of kdemo 0) + 1 < 65536"
    by (simp_all add: user_va_def layout_defs PTE_ADDR_or ref_of_def kdemo_nth kdemo_simps)
  have "page2pa 0 OR (PTE_U OR PTE_W) OR PTE_P = 7"
    by (simp add: page2pa_def pte_flag_defs)
  then show ?thesis
    using page_insert_spec [OF kdemo_inv _ h(1) h(3) _ _ _ h(4) h(2), of 2] by (auto simp: kdemo_tabs)
qed

theorem page_remove_correct_witness:
  "\<exists>s s'. page_insert kdemo (dir_kva 2) 0 0x400000 (PTE_U OR PTE_W) = Some (0, s) \<and>
     page_remove s (dir_kva 2) 0x400000 = Some s' \<and> va_pte s' 2 0x400000 = 0"
proof -
  obtain s xs where s: "page_insert kdemo (dir_kva 2) 0 0x400000 (PTE_U OR PTE_W) = Some (0, s)"
    "pt_inv s {2} xs demo_pend" "mapped s {2} (2, PDX 0x400000, PTX 0x400000) = Some 0"
    using demo_mapped by blast
  have u: "user_va 0x400000"
    by (simp add: user_va_def layout_defs)
  show ?thesis
    using page_remove_correct [OF s(2) _ u, of 2] s(1,3) by auto
qed

text \<open>
  C17. Round trip: after a successful \<open>page_insert\<close> of \<open>pp\<close> at \<open>va\<close>, \<open>page_lookup\<close> at any address
  of that page returns \<open>pp\<close> together with a pointer to an entry that holds exactly the page's address and
  \<open>perm|PTE_P\<close>.
\<close>

theorem page_insert_lookup:
  assumes "pt_inv s Ds xs pend" "d \<in> Ds" "user_va va"
    and "pp < npages s" "pp \<notin> Ds" "pp \<notin> ran (tabs s Ds)" "pp \<notin> set xs" "unat (ref_of s pp) + 1 < 65536"
    and "PTE_ADDR perm = 0" "page_insert s (dir_kva d) pp va perm = Some (0, s')" "PTE_ADDR va' = PTE_ADDR va"
  shows "\<exists>pte. page_lookup s' (dir_kva d) va' = Some (Some (pp, pte)) \<and> kload s' pte = page2pa pp OR perm OR PTE_P"
proof -
  have "\<not> (xs = [] \<and> tabs s Ds (d, PDX va) = None)"
    using page_insert_spec [OF assms(1-9)] assms(10) by (auto simp: E_NO_MEM_def split: if_splits)
  then obtain xs' where s': "pt_inv s' Ds xs' pend"
    "mapped s' Ds = (mapped s Ds)((d, PDX va, PTX va) \<mapsto> pp)" "va_pte s' d va = page2pa pp OR perm OR PTE_P"
    using page_insert_spec [OF assms(1-9)] assms(10) by (auto split: if_splits)
  have ix: "PDX va' = PDX va" "PTX va' = PTX va"
    using assms(11) by (simp_all add: same_page_iff)
  then have u: "user_va va'"
    using assms(3) by (simp add: user_va_PDX)
  have m: "mapped s' Ds (d, PDX va', PTX va') = Some pp"
    by (simp add: s'(2) ix)
  then obtain t where t: "tabs s' Ds (d, PDX va') = Some t"
    by (auto simp: mapped_Some)
  have "kload s' (entry (page2pa t) (PTX va') + KERNBASE) = page2pa pp OR perm OR PTE_P"
    using s'(3) t va_pte_table [of s' Ds d va t] by (simp add: kload_pte [OF t] ix del: kload_KADDR)
  then show ?thesis
    using page_lookup_mapped [OF s'(1) assms(2) u] m by (simp add: table_page [OF t] del: kload_KADDR)
qed

theorem page_insert_lookup_witness:
  "\<exists>s' pte. page_insert kdemo (dir_kva 2) 0 0x400000 (PTE_U OR PTE_W) = Some (0, s') \<and>
     page_lookup s' (dir_kva 2) 0x400ABC = Some (Some (0, pte)) \<and> kload s' pte = 7"
proof -
  obtain s' where s': "page_insert kdemo (dir_kva 2) 0 0x400000 (PTE_U OR PTE_W) = Some (0, s')"
    using demo_mapped by blast
  have h: "user_va 0x400000" "PTE_ADDR (PTE_U OR PTE_W) = 0" "(0 :: nat) < npages kdemo" "unat (ref_of kdemo 0) + 1 < 65536"
    by (simp_all add: user_va_def layout_defs PTE_ADDR_or ref_of_def kdemo_nth kdemo_simps)
  have same: "PTE_ADDR 0x400ABC = PTE_ADDR 0x400000"
    by (simp add: PTE_ADDR_def)
  have "page2pa 0 OR (PTE_U OR PTE_W) OR PTE_P = 7"
    by (simp add: page2pa_def pte_flag_defs)
  then show ?thesis
    using page_insert_lookup [OF kdemo_inv _ h(1) h(3) _ _ _ h(4) h(2) s' same] s' by (auto simp: kdemo_tabs)
qed

text \<open>
  C10. No use after free: in a well-formed state \<open>page_alloc\<close> hands out the head of the free list, and that
  page is not a page directory, not a page table, and not mapped at any user address of any address space;
  the state stays well-formed with that page taken off the list, and the page reads as zeroes when
  \<open>ALLOC_ZERO\<close> was asked for. With an empty list it reports \<open>NULL\<close> and changes nothing.
\<close>

theorem page_alloc_fresh:
  assumes "pt_inv s Ds xs pend"
  shows "case xs of [] \<Rightarrow> page_alloc s fl = Some (None, s)
     | p # ys \<Rightarrow> \<exists>s'. page_alloc s fl = Some (Some p, s') \<and> pt_inv s' Ds ys pend \<and>
         p \<notin> Ds \<and> p \<notin> ran (tabs s' Ds) \<and> p \<notin> ran (mapped s' Ds) \<and>
         (\<forall>a. fl AND ALLOC_ZERO \<noteq> 0 \<and> PTE_ADDR a = page2pa p \<longrightarrow> mem s' a = 0)"
proof (cases xs)
  case Nil
  then show ?thesis
    using pt_invD(1) [OF assms] by (simp add: page_alloc_Nil)
next
  case (Cons p ys)
  then have inv: "pt_inv s Ds (p # ys) pend"
    using assms by simp
  note D = pt_invD [OF inv]
  obtain s' where s': "page_alloc s fl = Some (Some p, s')"
    by (simp add: page_alloc_Cons [OF D(1)])
  note A = pt_inv_alloc [OF inv s']
  show ?thesis
    using Cons s' A(2,12) ref_inv_unreferenced(1-3) [OF D(2) A(5,4)] by (simp add: A(7,8))
qed

theorem page_alloc_fresh_witness:
  "\<exists>s'. page_alloc kdemo 1 = Some (Some 3, s') \<and> pt_inv s' {2} [4, 5, 6, 7] demo_pend \<and>
     3 \<notin> ran (mapped s' {2}) \<and> mem s' 0x3004 = 0"
proof -
  have "1 AND ALLOC_ZERO \<noteq> 0" "PTE_ADDR 0x3004 = page2pa 3"
    by (simp_all add: ALLOC_ZERO_def PTE_ADDR_def page2pa_def)
  then show ?thesis
    using page_alloc_fresh [OF kdemo_inv, of 1] by auto
qed

end
