(* ===== verification/JosUserMem.thy ===== *)
theory JosUserMem
  imports JosPageTable
begin

text \<open>
  \<open>user_mem_check\<close> of kern/pmap.c: the check of a user-supplied address range that guards system calls.
  Its loop is a partial function; the theorems show that it terminates and decides the range, when the
  range does not wrap around the end of the address space, and what happens when it does.
\<close>

subsection \<open>Rounding to page boundaries\<close>

lemma unat_ROUNDDOWN: "unat (ROUNDDOWN a PGSIZE) = unat a - unat a mod 4096"
proof -
  have "unat (a mod 4096) = unat a mod 4096"
    by (simp add: unat_mod)
  moreover have "a mod 4096 \<le> a"
    by (simp add: word_le_nat_alt unat_mod)
  ultimately show ?thesis
    by (simp add: ROUNDDOWN_def PGSIZE_def unat_sub)
qed

lemma ROUNDDOWN_PTE_ADDR: "ROUNDDOWN a PGSIZE = PTE_ADDR a"
  by (simp add: word_unat_eq_iff unat_ROUNDDOWN unat_PTE_ADDR)

lemma unat_ROUNDUP:
  assumes "unat a + 4095 < 4294967296"
  shows "unat (ROUNDUP a PGSIZE) = (unat a + 4095) div 4096 * 4096"
proof -
  have "unat (a + PGSIZE - 1) = unat a + 4095"
    using assms by (simp add: PGSIZE_def unat_word_ariths)
  then have "unat (ROUNDUP a PGSIZE) = (unat a + 4095) - (unat a + 4095) mod 4096"
    by (simp only: ROUNDUP_def unat_ROUNDDOWN)
  then show ?thesis
    by (simp only: minus_mod_eq_div_mult)
qed

subsection \<open>Checking user pointers\<close>

definition user_ok :: "kern \<Rightarrow> u32 \<Rightarrow> u32 \<Rightarrow> u32 \<Rightarrow> bool" where
  "user_ok s pgdir perm a \<longleftrightarrow> a < ULIM \<and>
     (case pgdir_walk s pgdir a False of
        Some (Some p, _) \<Rightarrow> kload s p AND PTE_P \<noteq> 0 \<and> kload s p AND perm = perm
      | _ \<Rightarrow> False)"

lemma pgdir_walk_False: "pgdir_walk s pgdir va False = Some (r, s') \<Longrightarrow> s' = s"
  by (auto simp: pgdir_walk_def Let_def bind_eq_Some_conv split: if_splits)

lemma pgdir_walk_page: "PTE_ADDR a = PTE_ADDR b \<Longrightarrow> pgdir_walk s pgdir a c = pgdir_walk s pgdir b c"
  by (simp add: same_page_iff pgdir_walk_def)

lemma aligned_less: 
  assumes "PGOFF l = 0" "PTE_ADDR a = PTE_ADDR b" 
  shows "a < l \<longleftrightarrow> b < l"
proof -
  have *: "x < l \<longleftrightarrow> PTE_ADDR x < l" for x
  proof -
    obtain k where k: "unat l = 4096 * k" using assms(1) by (rule aligned_multiple)
    have "unat x < 4096 * k \<longleftrightarrow> unat x - unat x mod 4096 < 4096 * k"
      by (metis k less_mult_imp_div_less minus_mod_eq_mult_div mult.commute mult_less_cancel1 div_less_iff_less_mult zero_less_numeral)
    then show ?thesis by (simp add: word_less_nat_alt unat_PTE_ADDR k)
  qed
  show ?thesis using * [of a] * [of b] assms(2) by simp
qed

lemma PGOFF_ULIM: "PGOFF ULIM = 0" by (simp add: PGOFF_def layout_defs)

lemma user_ok_page: "PTE_ADDR a = PTE_ADDR b \<Longrightarrow> user_ok s pgdir perm a = user_ok s pgdir perm b"
  using aligned_less [OF PGOFF_ULIM, of a b] by (simp add: user_ok_def pgdir_walk_page [of a b])

lemma user_mem_loop_step:
  assumes "pgdir_walk s pgdir i False \<noteq> None"
  shows "user_mem_loop s pgdir va perm i end_va =
     (if i < end_va
      then if user_ok s pgdir perm i then user_mem_loop s pgdir va perm (i + PGSIZE) end_va
           else Some (- E_FAULT, s\<lparr>user_mem_check_addr := (if i < va then va else i)\<rparr>)
      else Some (0, s))"
proof -
  obtain r where r: "pgdir_walk s pgdir i False = Some (r, s)"
    using assms pgdir_walk_False by fastforce
  show ?thesis
    by (subst user_mem_loop.simps) (cases r, auto simp: r user_ok_def not_less)
qed

lemma user_mem_loop_spec:
  assumes walk: "\<And>a. pgdir_walk s pgdir a False \<noteq> None"
    and "unat end_va = unat i + 4096 * n"
  shows "user_mem_loop s pgdir va perm i end_va =
     (case find (\<lambda>k. \<not> user_ok s pgdir perm (i + 4096 * of_nat k)) [0..<n] of
        None \<Rightarrow> Some (0, s)
      | Some k \<Rightarrow> Some (- E_FAULT, s\<lparr>user_mem_check_addr :=
          (if i + 4096 * of_nat k < va then va else i + 4096 * of_nat k)\<rparr>))"
  using assms(2)
proof (induction n arbitrary: i)
  case 0
  then have "\<not> i < end_va" by (simp add: word_less_nat_alt)
  then show ?case by (simp add: user_mem_loop_step [OF walk])
next
  case (Suc n)
  then have lt: "i < end_va" by (simp add: word_less_nat_alt)
  have "unat (i + PGSIZE) = unat i + 4096"
    using Suc.prems unat_less_32 [of end_va] by (simp add: PGSIZE_def unat_word_ariths)
  then have IH: "user_mem_loop s pgdir va perm (i + PGSIZE) end_va =
     (case find (\<lambda>k. \<not> user_ok s pgdir perm (i + PGSIZE + 4096 * of_nat k)) [0..<n] of
        None \<Rightarrow> Some (0, s)
      | Some k \<Rightarrow> Some (- E_FAULT, s\<lparr>user_mem_check_addr :=
          (if i + PGSIZE + 4096 * of_nat k < va then va else i + PGSIZE + 4096 * of_nat k)\<rparr>))"
    using Suc by simp
  have upt: "[0..<Suc n] = 0 # map Suc [0..<n]"
    by (simp add: map_Suc_upt upt_conv_Cons)
  have sh: "i + 4096 * of_nat (Suc k) = i + PGSIZE + 4096 * of_nat k" for k
    by (simp add: PGSIZE_def algebra_simps)
  show ?case
    using lt IH unfolding upt find.simps find_map_option sh
    by (subst user_mem_loop_step [OF walk]) (simp add: PGSIZE_def add.assoc split: option.split)
qed

text \<open>The \<open>k\<close>-th page that \<open>user_mem_check\<close> looks at.\<close>

definition nth_page :: "u32 \<Rightarrow> nat \<Rightarrow> u32" where "nth_page va k = ROUNDDOWN va PGSIZE + 4096 * of_nat k"

definition npages_touched :: "u32 \<Rightarrow> u32 \<Rightarrow> nat" where
  "npages_touched va len = (unat va + unat len + 4095) div 4096 - unat va div 4096"

lemma unat_nth_page:
  assumes "k < npages_touched va len" "unat va + unat len + 4095 < 4294967296"
  shows "unat (nth_page va k) = 4096 * (unat va div 4096 + k)"
proof -
  have "unat va div 4096 + k \<le> (unat va + unat len + 4095) div 4096"
    using assms(1) unfolding npages_touched_def by (simp only: less_diff_conv2 less_imp_le_nat add.commute less_diff_conv)
  then have "4096 * (unat va div 4096 + k) \<le> unat va + unat len + 4095"
    by (simp only: less_eq_div_iff_mult_less_eq mult.commute zero_less_numeral)
  then have b: "4096 * (unat va div 4096) + 4096 * k < 4294967296"
    using assms(2) by (simp only: distrib_left)
  have x: "unat (ROUNDDOWN va PGSIZE) = 4096 * (unat va div 4096)"
    by (simp add: unat_ROUNDDOWN minus_mod_eq_mult_div)
  have "unat (of_nat (4096 * k) :: u32) = 4096 * k"
    using b by (subst unat_of_nat) simp
  then have y: "unat (4096 * of_nat k :: u32) = 4096 * k"
    by simp
  have "unat (nth_page va k) = (4096 * (unat va div 4096) + 4096 * k) mod 2 ^ 32"
    unfolding nth_page_def by (simp only: unat_word_ariths(1) x y) simp
  with b show ?thesis
    by simp
qed

lemma user_mem_check_find:
  assumes "\<And>a. pgdir_walk s (env_pgdir (envs s ! e)) a False \<noteq> None"
    and nw: "unat va + unat len + 4095 < 4294967296"
  shows "user_mem_check s e va len perm =
     (case find (\<lambda>k. \<not> user_ok s (env_pgdir (envs s ! e)) perm (nth_page va k)) [0..<npages_touched va len] of
        None \<Rightarrow> Some (0, s)
      | Some k \<Rightarrow> Some (- E_FAULT, s\<lparr>user_mem_check_addr :=
          (if nth_page va k < va then va else nth_page va k)\<rparr>))"
proof -
  have sum: "unat (va + len) = unat va + unat len"
    using nw by (simp add: unat_word_ariths)
  have "unat va div 4096 \<le> (unat va + unat len + 4095) div 4096"
    by (rule div_le_mono) simp
  then have "unat (ROUNDUP (va + len) PGSIZE) = unat (ROUNDDOWN va PGSIZE) + 4096 * npages_touched va len"
    using nw by (simp add: unat_ROUNDUP sum unat_ROUNDDOWN npages_touched_def minus_mod_eq_mult_div
        diff_mult_distrib2 del: div_le_mono)
  then show ?thesis
    unfolding user_mem_check_def nth_page_def by (rule user_mem_loop_spec [OF assms(1)])
qed

text \<open>Every address of the range lies in one of the pages looked at, and conversely.\<close>

lemma page_of_address:
  assumes nw: "unat va + unat len + 4095 < 4294967296"
    and a: "unat va \<le> unat a" "unat a < unat va + unat len"
  shows "unat a div 4096 - unat va div 4096 < npages_touched va len"
    "PTE_ADDR a = nth_page va (unat a div 4096 - unat va div 4096)"
proof -
  let ?k = "unat a div 4096 - unat va div 4096"
  have le: "unat va div 4096 \<le> unat a div 4096"
    using a(1) by (rule div_le_mono)
  have "unat a div 4096 < (unat va + unat len + 4095) div 4096"
    using a(2) by simp
  with le show k: "?k < npages_touched va len"
    unfolding npages_touched_def by (intro diff_less_mono)
  have "unat (PTE_ADDR a) = unat (nth_page va ?k)"
    using le by (simp add: unat_nth_page [OF k nw] unat_PTE_ADDR minus_mod_eq_mult_div)
  then show "PTE_ADDR a = nth_page va ?k"
    by (simp add: word_unat_eq_iff)
qed

lemma address_of_page:
  assumes nw: "unat va + unat len + 4095 < 4294967296" and len: "0 < unat len"
    and k: "k < npages_touched va len"
  defines "b \<equiv> if nth_page va k < va then va else nth_page va k"
  shows "unat va \<le> unat b" "unat b < unat va + unat len" "PTE_ADDR b = nth_page va k"
    "unat b div 4096 = unat va div 4096 + k"
proof -
  note u = unat_nth_page [OF k nw]
  have d: "unat b div 4096 = unat va div 4096 + k"
  proof (cases "nth_page va k < va")
    case True
    then have "4096 * (unat va div 4096 + k) < unat va"
      by (simp add: word_less_nat_alt u)
    moreover have "unat va < 4096 + 4096 * (unat va div 4096)"
      by (rule dividend_less_times_div) simp
    ultimately have "k = 0" by simp
    then show ?thesis using True by (simp add: b_def)
  next
    case False
    then show ?thesis by (simp add: b_def u)
  qed
  then show "unat b div 4096 = unat va div 4096 + k" .
  have "Suc (unat va div 4096 + k) \<le> (unat va + unat len + 4095) div 4096"
    using k by (simp add: npages_touched_def)
  then have "Suc (unat va div 4096 + k) * 4096 \<le> unat va + unat len + 4095"
    by (simp add: less_eq_div_iff_mult_less_eq)
  then have "4096 * (unat va div 4096 + k) < unat va + unat len"
    by simp
  then show "unat b < unat va + unat len"
    using len by (simp add: b_def u)
  show "unat va \<le> unat b"
    by (auto simp: b_def word_less_nat_alt)
  have "unat (PTE_ADDR b) = unat (nth_page va k)"
    by (simp add: unat_PTE_ADDR minus_mod_eq_mult_div d u)
  then show "PTE_ADDR b = nth_page va k"
    by (simp add: word_unat_eq_iff)
qed

text \<open>
  C6. For a non-empty range that does not run past the end of the address space, \<open>user_mem_check\<close>
  terminates and is exact: it returns 0 when every byte of \<open>[va, va+len)\<close> is below \<open>ULIM\<close> and present with
  all bits of \<open>perm\<close>, and otherwise returns \<open>-E_FAULT\<close> and records the first bad address.
\<close>

theorem user_mem_check_correct:
  assumes walk: "\<forall>a. pgdir_walk s (env_pgdir (envs s ! e)) a False \<noteq> None"
    and nw: "unat va + unat len + 4095 < 4294967296" and len: "0 < unat len"
  shows "(\<forall>a. unat va \<le> unat a \<and> unat a < unat va + unat len \<longrightarrow>
       user_ok s (env_pgdir (envs s ! e)) perm a) \<and> user_mem_check s e va len perm = Some (0, s) \<or>
     (\<exists>b. unat va \<le> unat b \<and> unat b < unat va + unat len \<and> \<not> user_ok s (env_pgdir (envs s ! e)) perm b \<and>
       (\<forall>a. unat va \<le> unat a \<and> unat a < unat b \<longrightarrow> user_ok s (env_pgdir (envs s ! e)) perm a) \<and>
       user_mem_check s e va len perm = Some (- E_FAULT, s\<lparr>user_mem_check_addr := b\<rparr>))"
proof -
  let ?ok = "user_ok s (env_pgdir (envs s ! e)) perm"
  have okp: "?ok a = ?ok (nth_page va (unat a div 4096 - unat va div 4096))"
    if "unat va \<le> unat a" "unat a < unat va + unat len" for a
    using page_of_address(2) [OF nw that] by (metis PTE_ADDR_idem user_ok_page)
  show ?thesis
  proof (cases "find (\<lambda>k. \<not> ?ok (nth_page va k)) [0..<npages_touched va len]")
    case None
    then have "\<forall>k < npages_touched va len. ?ok (nth_page va k)"
      by (simp add: find_upt_None)
    then have "\<forall>a. unat va \<le> unat a \<and> unat a < unat va + unat len \<longrightarrow> ?ok a"
      using okp page_of_address(1) [OF nw] by blast
    then show ?thesis
      using user_mem_check_find [OF _ nw, of s e perm] walk None by simp
  next
    case (Some k)
    then have k: "k < npages_touched va len" "\<not> ?ok (nth_page va k)" "\<forall>j<k. ?ok (nth_page va j)"
      by (auto simp: find_upt_Some)
    define b where "b = (if nth_page va k < va then va else nth_page va k)"
    note B = address_of_page [OF nw len k(1), folded b_def]
    have "\<not> ?ok b"
      using k(2) B(3) by (metis PTE_ADDR_idem user_ok_page)
    moreover have "?ok a" if a: "unat va \<le> unat a" "unat a < unat b" for a
    proof -
      have "?ok a = ?ok (nth_page va (unat a div 4096 - unat va div 4096))"
        using okp a B(2) by simp
      moreover have "unat a div 4096 - unat va div 4096 \<le> k"
        using a B(4) div_le_mono [of "unat a" "unat b" 4096] by simp
      moreover have "unat a div 4096 - unat va div 4096 \<noteq> k"
      proof
        assume eq: "unat a div 4096 - unat va div 4096 = k"
        have "unat va div 4096 \<le> unat a div 4096" using a(1) by (rule div_le_mono)
        with eq have "unat a div 4096 = unat va div 4096 + k" by simp
        then have "4096 * (unat va div 4096 + k) \<le> unat a" by (metis times_div_less_eq_dividend)
        then show False
          using a unat_nth_page [OF k(1) nw] by (auto simp: b_def split: if_splits)
      qed
      ultimately show ?thesis using k(3) by simp
    qed
    moreover have "user_mem_check s e va len perm = Some (- E_FAULT, s\<lparr>user_mem_check_addr := b\<rparr>)"
      using user_mem_check_find [OF _ nw, of s e perm] walk Some by (simp add: b_def)
    ultimately show ?thesis
      using B(1,2) by blast
  qed
qed

theorem user_mem_check_correct_witness:
  "\<exists>s'. user_mem_check (kdemo\<lparr>envs := [blank_env\<lparr>env_pgdir := dir_kva 2\<rparr>]\<rparr>) 0 0x800010 100 PTE_U = Some (- E_FAULT, s')"
proof -
  let ?s = "kdemo\<lparr>envs := [blank_env\<lparr>env_pgdir := dir_kva 2\<rparr>]\<rparr>"
  have z: "kload ?s p = 0" for p
    by (simp add: kload_def kdemo_simps)
  have w: "pgdir_walk ?s g a False = Some (None, ?s)" for g a
    by (simp add: pgdir_walk_def z)
  then have bad: "\<not> user_ok ?s g perm a" for g perm a
    by (simp add: user_ok_def)
  have "\<forall>a. pgdir_walk ?s (env_pgdir (envs ?s ! 0)) a False \<noteq> None"
    by (simp add: w)
  moreover have "unat (0x800010 :: u32) + unat (100 :: u32) + 4095 < 4294967296" "0 < unat (100 :: u32)"
    by simp_all
  moreover have "unat (0x800010 :: u32) \<le> unat (0x800010 :: u32) \<and>
      unat (0x800010 :: u32) < unat (0x800010 :: u32) + unat (100 :: u32)"
    by simp
  ultimately show ?thesis
    using user_mem_check_correct [of ?s 0 "0x800010" 100 PTE_U] bad by blast
qed

lemma unat_add_wrap: "4294967296 \<le> unat a + unat b \<Longrightarrow> unat (a + b :: u32) = unat a + unat b - 4294967296"
  using unsigned_less [where 'a = nat, of a] unsigned_less [where 'a = nat, of b] by (simp add: unat_word_ariths le_mod_geq)

lemma wrapped_range:
  assumes w: "4294963200 < unat va + unat len" and l: "unat len \<le> 4294963200"
  shows "ROUNDUP (va + len) PGSIZE \<le> ROUNDDOWN va PGSIZE"
proof (cases "unat va + unat len < 4294967296")
  case True
  then have u: "unat (va + len) = unat va + unat len" by (simp add: unat_word_ariths)
  then have "unat (va + len + 4095) = unat va + unat len + 4095 - 4294967296"
    using w unat_add_wrap [of "va + len" 4095] by simp
  then have "unat (va + len + PGSIZE - 1) = unat va + unat len + 4095 - 4294967296" by (simp add: PGSIZE_def algebra_simps)
  then have "unat (va + len + PGSIZE - 1) < 4096" using True by linarith
  then have "unat (ROUNDUP (va + len) PGSIZE) = 0" by (simp add: ROUNDUP_def unat_ROUNDDOWN)
  then show ?thesis by (simp add: word_le_nat_alt)
next
  case False
  then have u: "unat (va + len) = unat va + unat len - 4294967296"
    by (intro unat_add_wrap) simp
  have v: "unat va < 4294967296" using unsigned_less [where 'a = nat, of va] by simp
  have le: "unat (va + len) + 4096 \<le> unat va" using u l False by linarith
  then have "unat (ROUNDUP (va + len) PGSIZE) = (unat (va + len) + 4095) div 4096 * 4096" by (intro unat_ROUNDUP) (use v in linarith)
  also have "\<dots> \<le> unat va div 4096 * 4096" using le by (intro mult_right_mono div_le_mono) simp_all
  also have "\<dots> = unat (ROUNDDOWN va PGSIZE)" by (simp only: unat_ROUNDDOWN minus_mod_eq_div_mult)
  finally show ?thesis by (simp add: word_le_nat_alt)
qed

text \<open>
  C38. Any range that reaches past the last page boundary of the address space (and is shorter than the whole space by a page) is accepted without
  looking at a single page, whatever the page tables say and whatever permission is asked for, although it contains addresses at or above \<open>ULIM\<close>,
  which no user environment may access.
\<close>

theorem user_mem_check_wraps:
  assumes w: "4294963200 < unat va + unat len" and l: "unat len \<le> 4294963200" "0 < unat len"
  shows "user_mem_check s e va len perm = Some (0, s) \<and>
     (\<exists>a. ULIM \<le> a \<and> unat va \<le> unat a \<and> unat a < unat va + unat len \<and> \<not> user_ok s (env_pgdir (envs s ! e)) perm a)"
proof -
  have "user_mem_check s e va len perm = Some (0, s)"
    using leD [OF wrapped_range [OF w l(1)]] unfolding user_mem_check_def by (subst user_mem_loop.simps) simp
  moreover have "unat ULIM = 4018143232" by (simp add: layout_defs)
  then have "ULIM \<le> max va ULIM \<and> unat va \<le> unat (max va ULIM) \<and> unat (max va ULIM) < unat va + unat len"
    using w l by (auto simp: max_def word_le_nat_alt)
  moreover have "\<not> user_ok s (env_pgdir (envs s ! e)) perm (max va ULIM)" by (auto simp: user_ok_def max_def)
  ultimately show ?thesis by blast
qed

theorem user_mem_check_wraps_witness:
  "user_mem_check (kdemo\<lparr>envs := [blank_env\<lparr>env_pgdir := dir_kva 2\<rparr>]\<rparr>) 0 0x800000 0xFF801000 PTE_U =
     Some (0, kdemo\<lparr>envs := [blank_env\<lparr>env_pgdir := dir_kva 2\<rparr>]\<rparr>)"
  using user_mem_check_wraps [of "0x800000" "0xFF801000"] by simp

end
