(* ===== verification/JosEnv.thy ===== *)
theory JosEnv
  imports JosUserMem
begin

text \<open>
  Environments (kern/env.c): the table of environments and its free list, creation of an environment
  with its page directory, and \<open>env_free\<close>, which gives back every page of an address space. The proofs
  cover the identifiers \<open>env_alloc\<close> hands out, the permission check of \<open>envid2env\<close>, the free list
  of environments, and that \<open>env_free\<close> leaks nothing.
\<close>

subsection \<open>Selectors and flags\<close>

definition GD_KT :: u16 where "GD_KT = 0x08"
definition GD_KD :: u16 where "GD_KD = 0x10"
definition GD_UT :: u16 where "GD_UT = 0x18"
definition GD_UD :: u16 where "GD_UD = 0x20"

definition FL_IF :: u32 where "FL_IF = 0x200"
definition FL_IOPL_3 :: u32 where "FL_IOPL_3 = 0x3000"

definition ENVGENSHIFT :: nat where "ENVGENSHIFT = 12"

subsection \<open>The table of environments\<close>

definition envid2env :: "kern \<Rightarrow> envid_t \<Rightarrow> bool \<Rightarrow> (int \<times> nat option) option" where
  "envid2env s envid checkperm =
     (if envid = 0 then Some (0, curenv s)
      else let e = ENVX envid in
        if env_status (envs s ! e) = ENV_FREE \<or> env_id (envs s ! e) \<noteq> envid then Some (- E_BAD_ENV, None)
        else if checkperm \<and> curenv s \<noteq> Some e
        then (case curenv s of
                None \<Rightarrow> None
              | Some c \<Rightarrow> if env_parent_id (envs s ! e) \<noteq> env_id (envs s ! c) then Some (- E_BAD_ENV, None)
                          else Some (0, Some e))
        else Some (0, Some e))"

text \<open>\<open>env_init\<close> without the segment registers that \<open>env_init_percpu\<close> loads at its end.\<close>

definition env_init :: "kern \<Rightarrow> kern" where
  "env_init s =
     fold (\<lambda>i s. (upd_env s i (\<lambda>e. e\<lparr>env_id := 0, env_link := env_free_list s\<rparr>))\<lparr>env_free_list := Some i\<rparr>)
       (rev [0..<NENV]) (s\<lparr>env_free_list := None\<rparr>)"

definition env_setup_vm :: "kern \<Rightarrow> nat \<Rightarrow> (int \<times> kern) option" where
  "env_setup_vm s e = do {
     (r, s) \<leftarrow> page_alloc s ALLOC_ZERO;
     case r of
       None \<Rightarrow> Some (- E_NO_MEM, s)
     | Some p \<Rightarrow> do {
         let s = upd_page s p (\<lambda>q. q\<lparr>pp_ref := pp_ref q + 1\<rparr>);
         kva \<leftarrow> page2kva s p;
         let s = upd_env s e (\<lambda>v. v\<lparr>env_pgdir := kva\<rparr>);
         let s = copy_page s kva (kern_pgdir s);
         pa \<leftarrow> PADDR kva;
         Some (0, kstore s (entry kva (PDX UVPT)) (pa OR PTE_P OR PTE_U))
       }
   }"

text \<open>The identifier for slot \<open>e\<close> whose previous user had \<open>old_id\<close>.\<close>

definition next_env_id :: "envid_t \<Rightarrow> nat \<Rightarrow> envid_t" where
  "next_env_id old_id e =
     (let generation = (old_id + push_bit ENVGENSHIFT 1) AND NOT 0x3FF;
          generation = (if sint generation \<le> 0 then push_bit ENVGENSHIFT 1 else generation)
      in generation OR of_nat e)"

definition env_alloc :: "kern \<Rightarrow> envid_t \<Rightarrow> (int \<times> nat option \<times> kern) option" where
  "env_alloc s parent_id =
     (case env_free_list s of
        None \<Rightarrow> Some (- E_NO_FREE_ENV, None, s)
      | Some e \<Rightarrow> do {
          (r, s) \<leftarrow> env_setup_vm s e;
          if r < 0 then Some (r, None, s)
          else do {
            let s = upd_env s e (\<lambda>v. v\<lparr>env_id := next_env_id (env_id v) e,
              env_parent_id := parent_id, env_type := ENV_TYPE_USER, env_status := ENV_RUNNABLE, env_runs := 0,
              env_tf := zero_tf\<lparr>tf_ds := GD_UD OR 3, tf_es := GD_UD OR 3, tf_ss := GD_UD OR 3,
                tf_esp := USTACKTOP, tf_cs := GD_UT OR 3, tf_eflags := FL_IF\<rparr>,
              env_pgfault_upcall := 0, env_ipc_recving := False\<rparr>);
            let s = s\<lparr>env_free_list := env_link (envs s ! e)\<rparr>;
            Some (0, Some e, s)
          }
        })"

text \<open>The loop of \<open>region_alloc\<close>; the result of \<open>page_insert\<close> is ignored, as in the code.\<close>

partial_function (option) region_loop :: "kern \<Rightarrow> u32 \<Rightarrow> u32 \<Rightarrow> u32 \<Rightarrow> kern option" where
  "region_loop s pgdir begin_va end_va =
     (if begin_va < end_va then do {
        (pg, s) \<leftarrow> page_alloc s 0;
        case pg of
          None \<Rightarrow> None
        | Some pg \<Rightarrow> do {
            (_, s) \<leftarrow> page_insert s pgdir pg begin_va (PTE_W OR PTE_U);
            region_loop s pgdir (begin_va + PGSIZE) end_va
          }
      } else Some s)"

definition region_alloc :: "kern \<Rightarrow> nat \<Rightarrow> u32 \<Rightarrow> u32 \<Rightarrow> kern option" where
  "region_alloc s e va len =
     region_loop s (env_pgdir (envs s ! e)) (ROUNDDOWN va PGSIZE) (ROUNDUP (va + len) PGSIZE)"

subsection \<open>Freeing an environment\<close>

text \<open>The body of the inner and of the outer loop of \<open>env_free\<close>.\<close>

definition free_pte :: "u32 \<Rightarrow> u32 \<Rightarrow> nat \<Rightarrow> nat \<Rightarrow> kern \<Rightarrow> kern option" where
  "free_pte pgdir pt pdeno pteno s =
     (if kload s (entry pt (of_nat pteno)) AND PTE_P \<noteq> 0
      then page_remove s pgdir (PGADDR (of_nat pdeno) (of_nat pteno) 0)
      else Some s)"

definition free_pde :: "u32 \<Rightarrow> nat \<Rightarrow> kern \<Rightarrow> kern option" where
  "free_pde pgdir pdeno s =
     (if kload s (entry pgdir (of_nat pdeno)) AND PTE_P = 0 then Some s
      else do {
        let pa = PTE_ADDR (kload s (entry pgdir (of_nat pdeno)));
        pt \<leftarrow> KADDR s pa;
        s \<leftarrow> fold_opt (free_pte pgdir pt pdeno) [0..<unat (PTX (NOT 0)) + 1] s;
        let s = kstore s (entry pgdir (of_nat pdeno)) 0;
        pp \<leftarrow> pa2page s pa;
        page_decref s pp
      })"

definition env_free :: "kern \<Rightarrow> nat \<Rightarrow> kern option" where
  "env_free s e = do {
     s \<leftarrow> (if curenv s = Some e then do { pa \<leftarrow> PADDR (kern_pgdir s); Some (s\<lparr>cr3 := pa\<rparr>) } else Some s);
     s \<leftarrow> fold_opt (free_pde (env_pgdir (envs s ! e))) [0..<unat (PDX UTOP)] s;
     pa \<leftarrow> PADDR (env_pgdir (envs s ! e));
     let s = upd_env s e (\<lambda>v. v\<lparr>env_pgdir := 0\<rparr>);
     pp \<leftarrow> pa2page s pa;
     s \<leftarrow> page_decref s pp;
     let s = upd_env s e (\<lambda>v. v\<lparr>env_status := ENV_FREE, env_link := env_free_list s\<rparr>);
     Some (s\<lparr>env_free_list := Some e\<rparr>)
   }"

subsection \<open>Environment identifiers\<close>

text \<open>
  An identifier is \<open>1024 * g + e\<close> for its slot \<open>e\<close> and a generation \<open>g\<close>; \<open>env_alloc\<close> never
  repeats the generation the slot had before.
\<close>

lemma ENVX_alt: "ENVX envid = unat envid mod 1024"
  by (simp add: ENVX_def mask_10_word unat_and_mask)

lemma ENVX_less [simp]: "ENVX envid < NENV" "ENVX envid < 1024"
  by (simp_all add: ENVX_alt NENV_def)

lemma next_generation:
  assumes "v < (4294967296 :: nat)" "u = (v + 4096) mod 4294967296"
    and "g = (if 2147483648 \<le> 1024 * (u div 1024) \<or> 1024 * (u div 1024) = 0 then 4 else u div 1024)"
  shows "1 \<le> g \<and> g < 2097152 \<and> g \<noteq> v div 1024"
proof (cases "v + 4096 < 4294967296")
  case True
  then have "u = v + 4096" using assms(2) by simp
  then have "u div 1024 = v div 1024 + 4" by simp
  then show ?thesis using assms(3) by (auto split: if_splits)
next
  case False
  then have "u = v + 4096 - 4294967296"
    using assms(1,2) by (simp add: mod_if)
  then have "u < 4096" using assms(1) by simp
  then have "u div 1024 < 4" by (simp add: div_less_iff_less_mult)
  moreover have "4194300 \<le> v div 1024" using False by simp
  ultimately show ?thesis using assms(3) by (auto split: if_splits)
qed

lemma unat_next_env_id:
  assumes "e < 1024"
  shows "\<exists>g. unat (next_env_id old_id e) = 1024 * g + e \<and> 1 \<le> g \<and> g < 2097152 \<and> g \<noteq> unat old_id div 1024"
proof -
  define w where "w = old_id + push_bit ENVGENSHIFT 1"
  have pb: "push_bit ENVGENSHIFT (1 :: u32) = 4096"
    by (simp add: ENVGENSHIFT_def)
  have uw: "unat w = (unat old_id + 4096) mod 4294967296"
    unfolding w_def pb by (simp add: unat_word_ariths)
  have ug: "unat (w AND NOT 0x3FF) = 1024 * (unat w div 1024)"
    by (simp only: mask_10_word unat_and_not_mask) (simp add: minus_mod_eq_mult_div)
  define gen where "gen = (if sint (w AND NOT 0x3FF) \<le> 0 then push_bit ENVGENSHIFT 1 else w AND NOT 0x3FF)"
  define g where "g = (if 2147483648 \<le> 1024 * (unat w div 1024) \<or> 1024 * (unat w div 1024) = 0 then 4 else unat w div 1024)"
  have gen: "unat gen = 1024 * g" "gen = gen AND NOT (mask 10)"
  proof -
    have sgn: "sint (w AND NOT 0x3FF) \<le> 0 \<longleftrightarrow> 2147483648 \<le> 1024 * (unat w div 1024) \<or> 1024 * (unat w div 1024) = 0"
      using sint_pos_u32 [of "w AND NOT 0x3FF"] unfolding ug by linarith
    show "unat gen = 1024 * g"
      unfolding gen_def g_def sgn by (simp only: pb ug if_distrib [of unat] split: if_split) simp
    show "gen = gen AND NOT (mask 10)"
    proof (cases "sint (w AND NOT 0x3FF) \<le> 0")
      case True
      then show ?thesis
        by (simp add: gen_def ENVGENSHIFT_def flip: mask_10_word)
    next
      case False
      have "w AND NOT (mask 10) = (w AND NOT (mask 10)) AND NOT (mask 10)"
        by (rule bit_word_eqI) (auto simp: bit_simps)
      with False show ?thesis
        by (simp only: gen_def if_False mask_10_word)
    qed
  qed
  have "next_env_id old_id e = gen OR of_nat e"
    by (simp only: next_env_id_def Let_def gen_def w_def)
  moreover have "unat (of_nat e :: u32) = e"
    using assms by (simp add: unat_of_nat)
  ultimately have "unat (next_env_id old_id e) = 1024 * g + e"
    using or_low_bits [of "of_nat e" 10 gen] assms gen(1) unfolding gen(2) [symmetric] by simp
  moreover have "1 \<le> g \<and> g < 2097152 \<and> g \<noteq> unat old_id div 1024"
    using next_generation [OF _ uw g_def] unat_less_32 [of old_id] by simp
  ultimately show ?thesis by blast
qed

lemma next_env_id_props:
  assumes "e < 1024"
  shows "ENVX (next_env_id old_id e) = e" "0 < sint (next_env_id old_id e)" "next_env_id old_id e \<noteq> old_id"
    "next_env_id old_id e \<noteq> 0"
proof -
  obtain g where g: "unat (next_env_id old_id e) = 1024 * g + e" "1 \<le> g" "g < 2097152" "g \<noteq> unat old_id div 1024"
    using unat_next_env_id [OF assms] by blast
  show "ENVX (next_env_id old_id e) = e"
    using assms by (simp add: ENVX_alt g)
  show "0 < sint (next_env_id old_id e)" "next_env_id old_id e \<noteq> 0"
    using g assms by (auto simp: sint_pos_u32 simp del: unat_eq_zero)
  have "unat (next_env_id old_id e) div 1024 \<noteq> unat old_id div 1024"
    using g assms by simp
  then show "next_env_id old_id e \<noteq> old_id" by metis
qed

subsection \<open>Freeing an address space\<close>

lemma unat_of_nat_u32: "n < 4294967296 \<Longrightarrow> unat (of_nat n :: u32) = n"
  by (simp add: unat_of_nat)

lemma PGADDR_fields:
  assumes "i < 1024" "j < 1024"
  shows "PDX (PGADDR (of_nat i) (of_nat j) 0) = of_nat i" "PTX (PGADDR (of_nat i) (of_nat j) 0) = of_nat j"
proof -
  have b: "bit i n \<Longrightarrow> n < 10" "bit j n \<Longrightarrow> n < 10" for n
    using assms take_bit_nat_eq_self [of i 10] take_bit_nat_eq_self [of j 10] bit_take_bit_iff [of 10 i n] bit_take_bit_iff [of 10 j n]
    by simp_all
  show "PDX (PGADDR (of_nat i) (of_nat j) 0) = of_nat i"
    unfolding PDX_def PGADDR_def mask_10_word
    by (rule bit_word_eqI) (auto simp: bit_simps dest: b)
  show "PTX (PGADDR (of_nat i) (of_nat j) 0) = of_nat j"
    unfolding PTX_def PGADDR_def mask_10_word
    by (rule bit_word_eqI) (auto simp: bit_simps dest: b)
qed

text \<open>Removing a page table without entries, and removing a directory without tables.\<close>

lemma pt_inv_drop_table:
  assumes inv: "pt_inv s Ds xs pend" and t: "tabs s Ds (d, i) = Some t"
    and e: "\<forall>j. mapped s Ds (d, i, j) = None"
  obtains s' where "page_decref (kstore s (entry (dir_kva d) i) 0) t = Some s'"
    "pt_inv s' Ds (t # xs) pend" "tabs s' Ds = (tabs s Ds)((d, i) := None)" "mapped s' Ds = mapped s Ds"
    "kframe s s'" "mem_frame {d} s s'" "leaks s' (t # xs) = leaks s xs"
proof -
  note D = pt_invD [OF inv]
  have d: "d \<in> Ds" "unat i < 955"
    using t by (auto simp: tabs_Some)
  define s1 where "s1 = kstore s (entry (dir_kva d) i) 0"
  have m1: "mem s1 = (mem s)(entry (page2pa d) i := 0)"
    by (simp add: s1_def entry_dir_kva kstore_mem)
  have tn: "t < npages s" "ref_of s t = 1" "pend t = 0"
    using D(2) t ranI [of "tabs s Ds"] by (auto simp: ref_inv_def)
  have f1: "free_inv s1 xs" "ref_of s1 = ref_of s" "npages s1 = npages s"
    using D(1) by (auto simp: s1_def free_inv_def)
  obtain s' where s': "page_decref s1 t = Some s'" "free_inv s' (t # xs)" "mem s' = mem s1" "kframe s1 s'"
    "ref_of s' = (ref_of s)(t := 0)"
  proof (rule page_decref_free_inv [OF f1(1), of t])
    show "t < npages s1" "ref_of s1 t \<noteq> 0"
      using tn f1 by simp_all
  qed (use tn f1(2) in auto)
  have m': "mem s' = (mem s)(entry (page2pa d) i := 0)"
    using s'(3) m1 by simp
  note S = view_store_pde [OF inv d m']
  have tabs': "tabs s' Ds = (tabs s Ds)((d, i) := None)"
    by (simp add: S(2) present_def)
  have map': "mapped s' Ds = mapped s Ds"
  proof
    fix k :: "nat \<times> u32 \<times> u32"
    obtain d' i' j' where k: "k = (d', i', j')" by (metis prod_cases3)
    show "mapped s' Ds k = mapped s Ds k"
    proof (cases "(d', i') = (d, i)")
      case True
      then have "mapped s Ds k = None" using e k by simp
      moreover have "mapped s' Ds k = None" using True k by (simp add: mapped_def tabs')
      ultimately show ?thesis by simp
    next
      case False
      then show ?thesis
        using S(3) [of d' i' j'] by (auto simp: mapped_def k tabs')
    qed
  qed
  have fr: "kframe s s'"
    using s'(4) by (simp add: kframe_def s1_def)
  have "clean s' Ds"
    using D(3) S(3) unfolding clean_def tabs' by (metis fun_upd_other fun_upd_same)
  moreover have "pend(t := 0) = pend"
    using tn(3) by auto
  ultimately have "pt_inv s' Ds (t # xs) pend"
    using s'(2,5) fr ref_inv_drop_table [OF D(2) t] by (simp add: pt_inv_def tabs' map' kframe_def)
  moreover have "mem_frame {d} s s'"
    using D(4) D(6) [OF d(1)] d(2) by (intro mem_frame_entry [OF m']) simp_all
  moreover have "leaks s' (t # xs) = leaks s xs"
    using tn fr by (auto simp: leaks_def s'(5) kframe_def)
  ultimately show thesis
    using that [of s'] s'(1) tabs' map' fr by (simp add: s1_def)
qed

lemma ref_inv_drop_dir:
  assumes inv: "ref_inv Ds T M ref n pend" and d: "d \<in> Ds"
  shows "ref_inv (Ds - {d}) T M (ref(d := 0)) n pend"
proof -
  have d: "d \<notin> ran T" "d \<notin> ran M" "pend d = 0"
    using inv d unfolding ref_inv_def by auto
  then have "count_refs M d = 0"
    by (auto simp: count_refs_def ran_def)
  then show ?thesis
    using inv d unfolding ref_inv_def by auto
qed

lemma pt_inv_drop_dir:
  assumes inv: "pt_inv s Ds xs pend" and d: "d \<in> Ds" and e: "\<forall>i. tabs s Ds (d, i) = None"
  obtains s' where "page_decref s d = Some s'" "pt_inv s' (Ds - {d}) (d # xs) pend"
    "tabs s' (Ds - {d}) = tabs s Ds" "mapped s' (Ds - {d}) = mapped s Ds" "kframe s s'" "mem s' = mem s"
    "leaks s' (d # xs) = leaks s xs"
proof -
  note D = pt_invD [OF inv]
  have dn: "d < npages s" "ref_of s d = 1"
    using D(2) d by (auto simp: ref_inv_def)
  obtain s' where s': "page_decref s d = Some s'" "free_inv s' (d # xs)" "mem s' = mem s" "kframe s s'"
    "ref_of s' = (ref_of s)(d := 0)"
  proof (rule page_decref_free_inv [OF D(1) dn(1)])
    show "ref_of s d \<noteq> 0" using dn by simp
  qed (use dn in auto)
  have pde: "pde_at s' = pde_at s"
    by (auto simp: pde_at_def s'(3) fun_eq_iff)
  have pte: "pte_at s' = pte_at s"
    by (auto simp: pte_at_def s'(3) pde fun_eq_iff)
  have tabs': "tabs s' (Ds - {d}) = tabs s Ds"
  proof
    fix k :: "nat \<times> u32"
    obtain d' i' where k: "k = (d', i')" by (metis surj_pair)
    show "tabs s' (Ds - {d}) k = tabs s Ds k"
      using e by (cases "d' = d") (simp_all add: k tabs_def pde)
  qed
  have map': "mapped s' (Ds - {d}) = mapped s Ds"
    unfolding mapped_def pte tabs' ..
  have "clean s' (Ds - {d})"
    using D(3) by (simp add: clean_def tabs' pte)
  then have "pt_inv s' (Ds - {d}) (d # xs) pend"
    using s'(2,4,5) ref_inv_drop_dir [OF D(2) d] by (simp add: pt_inv_def tabs' map' kframe_def)
  moreover have "leaks s' (d # xs) = leaks s xs"
    using dn s'(4) by (auto simp: leaks_def s'(5) kframe_def)
  ultimately show thesis
    using that [OF s'(1) _ tabs' map' s'(4,3)] by blast
qed

text \<open>The slots of the first \<open>k\<close> tables of directory \<open>d\<close>, and of the first \<open>k\<close> entries of one table.\<close>

abbreviation dir_slots :: "nat \<Rightarrow> nat \<Rightarrow> (nat \<times> u32) set" where
  "dir_slots d k \<equiv> {(d', i). d' = d \<and> unat i < k}"

abbreviation page_slots :: "nat \<Rightarrow> nat \<Rightarrow> (nat \<times> u32 \<times> u32) set" where
  "page_slots d k \<equiv> {(d', i, j). d' = d \<and> unat i < k}"

abbreviation table_slots :: "nat \<Rightarrow> nat \<Rightarrow> nat \<Rightarrow> (nat \<times> u32 \<times> u32) set" where
  "table_slots d i k \<equiv> {(d', i', j). d' = d \<and> i' = of_nat i \<and> unat j < k}"

lemma unat_less_Suc: "k < 4294967296 \<Longrightarrow> unat (i :: u32) < Suc k \<longleftrightarrow> unat i < k \<or> i = of_nat k"
proof -
  assume k: "k < 4294967296"
  have "unat i = k \<longleftrightarrow> i = of_nat k"
    using unat_of_nat_u32 [OF k] by auto
  then show ?thesis by auto
qed

lemma table_slots_Suc:
  assumes "k < 1024"
  shows "m |` (- table_slots d i (Suc k)) = (m |` (- table_slots d i k))((d, of_nat i, of_nat k) := None)"
  using assms by (auto simp: restrict_map_def fun_eq_iff unat_less_Suc)

lemma free_ptes:
  assumes inv: "pt_inv s Ds xs pend" and i: "i < 955" and t: "tabs s Ds (d, of_nat i) = Some t"
  shows "\<exists>s' xs'. fold_opt (free_pte (dir_kva d) (dir_kva t) i) [0..<1024] s = Some s' \<and> pt_inv s' Ds xs' pend \<and>
     tabs s' Ds = tabs s Ds \<and> mapped s' Ds = mapped s Ds |` (- table_slots d i 1024) \<and> kframe s s' \<and>
     mem_frame (ran (tabs s Ds)) s s' \<and> leaks s' xs' = leaks s xs"
proof -
  define I where "I k s' \<longleftrightarrow> (\<exists>xs'. pt_inv s' Ds xs' pend \<and> tabs s' Ds = tabs s Ds \<and>
     mapped s' Ds = mapped s Ds |` (- table_slots d i k) \<and> kframe s s' \<and>
     mem_frame (ran (tabs s Ds)) s s' \<and> leaks s' xs' = leaks s xs)" for k s'
  have d: "d \<in> Ds" using t by (simp add: tabs_Some)
  have step: "\<exists>s''. free_pte (dir_kva d) (dir_kva t) i k s' = Some s'' \<and> I (Suc k) s''"
    if k: "k < 1024" and I: "I k s'" for k s'
  proof -
    obtain xs' where s': "pt_inv s' Ds xs' pend" "tabs s' Ds = tabs s Ds"
      "mapped s' Ds = mapped s Ds |` (- table_slots d i k)" "kframe s s'"
      "mem_frame (ran (tabs s Ds)) s s'" "leaks s' xs' = leaks s xs"
      using I by (auto simp: I_def)
    define va where "va = PGADDR (of_nat i) (of_nat k) 0"
    have va: "PDX va = of_nat i" "PTX va = of_nat k" "user_va va"
      using i k PGADDR_fields [of i k] by (simp_all add: va_def user_va_PDX unat_of_nat_u32)
    have t': "tabs s' Ds (d, of_nat i) = Some t" using t s'(2) by simp
    have load: "kload s' (entry (dir_kva t) (of_nat k)) = pte_at s' d (of_nat i) (of_nat k)"
      by (simp only: entry_dir_kva kload_pte [OF t'])
    show ?thesis
    proof (cases "mapped s' Ds (d, PDX va, PTX va)")
      case None
      then have "\<not> present (pte_at s' d (of_nat i) (of_nat k))"
        using t' k by (auto simp: mapped_def va unat_of_nat_u32 split: if_splits)
      then have "free_pte (dir_kva d) (dir_kva t) i k s' = Some s'"
        by (simp add: free_pte_def load present_def)
      moreover have "mapped s' Ds = (mapped s' Ds)((d, PDX va, PTX va) := None)"
        using None by auto
      then have "mapped s' Ds = mapped s Ds |` (- table_slots d i (Suc k))"
        unfolding table_slots_Suc [OF k] s'(3) [symmetric] va .
      then have "I (Suc k) s'"
        unfolding I_def using s'(1,2,4-6) by blast
      ultimately show ?thesis by blast
    next
      case (Some p)
      then have pr: "present (pte_at s' d (of_nat i) (of_nat k))"
        by (simp add: mapped_Some va)
      obtain s'' where s'': "page_remove s' (dir_kva d) va = Some s''"
        "pt_inv s'' Ds (if ref_of s' p = 1 then p # xs' else xs') pend" "tabs s'' Ds = tabs s' Ds"
        "mapped s'' Ds = (mapped s' Ds)((d, PDX va, PTX va) := None)" "kframe s' s''"
        "mem_frame (ran (tabs s' Ds)) s' s''" "leaks s'' (if ref_of s' p = 1 then p # xs' else xs') = leaks s' xs'"
        using page_remove_mapped [OF s'(1) d va(3) Some] by metis
      have "mapped s'' Ds = mapped s Ds |` (- table_slots d i (Suc k))"
        unfolding table_slots_Suc [OF k] s''(4) s'(3) va ..
      moreover have "mem_frame (ran (tabs s Ds)) s s''"
        using s'(5) s''(6) unfolding s'(2) by (rule mem_frame_trans) simp
      moreover have "kframe s s''" using s'(4) s''(5) by (rule kframe_trans)
      ultimately have "I (Suc k) s''"
        unfolding I_def using s'(2,6) s''(2,3,7) by metis
      moreover have "free_pte (dir_kva d) (dir_kva t) i k s' = Some s''"
        using s''(1) pr by (simp add: free_pte_def load present_def va_def)
      ultimately show ?thesis by blast
    qed
  qed
  have "I 0 s"
    using inv by (auto simp: I_def restrict_map_def)
  then have "\<exists>s'. fold_opt (free_pte (dir_kva d) (dir_kva t) i) [0..<1024] s = Some s' \<and> I 1024 s'"
    using step by (rule fold_opt_upt)
  then show ?thesis
    unfolding I_def by blast
qed

lemma dir_slots_Suc:
  assumes "k < 1024"
  shows "m |` (- dir_slots d (Suc k)) = (m |` (- dir_slots d k))((d, of_nat k) := None)"
  using assms by (auto simp: restrict_map_def fun_eq_iff unat_less_Suc)

lemma page_slots_Suc:
  assumes "k < 1024" "\<And>j. m' (d, of_nat k, j) = None"
    and "\<And>d' i' j. (d', i') \<noteq> (d, of_nat k) \<Longrightarrow> m' (d', i', j) = (m |` (- page_slots d k)) (d', i', j)"
  shows "m' = m |` (- page_slots d (Suc k))"
proof
  fix x :: "nat \<times> u32 \<times> u32"
  obtain d' i' j where x: "x = (d', i', j)" by (metis prod_cases3)
  show "m' x = (m |` (- page_slots d (Suc k))) x"
    using assms by (cases "(d', i') = (d, of_nat k)") (auto simp: x restrict_map_def unat_less_Suc)
qed

lemma free_pde_spec:
  assumes inv: "pt_inv s Ds xs pend" and d: "d \<in> Ds" and i: "i < 955"
  shows "\<exists>s' xs'. free_pde (dir_kva d) i s = Some s' \<and> pt_inv s' Ds xs' pend \<and>
     tabs s' Ds = (tabs s Ds)((d, of_nat i) := None) \<and>
     mapped s' Ds = mapped s Ds |` (- table_slots d i 1024) \<and> kframe s s' \<and>
     mem_frame (insert d (ran (tabs s Ds))) s s' \<and> leaks s' xs' = leaks s xs"
proof (cases "tabs s Ds (d, of_nat i)")
  case None
  have "unat (of_nat i :: u32) < 955" using i by (simp add: unat_of_nat_u32)
  then have "\<not> present (pde_at s d (of_nat i))" using None d by (simp add: tabs_None)
  then have "free_pde (dir_kva d) i s = Some s"
    by (simp add: free_pde_def kload_pde present_def)
  moreover have "(tabs s Ds)((d, of_nat i) := None) = tabs s Ds" using None by auto
  moreover have "mapped s Ds |` (- table_slots d i 1024) = mapped s Ds"
  proof
    fix x
    show "(mapped s Ds |` (- table_slots d i 1024)) x = mapped s Ds x"
      using None by (cases x) (auto simp: restrict_map_def mapped_def)
  qed
  ultimately show ?thesis
    using inv by (intro exI [of _ s] exI [of _ xs]) simp
next
  case (Some t)
  note D = pt_invD [OF inv]
  have tn: "t < npages s" "npages s \<le> 1048576" using D(4) D(7) [OF Some] by auto
  obtain s1 xs1 where s1: "fold_opt (free_pte (dir_kva d) (dir_kva t) i) [0..<1024] s = Some s1"
    "pt_inv s1 Ds xs1 pend" "tabs s1 Ds = tabs s Ds" "mapped s1 Ds = mapped s Ds |` (- table_slots d i 1024)"
    "kframe s s1" "mem_frame (ran (tabs s Ds)) s s1" "leaks s1 xs1 = leaks s xs"
    using free_ptes [OF inv i Some] by blast
  have t1: "tabs s1 Ds (d, of_nat i) = Some t" using Some s1(3) by simp
  have e: "\<forall>j. mapped s1 Ds (d, of_nat i, j) = None"
    unfolding s1(4) by (auto simp: restrict_map_def mapped_def)
  obtain s' where s': "page_decref (kstore s1 (entry (dir_kva d) (of_nat i)) 0) t = Some s'"
    "pt_inv s' Ds (t # xs1) pend" "tabs s' Ds = (tabs s1 Ds)((d, of_nat i) := None)" "mapped s' Ds = mapped s1 Ds"
    "kframe s1 s'" "mem_frame {d} s1 s'" "leaks s' (t # xs1) = leaks s1 xs1"
    using pt_inv_drop_table [OF s1(2) t1 e] by metis
  have pde: "PTE_ADDR (pde_at s d (of_nat i)) = page2pa t" "pde_at s d (of_nat i) AND PTE_P \<noteq> 0"
    using Some by (simp_all add: table_page [OF Some]) (simp add: tabs_Some present_def)
  have "NOT 0 = (0xFFFFFFFF :: u32)"
    by simp
  then have "unat (PTX (NOT 0)) + 1 = 1024"
    by (simp only: unat_PTX) simp
  moreover have "npages s1 = npages s" using s1(5) by (simp add: kframe_def)
  ultimately have "free_pde (dir_kva d) i s = Some s'"
    using tn s1(1) s'(1) PGNUM_page2pa [of t]
    by (simp add: free_pde_def kload_pde pde KADDR_page2pa pa2page_def)
  moreover have "kframe s s'" using s1(5) s'(5) by (rule kframe_trans)
  moreover have "mem_frame (insert d (ran (tabs s Ds))) s s'"
    using s1(6) s'(6) by (rule mem_frame_trans) auto
  ultimately show ?thesis
    using s'(2,3,4,7) s1(3,4,7) by (intro exI [of _ s'] exI [of _ "t # xs1"]) simp
qed

lemma free_pdes:
  assumes inv: "pt_inv s Ds xs pend" and d: "d \<in> Ds"
  shows "\<exists>s' xs'. fold_opt (free_pde (dir_kva d)) [0..<955] s = Some s' \<and> pt_inv s' Ds xs' pend \<and>
     tabs s' Ds = tabs s Ds |` (- dir_slots d 955) \<and> mapped s' Ds = mapped s Ds |` (- page_slots d 955) \<and>
     kframe s s' \<and> mem_frame (insert d (ran (tabs s Ds))) s s' \<and> leaks s' xs' = leaks s xs"
proof -
  define I where "I k s' \<longleftrightarrow> (\<exists>xs'. pt_inv s' Ds xs' pend \<and> tabs s' Ds = tabs s Ds |` (- dir_slots d k) \<and>
     mapped s' Ds = mapped s Ds |` (- page_slots d k) \<and> kframe s s' \<and>
     mem_frame (insert d (ran (tabs s Ds))) s s' \<and> leaks s' xs' = leaks s xs)" for k s'
  have step: "\<exists>s''. free_pde (dir_kva d) k s' = Some s'' \<and> I (Suc k) s''"
    if k: "k < 955" and I: "I k s'" for k s'
  proof -
    obtain xs' where s': "pt_inv s' Ds xs' pend" "tabs s' Ds = tabs s Ds |` (- dir_slots d k)"
      "mapped s' Ds = mapped s Ds |` (- page_slots d k)" "kframe s s'"
      "mem_frame (insert d (ran (tabs s Ds))) s s'" "leaks s' xs' = leaks s xs"
      using I by (auto simp: I_def)
    obtain s'' xs'' where s'': "free_pde (dir_kva d) k s' = Some s''" "pt_inv s'' Ds xs'' pend"
      "tabs s'' Ds = (tabs s' Ds)((d, of_nat k) := None)"
      "mapped s'' Ds = mapped s' Ds |` (- table_slots d k 1024)" "kframe s' s''"
      "mem_frame (insert d (ran (tabs s' Ds))) s' s''" "leaks s'' xs'' = leaks s' xs'"
      using free_pde_spec [OF s'(1) d k] by blast
    have "mapped s'' Ds = mapped s Ds |` (- page_slots d (Suc k))"
    proof (rule page_slots_Suc)
      show "mapped s'' Ds (d, of_nat k, j) = None" for j
        unfolding s''(4) by (auto simp: restrict_map_def mapped_def)
      show "mapped s'' Ds (d', i', j) = (mapped s Ds |` (- page_slots d k)) (d', i', j)"
        if "(d', i') \<noteq> (d, of_nat k)" for d' i' j
        using that by (auto simp: s''(4) s'(3) restrict_map_def)
    qed (use k in simp)
    moreover have "tabs s'' Ds = tabs s Ds |` (- dir_slots d (Suc k))"
      using k by (simp only: s''(3) s'(2)) (subst dir_slots_Suc, simp_all)
    moreover have "ran (tabs s' Ds) \<subseteq> ran (tabs s Ds)"
      by (auto simp: s'(2) ran_def restrict_map_def split: if_splits)
    then have "mem_frame (insert d (ran (tabs s Ds))) s s''"
      using mem_frame_trans [OF s'(5) s''(6)] by blast
    moreover have "kframe s s''" using s'(4) s''(5) by (rule kframe_trans)
    ultimately have "I (Suc k) s''"
      unfolding I_def using s'(6) s''(2,7) by metis
    with s''(1) show ?thesis by blast
  qed
  have "I 0 s"
    using inv by (auto simp: I_def restrict_map_def)
  then have "\<exists>s'. fold_opt (free_pde (dir_kva d)) [0..<955] s = Some s' \<and> I 955 s'"
    using step by (rule fold_opt_upt)
  then show ?thesis
    unfolding I_def by blast
qed

subsection \<open>The invariant of the kernel\<close>

text \<open>
  \<open>env_inv s fs\<close>: the free list of environments visits exactly the free slots \<open>fs\<close>, and a slot in use
  has a positive identifier that names it. \<open>kinv\<close> adds that the directories of the environments in use
  are distinct and well-formed, that \<open>kern_pgdir\<close> has no user mappings, and that no page is lost.
\<close>

definition env_inv :: "kern \<Rightarrow> nat list \<Rightarrow> bool" where
  "env_inv s fs \<longleftrightarrow> length (envs s) = NENV \<and> linked (\<lambda>i. env_link (envs s ! i)) (env_free_list s) fs \<and>
     distinct fs \<and> set fs = {i. i < NENV \<and> env_status (envs s ! i) = ENV_FREE} \<and>
     (\<forall>i < NENV. env_status (envs s ! i) \<noteq> ENV_FREE \<longrightarrow>
        ENVX (env_id (envs s ! i)) = i \<and> 0 < sint (env_id (envs s ! i)))"

definition live :: "kern \<Rightarrow> nat set" where
  "live s = {i. i < NENV \<and> env_status (envs s ! i) \<noteq> ENV_FREE}"

definition dir_of :: "kern \<Rightarrow> nat \<Rightarrow> nat" where
  "dir_of s i = unat (PGNUM (env_pgdir (envs s ! i) - KERNBASE))"

definition env_dirs :: "kern \<Rightarrow> nat set" where "env_dirs s = dir_of s ` live s"

definition template_ok :: "kern \<Rightarrow> (nat \<Rightarrow> nat) \<Rightarrow> bool" where
  "template_ok s pend \<longleftrightarrow> (\<exists>k. kern_pgdir s = dir_kva k \<and> k < npages s \<and> 0 < pend k \<and>
     (\<forall>i. unat i < 955 \<longrightarrow> pde_at s k i = 0))"

definition kinv :: "kern \<Rightarrow> nat list \<Rightarrow> nat list \<Rightarrow> (nat \<Rightarrow> nat) \<Rightarrow> bool" where
  "kinv s xs fs pend \<longleftrightarrow> env_inv s fs \<and> pt_inv s (env_dirs s) xs pend \<and> leaks s xs = {} \<and>
     (\<forall>i \<in> live s. env_pgdir (envs s ! i) = dir_kva (dir_of s i)) \<and> inj_on (dir_of s) (live s) \<and>
     template_ok s pend \<and> npages s \<le> 65536"

lemma pt_inv_cong:
  assumes "mem s' = mem s" "pages s' = pages s" "npages s' = npages s" "page_free_list s' = page_free_list s"
  shows "pt_inv s' Ds xs pend = pt_inv s Ds xs pend" "tabs s' Ds = tabs s Ds" "mapped s' Ds = mapped s Ds"
    "leaks s' xs = leaks s xs" "va_pte s' = va_pte s" "pde_at s' = pde_at s"
proof -
  show pde: "pde_at s' = pde_at s"
    by (auto simp: pde_at_def assms(1) fun_eq_iff)
  have pte: "pte_at s' = pte_at s"
    by (auto simp: pte_at_def assms(1) pde fun_eq_iff)
  show tabs: "tabs s' Ds = tabs s Ds" unfolding tabs_def pde ..
  show mapped: "mapped s' Ds = mapped s Ds" unfolding mapped_def pte tabs ..
  show "pt_inv s' Ds xs pend = pt_inv s Ds xs pend"
    using free_inv_cong [OF assms(2-4)] page_fields_cong [OF assms(2)] assms(3)
    by (simp add: pt_inv_def tabs mapped clean_def pte)
  show "leaks s' xs = leaks s xs"
    by (simp add: leaks_def page_fields_cong [OF assms(2)] assms(3))
  show "va_pte s' = va_pte s"
    by (auto simp: va_pte_def pde pte fun_eq_iff)
qed

lemma PADDR_dir_kva: "d < npages s \<Longrightarrow> npages s \<le> 65536 \<Longrightarrow> PADDR (dir_kva d) = Some (page2pa d)"
proof -
  assume "d < npages s" "npages s \<le> 65536"
  then have "unat (page2pa d) < 268435456"
    by (simp add: unat_page2pa)
  then have "KERNBASE \<le> dir_kva d"
    by (simp add: word_le_nat_alt KERNBASE_def unat_word_ariths)
  then show ?thesis
    by (simp add: PADDR_def)
qed

lemma kinvD:
  assumes "kinv s xs fs pend"
  shows "env_inv s fs" "pt_inv s (env_dirs s) xs pend" "leaks s xs = {}" "npages s \<le> 65536"
    "i \<in> live s \<Longrightarrow> env_pgdir (envs s ! i) = dir_kva (dir_of s i)" "i \<in> live s \<Longrightarrow> dir_of s i \<in> env_dirs s"
    "inj_on (dir_of s) (live s)" "template_ok s pend" "length (envs s) = NENV"
    "i \<in> live s \<Longrightarrow> i < NENV" "i \<in> live s \<Longrightarrow> dir_of s i < npages s"
  using assms pt_invD(6) [of s "env_dirs s" xs pend] by (auto simp: kinv_def env_dirs_def env_inv_def live_def)

lemma template_frame:
  assumes "template_ok s pend" "pt_inv s Ds xs pend" "mem_frame (pt_pages s Ds xs) s s'" "kframe s s'"
  shows "template_ok s' pend"
proof -
  note D = pt_invD [OF assms(2)]
  obtain k where k: "kern_pgdir s = dir_kva k" "k < npages s" "0 < pend k" "\<forall>i. unat i < 955 \<longrightarrow> pde_at s k i = 0"
    using assms(1) by (auto simp: template_ok_def)
  have "k \<notin> Ds" "k \<notin> ran (tabs s Ds)"
    using D(2) k(3) by (auto simp: ref_inv_def)
  moreover have "k \<notin> set xs"
  proof
    assume "k \<in> set xs"
    then have "ref_of s k = 0" using D(1) by (auto simp: free_inv_def)
    then show False using ref_inv_unreferenced(4) [OF D(2)] k by auto
  qed
  moreover have "unat (PGNUM (entry (page2pa k) i)) = k" if "unat i < 955" for i
    using that k(2) D(4) by (intro PGNUM_entry) simp_all
  ultimately have "pde_at s' k i = pde_at s k i" if "unat i < 955" for i
    using that assms(3) unfolding mem_frame_def pde_at_def by simp
  then show ?thesis
    using k assms(4) by (auto simp: template_ok_def kframe_def)
qed

lemma env_dirs_cong: "envs s' = envs s \<Longrightarrow> env_dirs s' = env_dirs s \<and> live s' = live s \<and> dir_of s' = dir_of s"
  by (auto simp: env_dirs_def live_def dir_of_def fun_eq_iff)

text \<open>Operations that only change pages and page tables keep the invariant.\<close>

lemma kinv_pages:
  assumes "kinv s xs fs pend" "kframe s s'" "mem_frame (pt_pages s (env_dirs s) xs) s s'"
    and "pt_inv s' (env_dirs s) xs' pend" "leaks s' xs' = {}"
  shows "kinv s' xs' fs pend"
proof -
  have e: "envs s' = envs s" using assms(2) by (simp add: kframe_def)
  have "template_ok s' pend"
    using assms kinvD(2,8) [OF assms(1)] by (blast intro: template_frame)
  moreover have "env_inv s' fs"
    using kinvD(1) [OF assms(1)] assms(2) by (simp add: env_inv_def kframe_def)
  ultimately show ?thesis
    using assms(1,2,4,5) env_dirs_cong [OF e] e by (simp add: kinv_def kframe_def)
qed

lemma leaks_Nil_frame: "leaks s xs = {} \<Longrightarrow> leaks s' xs' = leaks s xs \<Longrightarrow> leaks s' xs' = {}"
  by simp

lemma live_drop:
  assumes "kinv s xs fs pend" "e \<in> live s"
  shows "dir_of s ` (live s - {e}) = env_dirs s - {dir_of s e}"
  using kinvD(7) [OF assms(1)] assms(2) by (auto simp: env_dirs_def inj_on_def)

lemma env_free_spec:
  assumes inv: "kinv s xs fs pend" and e: "e \<in> live s"
  shows "\<exists>s' xs'. env_free s e = Some s' \<and> kinv s' xs' (e # fs) pend \<and> live s' = live s - {e} \<and>
     mapped s' (env_dirs s') = mapped s (env_dirs s) |` {(d, i, j). d \<noteq> dir_of s e} \<and>
     (\<forall>i. i \<noteq> e \<longrightarrow> envs s' ! i = envs s ! i) \<and> curenv s' = curenv s \<and> kern_pgdir s' = kern_pgdir s \<and>
     cr3 s' = (if curenv s = Some e then kern_pgdir s - KERNBASE else cr3 s) \<and> npages s' = npages s \<and>
     env_id (envs s' ! e) = env_id (envs s ! e) \<and> dir_of s e \<in> set xs'"
proof -
  note K = kinvD [OF inv]
  let ?Ds = "env_dirs s" and ?d = "dir_of s e"
  have d: "?d \<in> ?Ds" "?d < npages s" "e < length (envs s)"
    using K(6,11,10) [of e] K(9) e by simp_all
  obtain k where k: "kern_pgdir s = dir_kva k" "k < npages s"
    using K(8) by (auto simp: template_ok_def)
  define s0 where "s0 = (if curenv s = Some e then s\<lparr>cr3 := page2pa k\<rparr> else s)"
  have step0: "(if curenv s = Some e then do { pa \<leftarrow> PADDR (kern_pgdir s); Some (s\<lparr>cr3 := pa\<rparr>) } else Some s) = Some s0"
    using PADDR_dir_kva [OF k(2) K(4)] by (simp add: s0_def k(1))
  have same0: "mem s0 = mem s" "pages s0 = pages s" "npages s0 = npages s" "page_free_list s0 = page_free_list s"
    "envs s0 = envs s" "env_free_list s0 = env_free_list s" "curenv s0 = curenv s" "kern_pgdir s0 = kern_pgdir s"
    by (simp_all add: s0_def)
  note C0 = pt_inv_cong [OF same0(1-4)]
  have inv0: "pt_inv s0 ?Ds xs pend" using C0(1) K(2) by simp
  obtain s1 xs1 where s1: "fold_opt (free_pde (dir_kva ?d)) [0..<955] s0 = Some s1" "pt_inv s1 ?Ds xs1 pend"
    "tabs s1 ?Ds = tabs s0 ?Ds |` (- dir_slots ?d 955)" "mapped s1 ?Ds = mapped s0 ?Ds |` (- page_slots ?d 955)"
    "kframe s0 s1" "mem_frame (insert ?d (ran (tabs s0 ?Ds))) s0 s1" "leaks s1 xs1 = leaks s0 xs"
    using free_pdes [OF inv0 d(1)] by blast
  have empty: "\<forall>i. tabs s1 ?Ds (?d, i) = None"
    unfolding s1(3) by (auto simp: restrict_map_def tabs_def UPDES)
  define s2 where "s2 = upd_env s1 e (\<lambda>v. v\<lparr>env_pgdir := 0\<rparr>)"
  have same2: "mem s2 = mem s1" "pages s2 = pages s1" "npages s2 = npages s1" "page_free_list s2 = page_free_list s1"
    by (simp_all add: s2_def)
  note C2 = pt_inv_cong [OF same2]
  obtain s3 where s3: "page_decref s2 ?d = Some s3" "pt_inv s3 (?Ds - {?d}) (?d # xs1) pend"
    "mapped s3 (?Ds - {?d}) = mapped s2 ?Ds" "kframe s2 s3" "mem s3 = mem s2" "leaks s3 (?d # xs1) = leaks s2 xs1"
    using pt_inv_drop_dir [of s2 ?Ds xs1 pend ?d] s1(2) d(1) empty C2(1,2) by metis
  define s4 where "s4 = (upd_env s3 e (\<lambda>v. v\<lparr>env_status := ENV_FREE, env_link := env_free_list s3\<rparr>))\<lparr>env_free_list := Some e\<rparr>"
  have same4: "mem s4 = mem s3" "pages s4 = pages s3" "npages s4 = npages s3" "page_free_list s4 = page_free_list s3"
    by (simp_all add: s4_def)
  note C4 = pt_inv_cong [OF same4]
  have f1: "envs s1 = envs s" "env_free_list s1 = env_free_list s" "npages s1 = npages s"
    using s1(5) same0 by (simp_all add: kframe_def)
  have f4: "envs s4 = (envs s)[e := (envs s ! e)\<lparr>env_pgdir := 0, env_status := ENV_FREE, env_link := env_free_list s\<rparr>]"
    using s3(4) f1 d(3) by (simp add: s4_def s2_def kframe_def upd_env_def)
  have pdx: "unat (PDX UTOP) = 955" by (rule UPDES)
  have run: "env_free s e = Some s4"
    using step0 s1(1) s3(1) PADDR_dir_kva [OF d(2) K(4)] PGNUM_page2pa [of ?d] d(2) K(4) f1 K(5) [OF e] same0
    unfolding env_free_def by (simp add: pdx pa2page_def same0 flip: s2_def s4_def)
  have nth4: "envs s4 ! i = (if i = e then (envs s ! e)\<lparr>env_pgdir := 0, env_status := ENV_FREE, env_link := env_free_list s\<rparr>
      else envs s ! i)" for i
    using d(3) by (simp add: f4 nth_list_update)
  have live4: "live s4 = live s - {e}"
    using e by (auto simp: live_def nth4 split: if_splits)
  have dir4: "dir_of s4 i = dir_of s i" if "i \<noteq> e" for i
    using that by (simp add: dir_of_def nth4)
  have "env_dirs s4 = dir_of s ` (live s - {e})"
    unfolding env_dirs_def live4 by (intro image_cong) (auto simp: dir4)
  then have dirs4: "env_dirs s4 = ?Ds - {?d}"
    by (simp add: live_drop [OF inv e])
  have frame: "npages s4 = npages s" "curenv s4 = curenv s" "kern_pgdir s4 = kern_pgdir s" "cr3 s4 = cr3 s0"
    "env_free_list s4 = Some e"
    using s3(4) s1(5) same0 by (simp_all add: s4_def s2_def kframe_def upd_env_def)
  have "mem_frame (insert ?d (ran (tabs s0 ?Ds))) s s4"
    using s1(6) same0(1) same2(1) s3(5) same4(1) by (simp add: mem_frame_def)
  then have "mem_frame (pt_pages s ?Ds xs) s s4"
    by (rule mem_frame_mono) (use C0(2) d(1) in auto)
  then have tmpl: "template_ok s4 pend"
    using template_frame [OF K(8,2), of "s4\<lparr>envs := envs s, env_free_list := env_free_list s, cr3 := cr3 s\<rparr>"] frame
    by (simp add: mem_frame_def kframe_def template_ok_def pde_at_def)
  have "env_inv s4 (e # fs)"
  proof -
    have enf: "e \<notin> set fs" "linked (\<lambda>i. env_link (envs s ! i)) (env_free_list s) fs"
      using K(1) e by (auto simp: env_inv_def live_def)
    then have "linked (\<lambda>i. env_link (envs s4 ! i)) (env_free_list s) fs"
      by (subst linked_cong [of fs _ "\<lambda>i. env_link (envs s ! i)"]) (auto simp: nth4)
    moreover have "length (envs s4) = NENV" using K(9) by (simp add: f4)
    ultimately show ?thesis
      using K(1) enf e frame(5) d(3) by (auto simp: env_inv_def nth4 live_def split: if_splits)
  qed
  moreover have "pt_inv s4 (env_dirs s4) (?d # xs1) pend"
    unfolding dirs4 C4(1) by (rule s3(2))
  moreover have "leaks s4 (?d # xs1) = {}"
    using s3(6) C2(4) s1(7) C0(4) K(3) C4(4) by simp
  moreover have "\<forall>i \<in> live s4. env_pgdir (envs s4 ! i) = dir_kva (dir_of s4 i)"
    using K(5) live4 dir4 nth4 by auto
  moreover have "inj_on (dir_of s4) (live s4)"
    using K(7) unfolding live4 inj_on_def by (auto simp: dir4)
  ultimately have "kinv s4 (?d # xs1) (e # fs) pend"
    using tmpl frame(1) K(4) by (simp add: kinv_def)
  moreover have "mapped s4 (env_dirs s4) = mapped s ?Ds |` {(d, i, j). d \<noteq> ?d}"
  proof -
    have "mapped s4 (env_dirs s4) = mapped s ?Ds |` (- page_slots ?d 955)"
      unfolding dirs4 C4(3) s3(3) C2(3) s1(4) C0(3) ..
    also have "\<dots> = mapped s ?Ds |` {(d, i, j). d \<noteq> ?d}"
      by (auto simp: restrict_map_def fun_eq_iff mapped_def tabs_def UPDES)
    finally show ?thesis .
  qed
  moreover have "cr3 s0 = (if curenv s = Some e then kern_pgdir s - KERNBASE else cr3 s)"
    by (simp add: s0_def k)
  ultimately show ?thesis
    using run live4 nth4 frame by (intro exI [of _ s4] exI [of _ "?d # xs1"]) simp
qed

end
