(* ===== verification/JosEnvCreate.thy ===== *)
theory JosEnvCreate
  imports JosEnv
begin

text \<open>
  \<open>env_init\<close>, \<open>env_alloc\<close>, \<open>envid2env\<close> and \<open>env_free\<close> of kern/env.c under the kernel invariant
  \<open>kinv\<close>: what an environment is when it is created, which identifiers name it, and what remains when it is
  freed.
\<close>

subsection \<open>Creating an environment\<close>

lemma ref_inv_new_dir:
  assumes inv: "ref_inv Ds T M ref n pend" and x: "ref x = 0" "x < n"
  shows "ref_inv (insert x Ds) T M (ref(x := 1)) n pend"
  using inv x ref_inv_unreferenced [OF inv x] unfolding ref_inv_def by auto

lemma pt_inv_new_dir:
  assumes inv: "pt_inv s Ds (x # xs) pend" and s': "free_inv s' xs" "ref_of s' = (ref_of s)(x := 1)"
    "mem_frame {x} s s'" "npages s' = npages s" and z: "\<forall>i. unat i < 955 \<longrightarrow> pde_at s' x i = 0"
  shows "pt_inv s' (insert x Ds) xs pend" "mapped s' (insert x Ds) = mapped s Ds" "leaks s' xs = leaks s (x # xs)"
proof -
  note D = pt_invD [OF inv]
  have x: "x < npages s" "ref_of s x = 0" "x \<notin> set xs"
    using D(1) by (auto simp: free_inv_def)
  note F = ref_inv_unreferenced [OF D(2) x(2,1)]
  have "mem s' a = mem s a"
    if a: "(\<exists>d \<in> Ds. PTE_ADDR a = page2pa d) \<or> (\<exists>t \<in> ran (tabs s Ds). PTE_ADDR a = page2pa t)" for a
  proof -
    obtain q where q: "q \<in> Ds \<union> ran (tabs s Ds)" "PTE_ADDR a = page2pa q"
      using a by auto
    then have "q < 1048576"
      using D(2,4) by (auto simp: ref_inv_def)
    then have "unat (PGNUM a) = q"
      using q(2) PGNUM_page2pa by (metis PGNUM_PTE_ADDR)
    then show ?thesis
      using q(1) F(1,2) s'(3) by (auto simp: mem_frame_def)
  qed
  note V = view_unchanged [OF inv this]
  have tabs': "tabs s' (insert x Ds) = tabs s Ds"
  proof
    fix k :: "nat \<times> u32"
    obtain d i where k: "k = (d, i)" by (metis surj_pair)
    show "tabs s' (insert x Ds) k = tabs s Ds k"
    proof (cases "d = x")
      case True
      then show ?thesis using z F(1) by (simp add: k tabs_def UPDES present_def)
    next
      case False
      then have "tabs s' (insert x Ds) k = tabs s' Ds k" by (simp add: k tabs_def)
      then show ?thesis by (simp add: V(1))
    qed
  qed
  show map': "mapped s' (insert x Ds) = mapped s Ds"
  proof -
    have "tabs s' (insert x Ds) = tabs s' Ds" by (simp add: tabs' V(1))
    then have "mapped s' (insert x Ds) = mapped s' Ds" by (simp add: mapped_def)
    then show ?thesis by (simp add: V(2))
  qed
  have "clean s' (insert x Ds)"
    using D(3) V(3) V(1) by (simp add: clean_def tabs')
  then show "pt_inv s' (insert x Ds) xs pend"
    using s'(1,4) ref_inv_new_dir [OF D(2) x(2,1)] by (simp add: pt_inv_def tabs' map' s'(2))
  show "leaks s' xs = leaks s (x # xs)"
    using x s'(4) by (auto simp: leaks_def s'(2))
qed

lemma PGOFF_entry: "unat i < 1024 \<Longrightarrow> PGOFF (entry (page2pa p) i) = 4 * i"
proof -
  assume "unat i < 1024"
  then have "PTE_ADDR (entry (page2pa p) i) = page2pa p" by simp
  then have "entry (page2pa p) i = page2pa p + PGOFF (entry (page2pa p) i)"
    using PTE_ADDR_plus_PGOFF [of "entry (page2pa p) i"] by metis
  then show ?thesis
    by (simp add: entry_def)
qed

lemma PDX_UVPT: "unat (PDX UVPT) = 957"
  by (simp add: unat_PDX layout_defs)

lemma copy_page_simps [simp]:
  "npages (copy_page s p q) = npages s" "pages (copy_page s p q) = pages s"
  "page_free_list (copy_page s p q) = page_free_list s" "kern_pgdir (copy_page s p q) = kern_pgdir s"
  "envs (copy_page s p q) = envs s" "curenv (copy_page s p q) = curenv s"
  "env_free_list (copy_page s p q) = env_free_list s" "cr3 (copy_page s p q) = cr3 s"
  "ref_of (copy_page s p q) = ref_of s" "link_of (copy_page s p q) = link_of s"
  by (auto simp: copy_page_def ref_of_def link_of_def fun_eq_iff)

lemma copy_page_entry:
  assumes "unat i < 1024"
  shows "mem (copy_page s (dir_kva x) (dir_kva k)) (entry (page2pa x) i) = mem s (entry (page2pa k) i)"
proof -
  have "page2pa k + 4 * i = entry (page2pa k) i" by (simp add: entry_def)
  then show ?thesis
    using assms PGOFF_entry [OF assms, of x] by (simp add: copy_page_def)
qed

lemma env_setup_vm_spec:
  assumes inv: "pt_inv s Ds (x # xs) pend" and k: "kern_pgdir s = dir_kva k" "k < npages s" "k \<noteq> x"
    and z: "\<forall>i. unat i < 955 \<longrightarrow> pde_at s k i = 0" and n: "npages s \<le> 65536"
  obtains s' where "env_setup_vm s e = Some (0, s')" "pt_inv s' (insert x Ds) xs pend"
    "mapped s' (insert x Ds) = mapped s Ds" "leaks s' xs = leaks s (x # xs)" "mem_frame {x} s s'"
    "envs s' = (envs s)[e := (envs s ! e)\<lparr>env_pgdir := dir_kva x\<rparr>]"
    "env_free_list s' = env_free_list s" "curenv s' = curenv s" "kern_pgdir s' = kern_pgdir s" "cr3 s' = cr3 s"
    "npages s' = npages s" "pde_at s' x (PDX UVPT) = page2pa x OR PTE_P OR PTE_U"
    "\<And>i. unat i < 1024 \<Longrightarrow> i \<noteq> PDX UVPT \<Longrightarrow> pde_at s' x i = pde_at s k i"
proof -
  obtain r s1 where s1: "page_alloc s ALLOC_ZERO = Some (r, s1)"
    using page_alloc_Cons [OF pt_invD(1) [OF inv]] by blast
  note A = pt_inv_alloc [OF inv s1]
  have x: "x < npages s" "x < length (pages s1)"
    using A(4,9) pt_invD(5) [OF A(2)] by (auto simp: kframe_def)
  have xn: "x < 1048576" using x(1) n by simp
  define s2 where "s2 = upd_page s1 x (\<lambda>q. q\<lparr>pp_ref := pp_ref q + 1\<rparr>)"
  define s3 where "s3 = copy_page (upd_env s2 e (\<lambda>v. v\<lparr>env_pgdir := dir_kva x\<rparr>)) (dir_kva x) (dir_kva k)"
  define s' where "s' = kstore s3 (entry (dir_kva x) (PDX UVPT)) (page2pa x OR PTE_P OR PTE_U)"
  have fr: "npages s1 = npages s" "envs s1 = envs s" "env_free_list s1 = env_free_list s" "curenv s1 = curenv s"
    "kern_pgdir s1 = kern_pgdir s" "cr3 s1 = cr3 s"
    using A(9) by (simp_all add: kframe_def)
  have run: "env_setup_vm s e = Some (0, s')"
    using x(1) n fr k(1) PADDR_dir_kva [OF x(1) n]
    by (simp add: env_setup_vm_def s1 A(1) page2kva_def KADDR_page2pa s'_def s3_def s2_def)
  have m: "mem s' = (mem s3)(entry (page2pa x) (PDX UVPT) := page2pa x OR PTE_P OR PTE_U)"
    by (simp add: s'_def entry_dir_kva kstore_mem)
  have uv: "pde_at s' x (PDX UVPT) = page2pa x OR PTE_P OR PTE_U"
    by (simp add: pde_at_def m)
  have pde: "pde_at s' x i = pde_at s k i" if "unat i < 1024" "i \<noteq> PDX UVPT" for i
  proof -
    have "entry (page2pa x) i \<noteq> entry (page2pa x) (PDX UVPT)"
      using that by (simp add: entry_inject PDX_UVPT)
    then have "pde_at s' x i = mem s2 (entry (page2pa k) i)"
      using that(1) by (simp add: pde_at_def m s3_def copy_page_entry)
    also have "\<dots> = pde_at s k i"
      using page_alloc_mem [OF pt_invD(1) [OF inv] s1] PGNUM_entry [of k i] k(2,3) n that(1)
      by (simp add: s2_def pde_at_def)
    finally show ?thesis .
  qed
  have "mem s3 a = mem s a" if "unat (PGNUM a) \<noteq> x" for a
  proof -
    have "PTE_ADDR a \<noteq> page2pa x"
      using that PGNUM_page2pa [OF xn] by (metis PGNUM_PTE_ADDR)
    then show ?thesis
      using that page_alloc_mem [OF pt_invD(1) [OF inv] s1] by (simp add: s3_def copy_page_def s2_def)
  qed
  then have mf: "mem_frame {x} s s'"
    using PGNUM_entry [of x "PDX UVPT"] x(1) n by (auto simp: mem_frame_def m PDX_UVPT)
  have ref: "ref_of s' = (ref_of s)(x := 1)"
    using x(2) A(3,5) by (simp add: s'_def s3_def s2_def)
  have "free_inv s' xs"
    using pt_invD(1) [OF A(2)] ref A(3,5,6) by (auto simp: free_inv_def s'_def s3_def s2_def)
  moreover have "\<forall>i. unat i < 955 \<longrightarrow> pde_at s' x i = 0"
  proof (intro allI impI)
    fix i :: u32
    assume i: "unat i < 955"
    then have "i \<noteq> PDX UVPT" using PDX_UVPT by auto
    then show "pde_at s' x i = 0" using pde [of i] z i by simp
  qed
  moreover have np: "npages s' = npages s"
    using fr by (simp add: s'_def s3_def s2_def)
  ultimately show thesis
    using that [OF run _ _ _ mf _ _ _ _ _ np uv pde] pt_inv_new_dir [OF inv _ ref mf np] fr
    by (simp add: s'_def s3_def s2_def) (simp add: upd_env_def)
qed

lemma kinv_template_page:
  assumes "kinv s (x # xs) fs pend"
  obtains k where "kern_pgdir s = dir_kva k" "k < npages s" "k \<noteq> x" "\<forall>i. unat i < 955 \<longrightarrow> pde_at s k i = 0" "0 < pend k"
proof -
  note K = kinvD [OF assms]
  obtain k where k: "kern_pgdir s = dir_kva k" "k < npages s" "0 < pend k" "\<forall>i. unat i < 955 \<longrightarrow> pde_at s k i = 0"
    using K(8) by (auto simp: template_ok_def)
  have "ref_of s x = 0" "x < npages s"
    using pt_invD(1) [OF K(2)] by (simp_all add: free_inv_def)
  then have "pend x = 0"
    by (rule ref_inv_unreferenced(4) [OF pt_invD(2) [OF K(2)]])
  then have "k \<noteq> x" using k(3) by auto
  then show thesis
    by (rule that [OF k(1,2) _ k(4,3)])
qed

lemma env_invD:
  assumes "env_inv s fs"
  shows "length (envs s) = NENV" "linked (\<lambda>i. env_link (envs s ! i)) (env_free_list s) fs" "distinct fs"
    "i \<in> set fs \<longleftrightarrow> i < NENV \<and> env_status (envs s ! i) = ENV_FREE"
    "i < NENV \<Longrightarrow> env_status (envs s ! i) \<noteq> ENV_FREE \<Longrightarrow> ENVX (env_id (envs s ! i)) = i \<and> 0 < sint (env_id (envs s ! i))"
  using assms unfolding env_inv_def by blast+

lemma env_inv_alloc:
  assumes inv: "env_inv s (e # fs)" and s': "envs s' = (envs s)[e := v]" "env_free_list s' = env_link (envs s ! e)"
    and v: "env_status v \<noteq> ENV_FREE" "ENVX (env_id v) = e" "0 < sint (env_id v)"
  shows "env_inv s' fs" "live s' = insert e (live s)"
proof -
  note I = env_invD [OF inv]
  have e: "e < NENV" "e \<notin> set fs" "linked (\<lambda>i. env_link (envs s ! i)) (env_link (envs s ! e)) fs"
    using I(2,3) I(4) [of e] by simp_all
  have nth: "envs s' ! i = (if i = e then v else envs s ! i)" for i
    using e(1) I(1) s'(1) by (simp add: nth_list_update)
  have "linked (\<lambda>i. env_link (envs s' ! i)) (env_free_list s') fs"
    using e(2,3) unfolding s'(2) by (subst linked_cong [of fs _ "\<lambda>i. env_link (envs s ! i)"]) (auto simp: nth)
  moreover have "i \<in> set fs \<longleftrightarrow> i < NENV \<and> env_status (envs s' ! i) = ENV_FREE" for i
    using I(4) [of i] v(1) e(2) by (auto simp: nth)
  moreover have "length (envs s') = NENV" using I(1) s'(1) by simp
  moreover have "ENVX (env_id (envs s' ! i)) = i \<and> 0 < sint (env_id (envs s' ! i))"
    if "i < NENV" "env_status (envs s' ! i) \<noteq> ENV_FREE" for i
    using that I(5) [of i] v by (cases "i = e") (simp_all add: nth)
  ultimately show "env_inv s' fs"
    using I(3) unfolding env_inv_def by auto
  show "live s' = insert e (live s)"
    using e(1) v(1) by (auto simp: live_def nth)
qed

text \<open>What \<open>env_alloc\<close> promises of the environment in slot \<open>e\<close>, created from directory page \<open>x\<close>.\<close>

definition fresh_env :: "kern \<Rightarrow> kern \<Rightarrow> nat \<Rightarrow> nat \<Rightarrow> envid_t \<Rightarrow> bool" where
  "fresh_env s s' e x parent_id \<longleftrightarrow>
     env_id (envs s' ! e) = next_env_id (env_id (envs s ! e)) e \<and> env_parent_id (envs s' ! e) = parent_id \<and>
     env_status (envs s' ! e) = ENV_RUNNABLE \<and> env_pgdir (envs s' ! e) = dir_kva x \<and>
     tf_cs (env_tf (envs s' ! e)) = GD_UT OR 3 \<and> tf_eflags (env_tf (envs s' ! e)) = FL_IF \<and>
     \<not> env_ipc_recving (envs s' ! e) \<and> env_pgfault_upcall (envs s' ! e) = 0 \<and>
     (\<forall>i. unat i < 955 \<longrightarrow> pde_at s' x i = 0) \<and> pde_at s' x (PDX UVPT) = page2pa x OR PTE_P OR PTE_U"

lemma env_alloc_spec:
  assumes inv: "kinv s (x # xs) (e # fs) pend"
  obtains s' where "env_alloc s parent_id = Some (0, Some e, s')" "kinv s' xs fs pend" "live s' = insert e (live s)"
    "e \<notin> live s" "dir_of s' e = x" "fresh_env s s' e x parent_id" "mapped s' (env_dirs s') = mapped s (env_dirs s)"
    "env_dirs s' = insert x (env_dirs s)" "\<forall>i. i \<noteq> e \<longrightarrow> envs s' ! i = envs s ! i" "mem_frame {x} s s'"
    "curenv s' = curenv s" "kern_pgdir s' = kern_pgdir s" "cr3 s' = cr3 s" "npages s' = npages s"
proof -
  note K = kinvD [OF inv]
  obtain k where k: "kern_pgdir s = dir_kva k" "k < npages s" "k \<noteq> x" "\<forall>i. unat i < 955 \<longrightarrow> pde_at s k i = 0" "0 < pend k"
    by (rule kinv_template_page [OF inv])
  obtain s1 where s1: "env_setup_vm s e = Some (0, s1)" "pt_inv s1 (insert x (env_dirs s)) xs pend"
    "mapped s1 (insert x (env_dirs s)) = mapped s (env_dirs s)" "leaks s1 xs = leaks s (x # xs)" "mem_frame {x} s s1"
    "envs s1 = (envs s)[e := (envs s ! e)\<lparr>env_pgdir := dir_kva x\<rparr>]"
    "env_free_list s1 = env_free_list s" "curenv s1 = curenv s" "kern_pgdir s1 = kern_pgdir s" "cr3 s1 = cr3 s"
    "npages s1 = npages s" "pde_at s1 x (PDX UVPT) = page2pa x OR PTE_P OR PTE_U"
    "\<And>i. unat i < 1024 \<Longrightarrow> i \<noteq> PDX UVPT \<Longrightarrow> pde_at s1 x i = pde_at s k i"
    using env_setup_vm_spec [OF K(2) k(1-4) K(4)] by metis
  have e: "e < NENV" "e \<notin> live s" "e < length (envs s)" "env_free_list s = Some e"
    using K(1,9) by (auto simp: env_inv_def live_def)
  define v where "v = (envs s ! e)\<lparr>env_pgdir := dir_kva x, env_id := next_env_id (env_id (envs s ! e)) e,
     env_parent_id := parent_id, env_type := ENV_TYPE_USER, env_status := ENV_RUNNABLE, env_runs := 0,
     env_tf := zero_tf\<lparr>tf_ds := GD_UD OR 3, tf_es := GD_UD OR 3, tf_ss := GD_UD OR 3,
       tf_esp := USTACKTOP, tf_cs := GD_UT OR 3, tf_eflags := FL_IF\<rparr>,
     env_pgfault_upcall := 0, env_ipc_recving := False\<rparr>"
  define s' where "s' = s1\<lparr>envs := (envs s)[e := v], env_free_list := env_link (envs s ! e)\<rparr>"
  have run: "env_alloc s parent_id = Some (0, Some e, s')"
    using e by (simp add: env_alloc_def e(4) s1(1) upd_env_def s1(6) s'_def v_def)
  have old: "env_id v = next_env_id (env_id (envs s ! e)) e" "env_status v = ENV_RUNNABLE" "env_pgdir v = dir_kva x"
    by (simp_all add: v_def)
  have envs': "envs s' = (envs s)[e := v]" "env_free_list s' = env_link (envs s ! e)"
    by (simp_all add: s'_def)
  have en: "e < 1024" using e(1) by (simp add: NENV_def)
  have E: "env_inv s' fs" "live s' = insert e (live s)"
    by (rule env_inv_alloc [OF K(1) envs']; simp add: old next_env_id_props [OF en])+
  have nth: "envs s' ! i = (if i = e then v else envs s ! i)" for i
    using e(3) by (simp add: envs' nth_list_update)
  have same: "mem s' = mem s1" "pages s' = pages s1" "npages s' = npages s1" "page_free_list s' = page_free_list s1"
    by (simp_all add: s'_def)
  note C = pt_inv_cong [OF same]
  have xn: "x < npages s"
    using pt_invD(1) [OF K(2)] by (simp add: free_inv_def)
  have dir: "dir_of s' i = (if i = e then x else dir_of s i)" for i
    using PGNUM_page2pa [of x] xn K(4) by (simp add: dir_of_def nth old)
  have dirs: "env_dirs s' = insert x (env_dirs s)"
    unfolding env_dirs_def E(2) using e(2) by (auto simp: dir image_iff)
  have x: "x \<notin> env_dirs s"
    using pt_invD(1) [OF K(2)] ref_inv_unreferenced(1) [OF pt_invD(2) [OF K(2)]] by (simp add: free_inv_def)
  have mf: "mem_frame {x} s s'"
    using s1(5) same(1) by (simp add: mem_frame_def)
  have fr: "curenv s' = curenv s" "kern_pgdir s' = kern_pgdir s" "cr3 s' = cr3 s" "npages s' = npages s"
    using s1 by (simp_all add: s'_def)
  have "pde_at s' k i = pde_at s k i" if "unat i < 955" for i
    using mf k(2,3) K(4) that PGNUM_entry [of k i] by (simp add: mem_frame_def pde_at_def)
  then have "template_ok s' pend"
    using k fr by (auto simp: template_ok_def)
  moreover have "inj_on (dir_of s') (live s')"
  proof -
    have "dir_of s i \<noteq> x" if "i \<in> live s" for i
      using that x K(6) by auto
    then show ?thesis
      using K(7) e(2) unfolding E(2) inj_on_def by (auto simp: dir)
  qed
  moreover have "\<forall>i \<in> live s'. env_pgdir (envs s' ! i) = dir_kva (dir_of s' i)"
    using K(5) e(2) by (auto simp: E(2) nth dir old)
  moreover have "pt_inv s' (env_dirs s') xs pend" "leaks s' xs = {}"
    using s1(2,4) K(3) by (simp_all add: dirs C(1,4))
  ultimately have kinv': "kinv s' xs fs pend"
    using E(1) fr(4) K(4) by (simp add: kinv_def)
  have "pde_at s' x i = 0" if "unat i < 955" for i
  proof -
    have "unat i < 1024" "i \<noteq> PDX UVPT"
      using that PDX_UVPT by auto
    then show ?thesis
      using s1(13) [of i] k(4) that C(6) by simp
  qed
  then have "fresh_env s s' e x parent_id"
    using s1(12) C(6) by (simp add: fresh_env_def nth) (simp add: v_def)
  then show thesis
    using run kinv' E(2) e(2) dir dirs s1(3) C(3) nth mf fr by (intro that [of s']) simp_all
qed

lemma env_alloc_errors:
  assumes inv: "kinv s xs fs pend"
  shows "fs = [] \<Longrightarrow> env_alloc s parent_id = Some (- E_NO_FREE_ENV, None, s)"
    "fs \<noteq> [] \<Longrightarrow> xs = [] \<Longrightarrow> env_alloc s parent_id = Some (- E_NO_MEM, None, s)"
proof -
  note K = kinvD [OF inv]
  show "fs = [] \<Longrightarrow> env_alloc s parent_id = Some (- E_NO_FREE_ENV, None, s)"
    using env_invD(2) [OF K(1)] by (simp add: env_alloc_def)
  assume "fs \<noteq> []" "xs = []"
  then obtain e where "env_free_list s = Some e"
    using env_invD(2) [OF K(1)] by (cases fs) auto
  moreover have "page_alloc s ALLOC_ZERO = Some (None, s)"
    using pt_invD(1) [OF K(2)] \<open>xs = []\<close> by (simp add: page_alloc_Nil)
  ultimately show "env_alloc s parent_id = Some (- E_NO_MEM, None, s)"
    by (simp add: env_alloc_def env_setup_vm_def E_NO_MEM_def)
qed

subsection \<open>Initialisation\<close>

definition env_init_step :: "nat \<Rightarrow> kern \<Rightarrow> kern" where
  "env_init_step i s =
     (upd_env s i (\<lambda>e. e\<lparr>env_id := 0, env_link := env_free_list s\<rparr>))\<lparr>env_free_list := Some i\<rparr>"

lemma env_init_steps: "env_init s = fold env_init_step (rev [0..<NENV]) (s\<lparr>env_free_list := None\<rparr>)"
  by (simp only: env_init_def env_init_step_def [abs_def])

lemma linked_upt:
  assumes "\<And>i. k \<le> i \<Longrightarrow> i < n \<Longrightarrow> nxt i = (if Suc i < n then Some (Suc i) else None)" "k \<le> n"
  shows "linked nxt (if k < n then Some k else None) [k..<n]"
  using assms(2,1)
proof (induction k rule: inc_induct)
  case (step k)
  then have "linked nxt (if Suc k < n then Some (Suc k) else None) [Suc k..<n]" by simp
  with step.prems [of k] step.hyps show ?case
    by (simp add: upt_conv_Cons)
qed simp

lemma env_init_loop:
  assumes "k \<le> NENV" "length (envs s) = NENV" "s' = fold env_init_step (rev [k..<NENV]) (s\<lparr>env_free_list := None\<rparr>)"
  shows "length (envs s') = NENV \<and> env_free_list s' = (if k < NENV then Some k else None) \<and>
     (\<forall>i < NENV. envs s' ! i = (if k \<le> i then (envs s ! i)\<lparr>env_id := 0,
        env_link := (if Suc i < NENV then Some (Suc i) else None)\<rparr> else envs s ! i)) \<and>
     mem s' = mem s \<and> pages s' = pages s \<and> npages s' = npages s \<and> page_free_list s' = page_free_list s \<and>
     kern_pgdir s' = kern_pgdir s"
  using assms(1,3)
proof (induction k arbitrary: s' rule: inc_induct)
  case base
  then show ?case using assms(2) by auto
next
  case (step k)
  define s1 where "s1 = fold env_init_step (rev [Suc k..<NENV]) (s\<lparr>env_free_list := None\<rparr>)"
  note IH = step.IH [OF s1_def]
  have s': "s' = env_init_step k s1"
    using step.hyps by (simp add: step.prems s1_def upt_conv_Cons)
  have nth: "envs s' ! i = (if i = k then (envs s1 ! k)\<lparr>env_id := 0, env_link := env_free_list s1\<rparr> else envs s1 ! i)" for i
    using IH step.hyps by (simp add: s' env_init_step_def upd_env_nth)
  have "envs s' ! i = (if k \<le> i then (envs s ! i)\<lparr>env_id := 0,
        env_link := (if Suc i < NENV then Some (Suc i) else None)\<rparr> else envs s ! i)" if "i < NENV" for i
    using that IH by (cases "i = k") (auto simp: nth)
  then show ?case
    using IH step.hyps by (simp add: s' env_init_step_def)
qed

lemma env_init_spec:
  assumes "length (envs s) = NENV" "\<forall>i < NENV. env_status (envs s ! i) = ENV_FREE"
  shows "env_inv (env_init s) [0..<NENV]" "live (env_init s) = {}"
    "mem (env_init s) = mem s" "pages (env_init s) = pages s" "npages (env_init s) = npages s"
    "page_free_list (env_init s) = page_free_list s" "kern_pgdir (env_init s) = kern_pgdir s"
    "i < NENV \<Longrightarrow> env_id (envs (env_init s) ! i) = 0"
proof -
  have "length (envs (env_init s)) = NENV \<and> env_free_list (env_init s) = (if 0 < NENV then Some 0 else None) \<and>
     (\<forall>i < NENV. envs (env_init s) ! i = (if 0 \<le> i then (envs s ! i)\<lparr>env_id := 0,
        env_link := (if Suc i < NENV then Some (Suc i) else None)\<rparr> else envs s ! i)) \<and>
     mem (env_init s) = mem s \<and> pages (env_init s) = pages s \<and> npages (env_init s) = npages s \<and>
     page_free_list (env_init s) = page_free_list s \<and> kern_pgdir (env_init s) = kern_pgdir s"
    by (rule env_init_loop [OF _ assms(1) env_init_steps]) simp
  then have L: "length (envs (env_init s)) = NENV" "env_free_list (env_init s) = (if 0 < NENV then Some 0 else None)"
    "\<And>i. i < NENV \<Longrightarrow> envs (env_init s) ! i = (envs s ! i)\<lparr>env_id := 0,
        env_link := (if Suc i < NENV then Some (Suc i) else None)\<rparr>"
    and fr: "mem (env_init s) = mem s" "pages (env_init s) = pages s" "npages (env_init s) = npages s"
     "page_free_list (env_init s) = page_free_list s" "kern_pgdir (env_init s) = kern_pgdir s"
    by simp_all
  have free: "env_status (envs (env_init s) ! i) = ENV_FREE" if "i < NENV" for i
    using that assms(2) by (simp add: L(3))
  have "linked (\<lambda>i. env_link (envs (env_init s) ! i)) (env_free_list (env_init s)) [0..<NENV]"
    unfolding L(2) by (rule linked_upt) (simp_all add: L(3))
  then show "env_inv (env_init s) [0..<NENV]"
    using L(1) free by (auto simp: env_inv_def)
  show "live (env_init s) = {}"
    using free by (auto simp: live_def)
  show "mem (env_init s) = mem s" "pages (env_init s) = pages s" "npages (env_init s) = npages s"
    "page_free_list (env_init s) = page_free_list s" "kern_pgdir (env_init s) = kern_pgdir s"
    by (rule fr)+
  show "env_id (envs (env_init s) ! i) = 0" if "i < NENV"
    using that by (simp add: L(3))
qed

lemma kinv_curenv: "kinv (s\<lparr>curenv := c\<rparr>) xs fs pend = kinv s xs fs pend"
proof -
  have C: "pt_inv (s\<lparr>curenv := c\<rparr>) Ds xs pend = pt_inv s Ds xs pend" "leaks (s\<lparr>curenv := c\<rparr>) xs = leaks s xs"
    "pde_at (s\<lparr>curenv := c\<rparr>) = pde_at s" for Ds
    by (rule pt_inv_cong; simp)+
  have "env_dirs (s\<lparr>curenv := c\<rparr>) = env_dirs s" "live (s\<lparr>curenv := c\<rparr>) = live s" "dir_of (s\<lparr>curenv := c\<rparr>) = dir_of s"
    using env_dirs_cong [of "s\<lparr>curenv := c\<rparr>" s] by simp_all
  then show ?thesis
    by (simp add: kinv_def C env_inv_def template_ok_def)
qed

text \<open>The machine \<open>kdemo\<close> with page 1 as the kernel's directory and all environments free.\<close>

definition kinit :: kern where
  "kinit = env_init (kdemo\<lparr>kern_pgdir := dir_kva 1, envs := replicate NENV blank_env\<rparr>)"

definition init_pend :: "nat \<Rightarrow> nat" where "init_pend p = unat (ref_of kdemo p)"

lemma kinit_kinv: "kinv kinit [3, 4, 5, 6, 7] [0..<NENV] init_pend"
proof -
  let ?s = "kdemo\<lparr>kern_pgdir := dir_kva 1, envs := replicate NENV blank_env\<rparr>"
  have "length (envs ?s) = NENV" "\<forall>i < NENV. env_status (envs ?s ! i) = ENV_FREE"
    by (simp_all add: blank_env_def)
  note E = env_init_spec [OF this, folded kinit_def]
  have m: "mem kinit = (\<lambda>_. 0)" "npages kinit = 8" "ref_of kinit = ref_of kdemo"
    using E by (simp_all add: kdemo_simps) (simp add: ref_of_def fun_eq_iff)
  have fi: "free_inv kinit [3, 4, 5, 6, 7]"
    using kdemo_free by (subst free_inv_cong [of kinit kdemo]) (simp_all add: E)
  have "pt_inv kinit {} [3, 4, 5, 6, 7] (\<lambda>p. if p \<in> {} then 0 else unat (ref_of kinit p))"
    using fi by (rule pt_inv_blank) simp_all
  then have "pt_inv kinit {} [3, 4, 5, 6, 7] init_pend"
    by (simp add: m(3) init_pend_def [abs_def])
  moreover have "env_dirs kinit = {}"
    by (simp add: env_dirs_def E(2))
  moreover have "leaks kinit [3, 4, 5, 6, 7] = {}"
    by (auto simp: leaks_def m ref_of_def kdemo_nth split: if_splits)
  moreover have "template_ok kinit init_pend"
    unfolding template_ok_def by (rule exI [of _ 1]) (simp add: E(7) m pde_at_def init_pend_def ref_of_def kdemo_nth)
  ultimately show ?thesis
    using E(1,2) m(2) by (simp add: kinv_def)
qed

lemma kinit_simps: "live kinit = {}" "env_dirs kinit = {}" "curenv kinit = None" "npages kinit = 8"
  "mapped kinit {} = Map.empty" "i < NENV \<Longrightarrow> env_id (envs kinit ! i) = 0"
proof -
  let ?s = "kdemo\<lparr>kern_pgdir := dir_kva 1, envs := replicate NENV blank_env\<rparr>"
  have "length (envs ?s) = NENV" "\<forall>i < NENV. env_status (envs ?s ! i) = ENV_FREE"
    by (simp_all add: blank_env_def)
  note E = env_init_spec [OF this, folded kinit_def]
  show "live kinit = {}" "npages kinit = 8" "i < NENV \<Longrightarrow> env_id (envs kinit ! i) = 0"
    using E by (simp_all add: kdemo_simps)
  then show "env_dirs kinit = {}" by (simp add: env_dirs_def)
  have "curenv (fold env_init_step is t) = curenv t" for "is" t
    by (induction "is" arbitrary: t) (simp_all add: env_init_step_def)
  then show "curenv kinit = None" by (simp add: kinit_def env_init_steps kdemo_simps)
  show "mapped kinit {} = Map.empty"
    by (auto simp: mapped_def tabs_def fun_eq_iff)
qed

lemma kinit_alloc:
  obtains s where "env_alloc kinit 0 = Some (0, Some 0, s)" "kinv s [4, 5, 6, 7] [1..<NENV] init_pend"
    "live s = {0}" "dir_of s 0 = 3" "env_dirs s = {3}" "fresh_env kinit s 0 3 0" "mapped s {3} = Map.empty"
    "curenv s = None" "npages s = 8"
proof -
  have "0 < NENV" by (simp add: NENV_def)
  then have "[0..<NENV] = 0 # [1..<NENV]" by (simp add: upt_conv_Cons)
  then have k: "kinv kinit [3, 4, 5, 6, 7] (0 # [1..<NENV]) init_pend" using kinit_kinv by simp
  obtain s where "env_alloc kinit 0 = Some (0, Some 0, s)" "kinv s [4, 5, 6, 7] [1..<NENV] init_pend"
    "live s = insert 0 (live kinit)" "dir_of s 0 = 3" "fresh_env kinit s 0 3 0"
    "mapped s (env_dirs s) = mapped kinit (env_dirs kinit)" "env_dirs s = insert 3 (env_dirs kinit)"
    "curenv s = curenv kinit" "npages s = npages kinit"
    by (rule env_alloc_spec [OF k, of 0])
  then show thesis
    using kinit_simps by (intro that [of s]) simp_all
qed

text \<open>
  C14. Creating an environment. With no free slot \<open>env_alloc\<close> returns \<open>-E_NO_FREE_ENV\<close>, with no free page
  \<open>-E_NO_MEM\<close>, and changes nothing. Otherwise it takes the first free slot \<open>e\<close>; the new identifier is positive,
  has \<open>e\<close> as its index and differs from the one the slot had before; the environment is runnable in user mode
  with an empty user address space; all other environments and mappings are untouched and the kernel
  invariant holds.
\<close>

theorem env_alloc_correct:
  assumes "kinv s xs fs pend"
  shows "case (fs, xs) of
       ([], _) \<Rightarrow> env_alloc s parent_id = Some (- E_NO_FREE_ENV, None, s)
     | (_, []) \<Rightarrow> env_alloc s parent_id = Some (- E_NO_MEM, None, s)
     | (e # fs', x # xs') \<Rightarrow> \<exists>s'. env_alloc s parent_id = Some (0, Some e, s') \<and> kinv s' xs' fs' pend \<and>
         live s' = insert e (live s) \<and> e \<notin> live s \<and> fresh_env s s' e x parent_id \<and>
         0 < sint (env_id (envs s' ! e)) \<and> ENVX (env_id (envs s' ! e)) = e \<and>
         env_id (envs s' ! e) \<noteq> env_id (envs s ! e) \<and>
         mapped s' (env_dirs s') = mapped s (env_dirs s) \<and> (\<forall>i. i \<noteq> e \<longrightarrow> envs s' ! i = envs s ! i)"
proof (cases fs)
  case Nil
  then show ?thesis using env_alloc_errors(1) [OF assms] by simp
next
  case fs: (Cons e fs')
  show ?thesis
  proof (cases xs)
    case Nil
    then show ?thesis using env_alloc_errors(2) [OF assms] fs by simp
  next
    case (Cons x xs')
    then have inv: "kinv s (x # xs') (e # fs') pend" using assms fs by simp
    have e: "e < 1024"
      using env_invD(4) [OF kinvD(1) [OF inv], of e] by (simp add: NENV_def)
    obtain s' where s': "env_alloc s parent_id = Some (0, Some e, s')" "kinv s' xs' fs' pend" "live s' = insert e (live s)"
      "e \<notin> live s" "fresh_env s s' e x parent_id" "mapped s' (env_dirs s') = mapped s (env_dirs s)"
      "\<forall>i. i \<noteq> e \<longrightarrow> envs s' ! i = envs s ! i"
      by (rule env_alloc_spec [OF inv, of parent_id])
    moreover have "env_id (envs s' ! e) = next_env_id (env_id (envs s ! e)) e"
      using s'(5) by (simp add: fresh_env_def)
    ultimately show ?thesis
      using fs Cons next_env_id_props [OF e, of "env_id (envs s ! e)"] by (simp add: exI [of _ s'])
  qed
qed

theorem env_alloc_correct_witness:
  "\<exists>s'. env_alloc kinit 0 = Some (0, Some 0, s') \<and> kinv s' [4, 5, 6, 7] [1..<NENV] init_pend \<and>
     live s' = {0} \<and> ENVX (env_id (envs s' ! 0)) = 0"
proof -
  have "0 < NENV" by (simp add: NENV_def)
  then have "[0..<NENV] = 0 # [1..<NENV]" by (simp add: upt_conv_Cons)
  then have k: "kinv kinit [3, 4, 5, 6, 7] (0 # [1..<NENV]) init_pend" using kinit_kinv by simp
  show ?thesis
    using env_alloc_correct [OF k, of 0] kinit_simps(1) by auto
qed

text \<open>
  C7. Freeing an environment leaks nothing: \<open>env_free\<close> does not panic, returns the slot to the free list,
  removes exactly the mappings of that environment, and in the resulting state the invariant holds again; in
  particular every page whose last reference was a mapping, page table or directory of this environment is on
  the free list. When the environment is the current one, the kernel's directory is loaded first.
\<close>

theorem env_free_correct:
  assumes "kinv s xs fs pend" "e \<in> live s"
  shows "\<exists>s' xs'. env_free s e = Some s' \<and> kinv s' xs' (e # fs) pend \<and> live s' = live s - {e} \<and>
     mapped s' (env_dirs s') = mapped s (env_dirs s) |` {(d, i, j). d \<noteq> dir_of s e} \<and>
     (\<forall>i. i \<noteq> e \<longrightarrow> envs s' ! i = envs s ! i) \<and>
     cr3 s' = (if curenv s = Some e then kern_pgdir s - KERNBASE else cr3 s) \<and>
     set xs' = {p. p < npages s' \<and> ref_of s' p = 0}"
proof -
  obtain s' xs' where s': "env_free s e = Some s'" "kinv s' xs' (e # fs) pend" "live s' = live s - {e}"
     "mapped s' (env_dirs s') = mapped s (env_dirs s) |` {(d, i, j). d \<noteq> dir_of s e}"
     "\<forall>i. i \<noteq> e \<longrightarrow> envs s' ! i = envs s ! i"
     "cr3 s' = (if curenv s = Some e then kern_pgdir s - KERNBASE else cr3 s)"
    using env_free_spec [OF assms] by blast
  have "set xs' = {p. p < npages s' \<and> ref_of s' p = 0}"
    using kinvD(3) [OF s'(2)] pt_invD(1) [OF kinvD(2) [OF s'(2)]] by (auto simp: leaks_def free_inv_def)
  then show ?thesis
    using s' by (intro exI [of _ s'] exI [of _ xs']) simp
qed

theorem env_free_correct_witness:
  "\<exists>s s' xs'. env_alloc kinit 0 = Some (0, Some 0, s) \<and> env_free s 0 = Some s' \<and>
     kinv s' xs' (0 # [1..<NENV]) init_pend \<and> live s' = {}"
proof -
  obtain s where s: "env_alloc kinit 0 = Some (0, Some 0, s)" "kinv s [4, 5, 6, 7] [1..<NENV] init_pend" "live s = {0}"
    by (rule kinit_alloc)
  then show ?thesis
    using env_free_correct [OF s(2), of 0] by auto
qed

lemma envid2env_cases:
  assumes inv: "env_inv s fs" and c: "curenv s = Some c" and id: "envid \<noteq> 0"
  shows "envid2env s envid chk =
     (if ENVX envid \<in> live s \<and> env_id (envs s ! ENVX envid) = envid \<and>
         (chk \<longrightarrow> ENVX envid = c \<or> env_parent_id (envs s ! ENVX envid) = env_id (envs s ! c))
      then Some (0, Some (ENVX envid)) else Some (- E_BAD_ENV, None))"
  using c id by (auto simp: envid2env_def Let_def live_def)

text \<open>
  C28. \<open>envid2env\<close> accepts exactly the identifiers of environments in use and, with \<open>checkperm\<close>, only the
  current environment and its children: it returns that environment, which is the only one with this
  identifier, and \<open>-E_BAD_ENV\<close> in all other cases. The identifier 0 stands for the current environment.
\<close>

theorem envid2env_correct:
  assumes "kinv s xs fs pend" "curenv s = Some c" "c \<in> live s"
  shows "envid2env s 0 chk = Some (0, Some c) \<and>
     (envid \<noteq> 0 \<longrightarrow>
       (case envid2env s envid chk of
          Some (r, Some e) \<Rightarrow> r = 0 \<and> e \<in> live s \<and> (\<forall>i \<in> live s. env_id (envs s ! i) = envid \<longleftrightarrow> i = e) \<and>
            (chk \<longrightarrow> e = c \<or> env_parent_id (envs s ! e) = env_id (envs s ! c))
        | Some (r, None) \<Rightarrow> r = - E_BAD_ENV \<and>
            (\<forall>i \<in> live s. env_id (envs s ! i) = envid \<longrightarrow>
               chk \<and> i \<noteq> c \<and> env_parent_id (envs s ! i) \<noteq> env_id (envs s ! c))
        | None \<Rightarrow> False))"
proof -
  note E = kinvD(1) [OF assms(1)]
  have idx: "ENVX envid = i" if "i \<in> live s" "env_id (envs s ! i) = envid" for i
    using env_invD(5) [OF E, of i] that unfolding live_def by blast
  have "envid2env s 0 chk = Some (0, Some c)"
    using assms(2) by (simp add: envid2env_def)
  moreover have "case envid2env s envid chk of
          Some (r, Some e) \<Rightarrow> r = 0 \<and> e \<in> live s \<and> (\<forall>i \<in> live s. env_id (envs s ! i) = envid \<longleftrightarrow> i = e) \<and>
            (chk \<longrightarrow> e = c \<or> env_parent_id (envs s ! e) = env_id (envs s ! c))
        | Some (r, None) \<Rightarrow> r = - E_BAD_ENV \<and>
            (\<forall>i \<in> live s. env_id (envs s ! i) = envid \<longrightarrow>
               chk \<and> i \<noteq> c \<and> env_parent_id (envs s ! i) \<noteq> env_id (envs s ! c))
        | None \<Rightarrow> False" if nz: "envid \<noteq> 0"
  proof (cases "ENVX envid \<in> live s \<and> env_id (envs s ! ENVX envid) = envid \<and>
         (chk \<longrightarrow> ENVX envid = c \<or> env_parent_id (envs s ! ENVX envid) = env_id (envs s ! c))")
    case True
    then have "\<forall>i \<in> live s. env_id (envs s ! i) = envid \<longleftrightarrow> i = ENVX envid"
      using idx by metis
    with True show ?thesis
      unfolding envid2env_cases [OF E assms(2) nz] by simp
  next
    case False
    have "chk \<and> i \<noteq> c \<and> env_parent_id (envs s ! i) \<noteq> env_id (envs s ! c)"
      if i: "i \<in> live s" "env_id (envs s ! i) = envid" for i
      using False i unfolding idx [OF i] by blast
    then show ?thesis
      unfolding envid2env_cases [OF E assms(2) nz] if_not_P [OF False] by simp
  qed
  ultimately show ?thesis by blast
qed

theorem envid2env_correct_witness:
  "\<exists>s. env_alloc kinit 0 = Some (0, Some 0, s) \<and> envid2env (s\<lparr>curenv := Some 0\<rparr>) 0 True = Some (0, Some 0)"
proof -
  obtain s where s: "env_alloc kinit 0 = Some (0, Some 0, s)" "kinv s [4, 5, 6, 7] [1..<NENV] init_pend" "live s = {0}"
    by (rule kinit_alloc)
  have "kinv (s\<lparr>curenv := Some 0\<rparr>) [4, 5, 6, 7] [1..<NENV] init_pend"
    using s(2) by (simp add: kinv_curenv)
  then show ?thesis
    using envid2env_correct [of "s\<lparr>curenv := Some 0\<rparr>" _ _ _ 0 True 1] s by (auto simp: live_def)
qed

text \<open>
  C29. Identifiers do not go stale silently: after \<open>env_alloc\<close> reused a slot, the identifier of the previous
  user of that slot is rejected.
\<close>

theorem envid_stale:
  assumes "kinv s (x # xs) (e # fs) pend" "env_alloc s parent_id = Some (0, Some e, s')"
    and "env_id (envs s ! e) \<noteq> 0" "ENVX (env_id (envs s ! e)) = e"
  shows "envid2env s' (env_id (envs s ! e)) chk = Some (- E_BAD_ENV, None)"
proof -
  have e: "e < 1024"
    using env_invD(4) [OF kinvD(1) [OF assms(1)], of e] by (simp add: NENV_def)
  obtain s1 where "env_alloc s parent_id = Some (0, Some e, s1)" "fresh_env s s1 e x parent_id"
    by (rule env_alloc_spec [OF assms(1), of parent_id])
  then have "env_id (envs s' ! e) = next_env_id (env_id (envs s ! e)) e"
    using assms(2) by (simp add: fresh_env_def)
  then show ?thesis
    using assms(3,4) next_env_id_props(3) [OF e, of "env_id (envs s ! e)"] by (simp add: envid2env_def Let_def)
qed

theorem envid_stale_witness:
  "\<exists>s1 s2 s3. env_alloc kinit 0 = Some (0, Some 0, s1) \<and> env_free s1 0 = Some s2 \<and>
     env_alloc s2 0 = Some (0, Some 0, s3) \<and> envid2env s3 (env_id (envs s1 ! 0)) False = Some (- E_BAD_ENV, None)"
proof -
  obtain s1 where s1: "env_alloc kinit 0 = Some (0, Some 0, s1)" "kinv s1 [4, 5, 6, 7] [1..<NENV] init_pend" "live s1 = {0}"
    by (rule kinit_alloc)
  then obtain s2 xs where s2: "env_free s1 0 = Some s2" "kinv s2 xs (0 # [1..<NENV]) init_pend"
    "env_id (envs s2 ! 0) = env_id (envs s1 ! 0)" "dir_of s1 0 \<in> set xs"
    using env_free_spec [OF s1(2), of 0] by auto
  then obtain x ys where xs: "kinv s2 (x # ys) (0 # [1..<NENV]) init_pend" by (cases xs) auto
  obtain s3 where s3: "env_alloc s2 0 = Some (0, Some 0, s3)"
    by (rule env_alloc_spec [OF xs, of 0])
  have "ENVX (env_id (envs s1 ! 0)) = 0" "0 < sint (env_id (envs s1 ! 0))"
    using env_invD(5) [OF kinvD(1) [OF s1(2)], of 0] s1(3) by (auto simp: live_def)
  moreover from this(2) have "env_id (envs s1 ! 0) \<noteq> 0" by auto
  ultimately show ?thesis
    using envid_stale [OF xs s3] s1(1) s2(1,3) s3 by auto
qed

end
