(* ===== verification/JosSpace.thy ===== *)
theory JosSpace
  imports JosEnvCreate
begin

text \<open>
  The address-space operations of kern/pmap.c and kern/env.c on the directory of one environment, stated
  for the kernel invariant \<open>kinv\<close>: mapping a fresh page, sharing a mapped page, unmapping, and
  \<open>region_alloc\<close>.
\<close>

lemma mapped_page:
  assumes "pt_inv s Ds xs pend" "mapped s Ds k = Some p"
  shows "p < npages s" "p \<notin> Ds" "p \<notin> ran (tabs s Ds)" "p \<notin> set xs"
proof -
  note D = pt_invD [OF assms(1)]
  have r: "p \<in> ran (mapped s Ds)" using assms(2) by (rule ranI)
  show p: "p < npages s" "p \<notin> Ds" "p \<notin> ran (tabs s Ds)"
    using D(2) r unfolding ref_inv_def by auto
  show "p \<notin> set xs"
  proof
    assume "p \<in> set xs"
    then have "ref_of s p = 0" using D(1) by (simp add: free_inv_def)
    then show False using ref_inv_unreferenced(3) [OF D(2) _ p(1)] r by blast
  qed
qed

text \<open>Sharing a page that is already mapped somewhere.\<close>

lemma kinv_share:
  assumes inv: "kinv s xs fs pend" and e: "e \<in> live s" and va: "user_va va"
    and p: "mapped s (env_dirs s) k = Some p" "unat (ref_of s p) + 1 < 65536" and perm: "PTE_ADDR perm = 0"
  shows "if xs = [] \<and> tabs s (env_dirs s) (dir_of s e, PDX va) = None
     then page_insert s (env_pgdir (envs s ! e)) p va perm = Some (- E_NO_MEM, s)
     else \<exists>s' xs'. page_insert s (env_pgdir (envs s ! e)) p va perm = Some (0, s') \<and> kinv s' xs' fs pend \<and>
       mapped s' (env_dirs s) = (mapped s (env_dirs s))((dir_of s e, PDX va, PTX va) \<mapsto> p) \<and>
       va_pte s' (dir_of s e) va = page2pa p OR perm OR PTE_P \<and>
       (\<forall>d va'. d \<in> env_dirs s \<longrightarrow> user_va va' \<longrightarrow> (d, PTE_ADDR va') \<noteq> (dir_of s e, PTE_ADDR va) \<longrightarrow>
          va_pte s' d va' = va_pte s d va') \<and> kframe s s'"
proof -
  note K = kinvD [OF inv] and M = mapped_page [OF kinvD(2) [OF inv] p(1)]
  note I = page_insert_spec [OF K(2) K(6) [OF e] va M p(2) perm]
  show ?thesis
  proof (cases "xs = [] \<and> tabs s (env_dirs s) (dir_of s e, PDX va) = None")
    case True
    then show ?thesis using I K(5) [OF e] by simp
  next
    case False
    then obtain s' xs' where s': "page_insert s (env_pgdir (envs s ! e)) p va perm = Some (0, s')"
      "pt_inv s' (env_dirs s) xs' pend" "mapped s' (env_dirs s) = (mapped s (env_dirs s))((dir_of s e, PDX va, PTX va) \<mapsto> p)"
      "va_pte s' (dir_of s e) va = page2pa p OR perm OR PTE_P"
      "\<forall>d va'. d \<in> env_dirs s \<longrightarrow> user_va va' \<longrightarrow> (d, PTE_ADDR va') \<noteq> (dir_of s e, PTE_ADDR va) \<longrightarrow>
          va_pte s' d va' = va_pte s d va'" "kframe s s'"
      "mem_frame (pt_pages s (env_dirs s) xs) s s'" "leaks s' xs' = leaks s xs - {p}"
      using I K(5) [OF e] by auto
    have "leaks s' xs' = {}" using s'(8) K(3) by simp
    then have "kinv s' xs' fs pend"
      by (rule kinv_pages [OF inv s'(6,7,2)])
    then show ?thesis
      using False s'(1,3-6) by auto
  qed
qed

text \<open>Allocating a page and mapping it: the pattern of \<open>region_alloc\<close> and \<open>sys_page_alloc\<close>.\<close>

lemma kinv_fresh:
  assumes inv: "kinv s (x # xs) fs pend" and e: "e \<in> live s" and va: "user_va va" and perm: "PTE_ADDR perm = 0"
    and s1: "page_alloc s fl = Some (r, s1)"
  shows "r = Some x" "kframe s s1"
    "xs = [] \<Longrightarrow> tabs s (env_dirs s) (dir_of s e, PDX va) = None \<Longrightarrow>
       page_insert s1 (env_pgdir (envs s ! e)) x va perm = Some (- E_NO_MEM, s1)"
    "\<not> (xs = [] \<and> tabs s (env_dirs s) (dir_of s e, PDX va) = None) \<Longrightarrow>
       \<exists>s' xs'. page_insert s1 (env_pgdir (envs s ! e)) x va perm = Some (0, s') \<and> kinv s' xs' fs pend \<and>
         mapped s' (env_dirs s) = (mapped s (env_dirs s))((dir_of s e, PDX va, PTX va) \<mapsto> x) \<and>
         va_pte s' (dir_of s e) va = page2pa x OR perm OR PTE_P \<and>
         (\<forall>d va'. d \<in> env_dirs s \<longrightarrow> user_va va' \<longrightarrow> (d, PTE_ADDR va') \<noteq> (dir_of s e, PTE_ADDR va) \<longrightarrow>
            va_pte s' d va' = va_pte s d va') \<and> kframe s s' \<and> length xs \<le> Suc (length xs') \<and>
         (fl AND ALLOC_ZERO \<noteq> 0 \<longrightarrow> (\<forall>a. PTE_ADDR a = page2pa x \<longrightarrow> mem s' a = 0))"
proof -
  note K = kinvD [OF inv] and A = pt_inv_alloc [OF kinvD(2) [OF inv] s1]
  let ?Ds = "env_dirs s" and ?d = "dir_of s e"
  note D = pt_invD [OF K(2)]
  show "r = Some x" "kframe s s1" by (rule A(1), rule A(9))
  have x: "x < npages s1" "x \<notin> ?Ds" "x \<notin> ran (tabs s1 ?Ds)" "x \<notin> set xs" "unat (ref_of s1 x) + 1 < 65536" "x < 1048576"
    using A(4,9) ref_inv_unreferenced(1,2) [OF D(2) A(5,4)] A(3,5,6,7) K(4) by (simp_all add: kframe_def)
  note I = page_insert_spec [OF A(2) K(6) [OF e] va x(1-5) perm]
  show "page_insert s1 (env_pgdir (envs s ! e)) x va perm = Some (- E_NO_MEM, s1)"
    if "xs = []" "tabs s ?Ds (?d, PDX va) = None"
    using I that A(7) K(5) [OF e] by simp
  assume n: "\<not> (xs = [] \<and> tabs s ?Ds (?d, PDX va) = None)"
  obtain s' xs' where s': "page_insert s1 (env_pgdir (envs s ! e)) x va perm = Some (0, s')"
      "pt_inv s' ?Ds xs' pend" "mapped s' ?Ds = (mapped s ?Ds)((?d, PDX va, PTX va) \<mapsto> x)"
      "va_pte s' ?d va = page2pa x OR perm OR PTE_P"
      "\<forall>d va'. d \<in> ?Ds \<longrightarrow> user_va va' \<longrightarrow> (d, PTE_ADDR va') \<noteq> (?d, PTE_ADDR va) \<longrightarrow> va_pte s' d va' = va_pte s1 d va'"
      "kframe s1 s'" "mem_frame (pt_pages s1 ?Ds xs) s1 s'" "leaks s' xs' = leaks s1 xs - {x}" "length xs \<le> Suc (length xs')"
    using I n A(7,8) K(5) [OF e] by auto
  have fr: "kframe s s'" using A(9) s'(6) by (rule kframe_trans)
  have "leaks s1 xs \<subseteq> insert x (leaks s (x # xs))"
    using A(3,9) by (auto simp: leaks_def kframe_def)
  then have lk: "leaks s' xs' = {}" using s'(8) K(3) by auto
  have "mem_frame {x} s s1"
    unfolding mem_frame_def using page_alloc_mem [OF D(1) s1] by simp
  then have "mem_frame (pt_pages s ?Ds (x # xs)) s s'"
    using s'(7) by (rule mem_frame_trans) (auto simp: A(7))
  then have kinv': "kinv s' xs' fs pend"
    by (rule kinv_pages [OF inv fr _ s'(2) lk])
  have "mem s' a = 0" if "fl AND ALLOC_ZERO \<noteq> 0" "PTE_ADDR a = page2pa x" for a
  proof -
    have "unat (PGNUM a) = x" using that(2) PGNUM_page2pa [OF x(6)] by (metis PGNUM_PTE_ADDR)
    then have "mem s' a = mem s1 a" using s'(7) x(2-4) by (simp add: mem_frame_def)
    then show ?thesis using A(12) [OF that] by simp
  qed
  moreover have "\<forall>d va'. d \<in> ?Ds \<longrightarrow> user_va va' \<longrightarrow> (d, PTE_ADDR va') \<noteq> (?d, PTE_ADDR va) \<longrightarrow> va_pte s' d va' = va_pte s d va'"
    using s'(5) A(11) by simp
  ultimately show "\<exists>s' xs'. page_insert s1 (env_pgdir (envs s ! e)) x va perm = Some (0, s') \<and> kinv s' xs' fs pend \<and>
         mapped s' ?Ds = (mapped s ?Ds)((?d, PDX va, PTX va) \<mapsto> x) \<and> va_pte s' ?d va = page2pa x OR perm OR PTE_P \<and>
         (\<forall>d va'. d \<in> ?Ds \<longrightarrow> user_va va' \<longrightarrow> (d, PTE_ADDR va') \<noteq> (?d, PTE_ADDR va) \<longrightarrow>
            va_pte s' d va' = va_pte s d va') \<and> kframe s s' \<and> length xs \<le> Suc (length xs') \<and>
         (fl AND ALLOC_ZERO \<noteq> 0 \<longrightarrow> (\<forall>a. PTE_ADDR a = page2pa x \<longrightarrow> mem s' a = 0))"
    using s'(1,3,4,9) kinv' fr by (intro exI [of _ s'] exI [of _ xs']) simp
qed

lemma kinv_unmap:
  assumes inv: "kinv s xs fs pend" and e: "e \<in> live s" and va: "user_va va"
  shows "\<exists>s' xs'. page_remove s (env_pgdir (envs s ! e)) va = Some s' \<and> kinv s' xs' fs pend \<and>
     mapped s' (env_dirs s) = (mapped s (env_dirs s))((dir_of s e, PDX va, PTX va) := None) \<and> kframe s s'"
proof (cases "mapped s (env_dirs s) (dir_of s e, PDX va, PTX va)")
  case None
  moreover from None have "(mapped s (env_dirs s))((dir_of s e, PDX va, PTX va) := None) = mapped s (env_dirs s)"
    by auto
  ultimately show ?thesis
    using page_remove_unmapped [OF kinvD(2) [OF inv] kinvD(6) [OF inv e] va None] inv kinvD(5) [OF inv e] by auto
next
  case (Some p)
  note K = kinvD [OF inv]
  obtain s' where s': "page_remove s (dir_kva (dir_of s e)) va = Some s'"
    "pt_inv s' (env_dirs s) (if ref_of s p = 1 then p # xs else xs) pend"
    "mapped s' (env_dirs s) = (mapped s (env_dirs s))((dir_of s e, PDX va, PTX va) := None)" "kframe s s'"
    "mem_frame (ran (tabs s (env_dirs s))) s s'" "leaks s' (if ref_of s p = 1 then p # xs else xs) = leaks s xs"
    using page_remove_mapped [OF K(2) K(6) [OF e] va Some] by metis
  have "mem_frame (pt_pages s (env_dirs s) xs) s s'"
    using s'(5) by (rule mem_frame_mono) auto
  moreover have "leaks s' (if ref_of s p = 1 then p # xs else xs) = {}"
    using s'(6) K(3) by simp
  ultimately have "kinv s' (if ref_of s p = 1 then p # xs else xs) fs pend"
    by (rule kinv_pages [OF inv s'(4) _ s'(2)])
  then show ?thesis
    using s'(1,3,4) K(5) [OF e] by auto
qed

subsection \<open>Allocating a region\<close>

lemma PTE_ADDR_WU: "PTE_ADDR (PTE_W OR PTE_U) = 0"
  by (simp add: PTE_ADDR_def pte_flag_defs)

lemma kframe_env:
  assumes "kframe s s'"
  shows "envs s' = envs s" "live s' = live s" "dir_of s' = dir_of s" "env_dirs s' = env_dirs s"
  using assms env_dirs_cong [of s' s] by (simp_all add: kframe_def)

lemma page_step:
  assumes "unat b + 4096 * Suc n < 4294967296" "PGOFF b = 0"
  shows "unat (b + PGSIZE) = unat b + 4096" "PGOFF (b + PGSIZE) = 0"
proof -
  show u: "unat (b + PGSIZE) = unat b + 4096"
    using assms(1) by (simp add: PGSIZE_def unat_word_ariths)
  have "unat b mod 4096 = 0" using assms(2) unat_PGOFF [of b] by simp
  then have "unat (PGOFF (b + PGSIZE)) = 0" by (simp add: unat_PGOFF u)
  then show "PGOFF (b + PGSIZE) = 0" by (simp add: word_unat_eq_iff)
qed

text \<open>The pages \<open>b, b + 4096, ...\<close> of a region of \<open>n\<close> pages.\<close>

definition region_pages :: "u32 \<Rightarrow> nat \<Rightarrow> u32 set" where
  "region_pages b n = (\<lambda>k. b + 4096 * of_nat k) ` {..<n}"

lemma region_pages_Suc: "region_pages b (Suc n) = insert b (region_pages (b + PGSIZE) n)"
proof -
  have "{..<Suc n} = insert 0 (Suc ` {..<n})"
    by (rule lessThan_Suc_eq_insert_0)
  then show ?thesis
    by (simp add: region_pages_def PGSIZE_def image_image algebra_simps)
qed

lemma region_pages_unat:
  assumes "a \<in> region_pages b n" "unat b + 4096 * n < 4294967296"
  shows "unat b \<le> unat a" "unat a < unat b + 4096 * n"
proof -
  obtain k where k: "k < n" "a = b + of_nat (4096 * k)"
    using assms(1) by (auto simp: region_pages_def)
  have "unat (of_nat (4096 * k) :: u32) = 4096 * k"
    using k(1) assms(2) by (intro unat_of_nat_u32) simp
  then have "unat a = unat b + 4096 * k"
    using k assms(2) by (simp add: unat_word_ariths)
  then show "unat b \<le> unat a" "unat a < unat b + 4096 * n"
    using k(1) by simp_all
qed

lemma region_loop_spec:
  assumes "kinv s xs fs pend" "e \<in> live s" "2 * n \<le> length xs" "PGOFF b = 0"
    and "unat end_va = unat b + 4096 * n" "unat end_va \<le> unat UTOP"
  shows "\<exists>s' xs'. region_loop s (env_pgdir (envs s ! e)) b end_va = Some s' \<and> kinv s' xs' fs pend \<and> kframe s s' \<and>
     (\<forall>va \<in> region_pages b n. \<exists>p. va_pte s' (dir_of s e) va = page2pa p OR (PTE_W OR PTE_U) OR PTE_P) \<and>
     (\<forall>d va. d \<in> env_dirs s \<longrightarrow> user_va va \<longrightarrow> d \<noteq> dir_of s e \<or> PTE_ADDR va \<notin> region_pages b n \<longrightarrow>
        va_pte s' d va = va_pte s d va)"
  using assms
proof (induction n arbitrary: s xs b)
  case 0
  then have "\<not> b < end_va" by (simp add: word_less_nat_alt)
  then have "region_loop s (env_pgdir (envs s ! e)) b end_va = Some s"
    by (subst region_loop.simps) simp
  then show ?case
    using "0.prems"(1) by (auto simp: region_pages_def)
next
  case (Suc n)
  note inv = Suc.prems(1) and e = Suc.prems(2)
  have utop: "unat UTOP < 4294967296" by (rule unat_less_32 [simplified])
  have lt: "b < end_va" and ub: "user_va b"
    using Suc.prems(5,6) by (auto simp: word_less_nat_alt user_va_def)
  obtain x ys where xs: "xs = x # ys" "ys \<noteq> []"
    using Suc.prems(3) by (cases xs; cases "tl xs") auto
  obtain r s1 where s1: "page_alloc s 0 = Some (r, s1)"
    using page_alloc_Cons [OF pt_invD(1) [OF kinvD(2) [OF inv [unfolded xs]]]] by blast
  note F = kinv_fresh [OF inv [unfolded xs] e ub PTE_ADDR_WU s1]
  obtain s2 xs2 where s2: "page_insert s1 (env_pgdir (envs s ! e)) x b (PTE_W OR PTE_U) = Some (0, s2)"
    "kinv s2 xs2 fs pend" "va_pte s2 (dir_of s e) b = page2pa x OR (PTE_W OR PTE_U) OR PTE_P"
    "\<forall>d va'. d \<in> env_dirs s \<longrightarrow> user_va va' \<longrightarrow> (d, PTE_ADDR va') \<noteq> (dir_of s e, PTE_ADDR b) \<longrightarrow>
       va_pte s2 d va' = va_pte s d va'" "kframe s s2" "length ys \<le> Suc (length xs2)"
    using F(4) xs(2) by blast
  note fr = kframe_env [OF s2(5)]
  have step: "region_loop s (env_pgdir (envs s ! e)) b end_va = region_loop s2 (env_pgdir (envs s ! e)) (b + PGSIZE) end_va"
    using lt s1 F(1) s2(1) by (subst region_loop.simps) simp
  have b': "unat (b + PGSIZE) = unat b + 4096" "PGOFF (b + PGSIZE) = 0"
    by (rule page_step [of b n]; use Suc.prems(4-6) utop in simp)+
  have "2 * n \<le> length xs2" "unat end_va = unat (b + PGSIZE) + 4096 * n"
    using Suc.prems(3,5) xs(1) s2(6) b' by simp_all
  then obtain s' xs' where s': "region_loop s2 (env_pgdir (envs s ! e)) (b + PGSIZE) end_va = Some s'"
    "kinv s' xs' fs pend" "kframe s2 s'"
    "\<forall>va \<in> region_pages (b + PGSIZE) n. \<exists>p. va_pte s' (dir_of s e) va = page2pa p OR (PTE_W OR PTE_U) OR PTE_P"
    "\<forall>d va. d \<in> env_dirs s \<longrightarrow> user_va va \<longrightarrow> d \<noteq> dir_of s e \<or> PTE_ADDR va \<notin> region_pages (b + PGSIZE) n \<longrightarrow>
        va_pte s' d va = va_pte s2 d va"
    using Suc.IH [OF s2(2) _ _ b'(2)] e Suc.prems(6) fr by auto
  have al: "PTE_ADDR b = b" using Suc.prems(4) by (rule PTE_ADDR_aligned)
  have "b \<notin> region_pages (b + PGSIZE) n"
    using region_pages_unat(1) [of b "b + PGSIZE" n] b' Suc.prems(5,6) utop by auto
  then have "va_pte s' (dir_of s e) b = page2pa x OR (PTE_W OR PTE_U) OR PTE_P"
    using s'(5) s2(3) kinvD(6) [OF inv e] ub al by simp
  then have "\<forall>va \<in> region_pages b (Suc n). \<exists>p. va_pte s' (dir_of s e) va = page2pa p OR (PTE_W OR PTE_U) OR PTE_P"
    using s'(4) by (auto simp: region_pages_Suc)
  moreover have "\<forall>d va. d \<in> env_dirs s \<longrightarrow> user_va va \<longrightarrow> d \<noteq> dir_of s e \<or> PTE_ADDR va \<notin> region_pages b (Suc n) \<longrightarrow>
        va_pte s' d va = va_pte s d va"
    using s'(5) s2(4) al by (auto simp: region_pages_Suc)
  moreover have "kframe s s'" using s2(5) s'(3) by (rule kframe_trans)
  ultimately show ?case
    using step s'(1,2) by metis
qed

lemma region_end:
  assumes nw: "unat va + unat len + 4095 < 4294967296"
  shows "unat (ROUNDUP (va + len) PGSIZE) = unat (ROUNDDOWN va PGSIZE) + 4096 * npages_touched va len"
proof -
  have sum: "unat (va + len) = unat va + unat len"
    using nw by (simp add: unat_word_ariths)
  have "unat va div 4096 \<le> (unat va + unat len + 4095) div 4096"
    by (rule div_le_mono) simp
  then show ?thesis
    using nw by (simp add: unat_ROUNDUP sum unat_ROUNDDOWN npages_touched_def minus_mod_eq_mult_div
        diff_mult_distrib2 del: div_le_mono)
qed

lemma va_pte_page: "PTE_ADDR a = PTE_ADDR b \<Longrightarrow> va_pte s d a = va_pte s d b"
  by (simp add: va_pte_def same_page_iff)

lemma region_pages_range:
  assumes nw: "unat va + unat len + 4095 < 4294967296" and a: "unat va \<le> unat a" "unat a < unat va + unat len"
  shows "PTE_ADDR a \<in> region_pages (ROUNDDOWN va PGSIZE) (npages_touched va len)"
  using page_of_address [OF nw a] by (auto simp: region_pages_def nth_page_def)

text \<open>
  C31. \<open>region_alloc\<close> with enough free pages (one page and at most one page table for each page of the
  region): it terminates without panic, every address of \<open>[va, va+len)\<close> is mapped user-writable afterwards,
  user pages outside the region and other address spaces are unchanged, and the kernel invariant holds.
\<close>

theorem region_alloc_correct:
  assumes "kinv s xs fs pend" "e \<in> live s" "2 * npages_touched va len \<le> length xs"
    and "unat va + unat len + 4095 < 4294967296" "unat (ROUNDUP (va + len) PGSIZE) \<le> unat UTOP"
  shows "\<exists>s' xs'. region_alloc s e va len = Some s' \<and> kinv s' xs' fs pend \<and>
     (\<forall>a. unat va \<le> unat a \<and> unat a < unat va + unat len \<longrightarrow>
        (\<exists>p. va_pte s' (dir_of s e) a = page2pa p OR (PTE_W OR PTE_U) OR PTE_P)) \<and>
     (\<forall>d a. d \<in> env_dirs s \<longrightarrow> user_va a \<longrightarrow> d \<noteq> dir_of s e \<or>
        PTE_ADDR a \<notin> region_pages (PTE_ADDR va) (npages_touched va len) \<longrightarrow> va_pte s' d a = va_pte s d a)"
proof -
  have al: "PGOFF (ROUNDDOWN va PGSIZE) = 0" by (simp add: ROUNDDOWN_PTE_ADDR)
  obtain s' xs' where s': "region_alloc s e va len = Some s'" "kinv s' xs' fs pend"
     "\<forall>a \<in> region_pages (ROUNDDOWN va PGSIZE) (npages_touched va len).
        \<exists>p. va_pte s' (dir_of s e) a = page2pa p OR (PTE_W OR PTE_U) OR PTE_P"
     "\<forall>d a. d \<in> env_dirs s \<longrightarrow> user_va a \<longrightarrow> d \<noteq> dir_of s e \<or>
        PTE_ADDR a \<notin> region_pages (ROUNDDOWN va PGSIZE) (npages_touched va len) \<longrightarrow> va_pte s' d a = va_pte s d a"
    using region_loop_spec [OF assms(1-3) al region_end [OF assms(4)] assms(5)]
    unfolding region_alloc_def by blast
  have "\<exists>p. va_pte s' (dir_of s e) a = page2pa p OR (PTE_W OR PTE_U) OR PTE_P"
    if a: "unat va \<le> unat a" "unat a < unat va + unat len" for a
  proof -
    obtain p where "va_pte s' (dir_of s e) (PTE_ADDR a) = page2pa p OR (PTE_W OR PTE_U) OR PTE_P"
      using s'(3) region_pages_range [OF assms(4) a] by blast
    then show ?thesis
      using va_pte_page [of "PTE_ADDR a" a s' "dir_of s e"] by auto
  qed
  then show ?thesis
    using s'(1,2,4) unfolding ROUNDDOWN_PTE_ADDR by blast
qed

theorem region_alloc_correct_witness:
  "\<exists>s s' p. env_alloc kinit 0 = Some (0, Some 0, s) \<and> region_alloc s 0 0x800FF0 0x20 = Some s' \<and>
     va_pte s' 3 0x801000 = page2pa p OR (PTE_W OR PTE_U) OR PTE_P"
proof -
  obtain s where s: "env_alloc kinit 0 = Some (0, Some 0, s)" "kinv s [4, 5, 6, 7] [1..<NENV] init_pend" "live s = {0}" "dir_of s 0 = 3"
    by (rule kinit_alloc)
  have "2 * npages_touched 0x800FF0 0x20 \<le> length [4, 5, 6, 7 :: nat]"
    "unat (ROUNDUP (0x800FF0 + 0x20) PGSIZE) \<le> unat UTOP"
    by (simp_all add: npages_touched_def ROUNDUP_def ROUNDDOWN_def layout_defs)
  then obtain s' xs' where "region_alloc s 0 0x800FF0 0x20 = Some s'"
     "\<forall>a. unat (0x800FF0 :: u32) \<le> unat a \<and> unat a < unat (0x800FF0 :: u32) + unat (0x20 :: u32) \<longrightarrow>
        (\<exists>p. va_pte s' (dir_of s 0) a = page2pa p OR (PTE_W OR PTE_U) OR PTE_P)"
    using region_alloc_correct [OF s(2), of 0 "0x800FF0" "0x20"] s(3) by auto
  then show ?thesis
    using s(1,4) by (auto dest: spec [of _ "0x801000"])
qed

text \<open>
  C40. \<open>region_alloc\<close> ignores the result of \<open>page_insert\<close>, although its comment asks for a panic when any
  allocation fails. When the last free page is taken for the region and no page is left for the missing
  page table, it returns normally with the address still unmapped and the page lost: no longer on the free
  list and not referenced by anything.
\<close>

theorem region_alloc_ignores_failure:
  assumes "kinv s [x] fs pend" "e \<in> live s" "PGOFF va = 0" "user_va va"
    and "tabs s (env_dirs s) (dir_of s e, PDX va) = None"
  shows "\<exists>s'. region_alloc s e va PGSIZE = Some s' \<and> va_pte s' (dir_of s e) va = 0 \<and>
     page_free_list s' = None \<and> ref_of s' x = 0"
proof -
  note K = kinvD [OF assms(1)]
  obtain r s1 where s1: "page_alloc s 0 = Some (r, s1)"
    using page_alloc_Cons [OF pt_invD(1) [OF K(2)]] by blast
  note F = kinv_fresh [OF assms(1,2,4) PTE_ADDR_WU s1] and A = pt_inv_alloc [OF K(2) s1]
  have b: "unat va < unat UTOP" using assms(4) by (simp add: user_va_def word_less_nat_alt)
  then have "unat va + 4096 < 4294967296"
    by (simp add: layout_defs)
  then have u: "unat (va + PGSIZE) = unat va + 4096"
    by (simp add: PGSIZE_def unat_word_ariths)
  have r: "ROUNDDOWN va PGSIZE = va" "ROUNDUP (va + PGSIZE) PGSIZE = va + PGSIZE"
  proof -
    show "ROUNDDOWN va PGSIZE = va" by (simp add: ROUNDDOWN_PTE_ADDR PTE_ADDR_aligned assms(3))
    obtain k where k: "unat va = 4096 * k" using assms(3) by (rule aligned_multiple)
    have "unat va + 4096 + 4095 < 4294967296" using b by (simp add: layout_defs)
    then have "unat (ROUNDUP (va + PGSIZE) PGSIZE) = unat (va + PGSIZE)"
      by (simp add: unat_ROUNDUP u k)
    then show "ROUNDUP (va + PGSIZE) PGSIZE = va + PGSIZE" by (simp add: word_unat_eq_iff)
  qed
  have "va < va + PGSIZE" "\<not> va + PGSIZE < va + PGSIZE"
    by (simp_all add: word_less_nat_alt u)
  then have "region_alloc s e va PGSIZE = Some s1"
    using s1 F(1) F(3) [OF refl assms(5)] unfolding region_alloc_def r
    by (subst region_loop.simps) (simp add: region_loop.simps)
  moreover have "va_pte s1 (dir_of s e) va = 0"
  proof -
    have d: "dir_of s e \<in> env_dirs s" using K(6) [OF assms(2)] .
    have "va_pte s1 (dir_of s e) va = va_pte s (dir_of s e) va"
      by (rule A(11) [OF d assms(4)])
    moreover have "\<not> present (pde_at s (dir_of s e) (PDX va))"
      using assms(4,5) d by (simp add: tabs_None user_va_PDX)
    ultimately show ?thesis by (simp add: va_pte_def)
  qed
  moreover have "page_free_list s1 = None"
    using pt_invD(1) [OF A(2)] by (simp add: free_inv_def)
  moreover have "ref_of s1 x = 0" using A(3,5) by simp
  ultimately show ?thesis by blast
qed

lemma upt_Suc_step: "k < NENV \<Longrightarrow> [k..<NENV] = k # [Suc k..<NENV]"
  by (simp add: upt_conv_Cons)

lemma one_page_left:
  obtains s where "kinv s [7] [4..<NENV] init_pend" "3 \<in> live s" "dir_of s 3 = 6"
    "\<forall>i. unat i < 955 \<longrightarrow> pde_at s 6 i = 0"
proof -
  have n: "k < NENV" if "k < 5" for k using that by (simp add: NENV_def)
  have c1: "kinv kinit [3, 4, 5, 6, 7] (0 # [Suc 0..<NENV]) init_pend"
    using kinit_kinv upt_Suc_step [OF n, of 0] by simp
  obtain s1 where "kinv s1 [4, 5, 6, 7] [Suc 0..<NENV] init_pend"
    by (rule env_alloc_spec [OF c1, of 0])
  then have c2: "kinv s1 [4, 5, 6, 7] (1 # [2..<NENV]) init_pend"
    using upt_Suc_step [OF n, of 1] by (simp add: numeral_2_eq_2)
  obtain s2 where "kinv s2 [5, 6, 7] [2..<NENV] init_pend"
    by (rule env_alloc_spec [OF c2, of 0])
  then have c3: "kinv s2 [5, 6, 7] (2 # [3..<NENV]) init_pend"
    using upt_Suc_step [OF n, of 2] by simp
  obtain s3 where "kinv s3 [6, 7] [3..<NENV] init_pend"
    by (rule env_alloc_spec [OF c3, of 0])
  then have c4: "kinv s3 [6, 7] (3 # [4..<NENV]) init_pend"
    using upt_Suc_step [OF n, of 3] by simp
  obtain s where "kinv s [7] [4..<NENV] init_pend" "live s = insert 3 (live s3)" "dir_of s 3 = 6" "fresh_env s3 s 3 6 0"
    by (rule env_alloc_spec [OF c4, of 0])
  then show thesis
    by (intro that [of s]) (simp_all add: fresh_env_def)
qed

theorem region_alloc_ignores_failure_witness:
  "\<exists>s s'. region_alloc s 3 0x800000 PGSIZE = Some s' \<and> va_pte s' 6 0x800000 = 0 \<and> page_free_list s' = None \<and> ref_of s' 7 = 0"
proof -
  obtain s where s: "kinv s [7] [4..<NENV] init_pend" "3 \<in> live s" "dir_of s 3 = 6"
    "\<forall>i. unat i < 955 \<longrightarrow> pde_at s 6 i = 0"
    by (rule one_page_left)
  have va: "PGOFF 0x800000 = 0" "user_va 0x800000"
    by (simp_all add: PGOFF_def user_va_def layout_defs)
  have "tabs s (env_dirs s) (dir_of s 3, PDX 0x800000) = None"
    using s(3,4) by (simp add: tabs_def UPDES present_def)
  then show ?thesis
    using region_alloc_ignores_failure [OF s(1,2) va] s(3) by auto
qed

end
