(* ===== verification/JosSched.thy ===== *)
theory JosSched
  imports JosSpace
begin

text \<open>
  Leaving the kernel: \<open>env_run\<close>, \<open>env_pop_tf\<close> and \<open>env_destroy\<close> of kern/env.c, the round-robin scheduler of
  kern/sched.c, and \<open>user_mem_assert\<close> of kern/pmap.c. These functions do not return to their caller on every
  path, so their result is an \<open>outcome\<close>: the function returned, the CPU entered an environment, the CPU halted,
  or the kernel monitor took over. \<open>None\<close> is a panic, as everywhere.
\<close>

datatype 'a outcome = Returns 'a kern | Runs nat kern | Halts kern | Monitors kern

subsection \<open>The code\<close>

definition env_pop_tf :: "kern \<Rightarrow> 'a outcome option" where
  "env_pop_tf s =
     (case curenv s of
        None \<Rightarrow> None
      | Some c \<Rightarrow> Some (Runs c (upd_env s c (\<lambda>v. v\<lparr>env_cpunum := cpu_num s\<rparr>))))"

definition env_run :: "kern \<Rightarrow> nat \<Rightarrow> 'a outcome option" where
  "env_run s e = do {
     let s = (case curenv s of
         None \<Rightarrow> s
       | Some c \<Rightarrow> if env_status (envs s ! c) = ENV_RUNNING then upd_env s c (\<lambda>v. v\<lparr>env_status := ENV_RUNNABLE\<rparr>) else s);
     let s = s\<lparr>curenv := Some e\<rparr>;
     let s = upd_env s e (\<lambda>v. v\<lparr>env_status := ENV_RUNNING, env_runs := env_runs v + 1\<rparr>);
     pa \<leftarrow> PADDR (env_pgdir (envs s ! e));
     let s = s\<lparr>cr3 := pa\<rparr>;
     let s = s\<lparr>kernel_locked := False\<rparr>;
     env_pop_tf s
   }"

definition sched_halt :: "kern \<Rightarrow> 'a outcome option" where
  "sched_halt s =
     (if \<forall>i \<in> set [0..<NENV]. env_status (envs s ! i) \<noteq> ENV_RUNNABLE \<and> env_status (envs s ! i) \<noteq> ENV_RUNNING \<and>
           env_status (envs s ! i) \<noteq> ENV_DYING
      then Some (Monitors s)
      else do {
        let s = s\<lparr>curenv := None\<rparr>;
        pa \<leftarrow> PADDR (kern_pgdir s);
        let s = s\<lparr>cr3 := pa\<rparr>;
        let s = s\<lparr>cpu_status := CPU_HALTED\<rparr>;
        Some (Halts (s\<lparr>kernel_locked := False\<rparr>))
      })"

definition sched_yield :: "kern \<Rightarrow> 'a outcome option" where
  "sched_yield s =
     (let start = (case curenv s of None \<Rightarrow> 0 | Some c \<Rightarrow> ENVX (env_id (envs s ! c)) + 1)
      in case find (\<lambda>j. env_status (envs s ! j) = ENV_RUNNABLE) (map (\<lambda>i. (start + i) mod NENV) [0..<NENV]) of
           Some j \<Rightarrow> env_run s j
         | None \<Rightarrow>
             (case curenv s of
                Some c \<Rightarrow> if env_status (envs s ! c) = ENV_RUNNING then env_run s c else sched_halt s
              | None \<Rightarrow> sched_halt s))"

definition env_destroy :: "kern \<Rightarrow> nat \<Rightarrow> unit outcome option" where
  "env_destroy s e =
     (if env_status (envs s ! e) = ENV_RUNNING \<and> curenv s \<noteq> Some e
      then Some (Returns () (upd_env s e (\<lambda>v. v\<lparr>env_status := ENV_DYING\<rparr>)))
      else do {
        s \<leftarrow> env_free s e;
        if curenv s = Some e then sched_yield (s\<lparr>curenv := None\<rparr>) else Some (Returns () s)
      })"

definition user_mem_assert :: "kern \<Rightarrow> nat \<Rightarrow> u32 \<Rightarrow> u32 \<Rightarrow> u32 \<Rightarrow> unit outcome option" where
  "user_mem_assert s env va len perm = do {
     (r, s) \<leftarrow> user_mem_check s env va len (perm OR PTE_U);
     if r < 0 then env_destroy s env else Some (Returns () s)
   }"

subsection \<open>Updates that keep the kernel invariant\<close>

text \<open>Nothing but fields of environments that the invariant does not mention changes.\<close>

definition env_frame :: "kern \<Rightarrow> kern \<Rightarrow> bool" where
  "env_frame s s' \<longleftrightarrow> mem s' = mem s \<and> pages s' = pages s \<and> npages s' = npages s \<and>
     page_free_list s' = page_free_list s \<and> kern_pgdir s' = kern_pgdir s \<and> env_free_list s' = env_free_list s \<and>
     length (envs s') = length (envs s) \<and>
     (\<forall>i < length (envs s). env_id (envs s' ! i) = env_id (envs s ! i) \<and> env_link (envs s' ! i) = env_link (envs s ! i) \<and>
        env_pgdir (envs s' ! i) = env_pgdir (envs s ! i) \<and>
        (env_status (envs s' ! i) = ENV_FREE \<longleftrightarrow> env_status (envs s ! i) = ENV_FREE))"

lemma env_frame_refl [simp]: "env_frame s s"
  by (simp add: env_frame_def)

lemma env_frame_trans: "env_frame s t \<Longrightarrow> env_frame t u \<Longrightarrow> env_frame s u"
  by (auto simp: env_frame_def)

lemma env_frame_upd:
  assumes "i < length (envs s) \<Longrightarrow> env_id (f (envs s ! i)) = env_id (envs s ! i) \<and> env_link (f (envs s ! i)) = env_link (envs s ! i) \<and>
      env_pgdir (f (envs s ! i)) = env_pgdir (envs s ! i) \<and>
      (env_status (f (envs s ! i)) = ENV_FREE \<longleftrightarrow> env_status (envs s ! i) = ENV_FREE)"
  shows "env_frame s (upd_env s i f)"
proof (cases "i < length (envs s)")
  case True
  then show ?thesis
    using assms by (simp add: env_frame_def upd_env_nth)
next
  case False
  then show ?thesis
    by (simp add: env_frame_def upd_env_def)
qed

lemma env_frame_other [simp]:
  "env_frame s (t\<lparr>curenv := c\<rparr>) = env_frame s t" "env_frame s (t\<lparr>cr3 := a\<rparr>) = env_frame s t"
  "env_frame s (t\<lparr>kernel_locked := b\<rparr>) = env_frame s t" "env_frame s (t\<lparr>cpu_status := x\<rparr>) = env_frame s t"
  by (simp_all add: env_frame_def)

lemma kinv_env_frame:
  assumes inv: "kinv s xs fs pend" and fr: "env_frame s s'"
  shows "kinv s' xs fs pend" "live s' = live s" "\<And>i. i \<in> live s \<Longrightarrow> dir_of s' i = dir_of s i" "env_dirs s' = env_dirs s"
    "mapped s' = mapped s" "va_pte s' = va_pte s"
proof -
  note K = kinvD [OF inv] and E = env_invD [OF kinvD(1) [OF inv]]
  have f: "mem s' = mem s" "pages s' = pages s" "npages s' = npages s" "page_free_list s' = page_free_list s"
    "kern_pgdir s' = kern_pgdir s" "env_free_list s' = env_free_list s" "length (envs s') = NENV"
    and e: "\<And>i. i < NENV \<Longrightarrow> env_id (envs s' ! i) = env_id (envs s ! i) \<and> env_link (envs s' ! i) = env_link (envs s ! i) \<and>
      env_pgdir (envs s' ! i) = env_pgdir (envs s ! i) \<and>
      (env_status (envs s' ! i) = ENV_FREE \<longleftrightarrow> env_status (envs s ! i) = ENV_FREE)"
    using fr K(9) by (simp_all add: env_frame_def)
  note C = pt_inv_cong [OF f(1-4)]
  show live: "live s' = live s"
    using e by (auto simp: live_def)
  show dir: "dir_of s' i = dir_of s i" if "i \<in> live s" for i
    using that e [of i] by (simp add: dir_of_def live_def)
  show dirs: "env_dirs s' = env_dirs s"
    unfolding env_dirs_def live by (rule image_cong) (simp_all add: dir)
  show "mapped s' = mapped s" using C(3) by blast
  show "va_pte s' = va_pte s" by (rule C(5))
  have "linked (\<lambda>i. env_link (envs s' ! i)) (env_free_list s') fs"
    using E(2) E(4) e unfolding f(6) by (subst linked_cong [of fs _ "\<lambda>i. env_link (envs s ! i)"]) auto
  then have "env_inv s' fs"
    using E(3,4,5) f(7) e unfolding env_inv_def by auto
  moreover have "\<forall>i \<in> live s'. env_pgdir (envs s' ! i) = dir_kva (dir_of s' i)"
    using K(5) e dir by (auto simp: live live_def)
  moreover have "inj_on (dir_of s') (live s')"
    using K(7) dir unfolding live inj_on_def by auto
  moreover have "template_ok s' pend"
    using K(8) by (simp add: template_ok_def f(3,5) C(6))
  ultimately show "kinv s' xs fs pend"
    using K(2,3,4) C(1,4) f(3) by (simp add: kinv_def dirs)
qed

subsection \<open>Running an environment\<close>

definition cur_live :: "kern \<Rightarrow> bool" where
  "cur_live s \<longleftrightarrow> (case curenv s of None \<Rightarrow> True | Some c \<Rightarrow> c \<in> live s)"

text \<open>The status of every environment after \<open>env_run\<close> switched from \<open>s\<close> to \<open>e\<close>.\<close>

definition switched :: "kern \<Rightarrow> nat \<Rightarrow> nat \<Rightarrow> env_status" where
  "switched s e i =
     (if i = e then ENV_RUNNING
      else if curenv s = Some i \<and> env_status (envs s ! i) = ENV_RUNNING then ENV_RUNNABLE
      else env_status (envs s ! i))"

lemma env_run_spec:
  assumes inv: "kinv s xs fs pend" and e: "e \<in> live s" and c: "cur_live s"
  obtains s' where "env_run s e = Some (Runs e s')" "env_frame s s'" "curenv s' = Some e"
    "cr3 s' = page2pa (dir_of s e)" "\<not> kernel_locked s'" "\<And>i. i < NENV \<Longrightarrow> env_status (envs s' ! i) = switched s e i"
    "cpu_status s' = cpu_status s"
proof -
  note K = kinvD [OF inv]
  have el: "e < NENV" "e < length (envs s)"
    using K(9,10) e by simp_all
  define s1 where "s1 = (case curenv s of
         None \<Rightarrow> s
       | Some c \<Rightarrow> if env_status (envs s ! c) = ENV_RUNNING then upd_env s c (\<lambda>v. v\<lparr>env_status := ENV_RUNNABLE\<rparr>) else s)"
  define s2 where "s2 = upd_env (s1\<lparr>curenv := Some e\<rparr>) e (\<lambda>v. v\<lparr>env_status := ENV_RUNNING, env_runs := env_runs v + 1\<rparr>)"
  define s3 where "s3 = s2\<lparr>cr3 := page2pa (dir_of s e), kernel_locked := False\<rparr>"
  define s' where "s' = upd_env s3 e (\<lambda>v. v\<lparr>env_cpunum := cpu_num s3\<rparr>)"
  have f1: "env_frame s s1"
    using c by (auto simp: s1_def cur_live_def live_def split: option.split intro!: env_frame_upd)
  have l1: "e < length (envs s1)" "env_status (envs s1 ! e) \<noteq> ENV_FREE" "env_pgdir (envs s1 ! e) = dir_kva (dir_of s e)"
    using f1 el e K(5) [OF e] by (auto simp: env_frame_def live_def)
  have f2: "env_frame s1 s2"
    using env_frame_upd [of e "s1\<lparr>curenv := Some e\<rparr>"] l1(2) by (simp add: s2_def env_frame_def)
  have f3: "env_frame s2 s3"
    by (simp add: s3_def env_frame_def)
  have f4: "env_frame s3 s'"
    unfolding s'_def by (rule env_frame_upd) simp
  have fr: "env_frame s s'"
    using f1 f2 f3 f4 by (blast intro: env_frame_trans)
  have "env_pgdir (envs s2 ! e) = dir_kva (dir_of s e)"
    using f2 l1 by (simp add: env_frame_def)
  then have "env_run s e = Some (Runs e s')"
    using PADDR_dir_kva [OF K(11) [OF e] K(4)]
    by (simp add: env_run_def env_pop_tf_def s'_def s3_def flip: s1_def s2_def)
  moreover have "curenv s' = Some e" "cr3 s' = page2pa (dir_of s e)" "\<not> kernel_locked s'" "cpu_status s' = cpu_status s"
    by (simp_all add: s'_def s3_def s2_def s1_def upd_env_def split: option.split)
  moreover have "env_status (envs s' ! i) = switched s e i" if "i < NENV" for i
  proof -
    have "env_status (envs s' ! i) = (if i = e then ENV_RUNNING else env_status (envs s1 ! i))"
      using that l1(1) by (simp add: s'_def s3_def s2_def upd_env_def nth_list_update)
    also have "\<dots> = switched s e i"
      using that K(9) c by (cases "curenv s") (auto simp: switched_def s1_def upd_env_def nth_list_update cur_live_def live_def)
    finally show ?thesis .
  qed
  ultimately show thesis
    using that fr by blast
qed

definition all_idle :: "kern \<Rightarrow> bool" where
  "all_idle s \<longleftrightarrow> (\<forall>i < NENV. env_status (envs s ! i) \<in> {ENV_FREE, ENV_NOT_RUNNABLE})"

lemma idle_status: "x \<noteq> ENV_RUNNABLE \<and> x \<noteq> ENV_RUNNING \<and> x \<noteq> ENV_DYING \<longleftrightarrow> x \<in> {ENV_FREE, ENV_NOT_RUNNABLE}"
  by (cases x) simp_all

lemma sched_halt_idle: "all_idle s \<Longrightarrow> sched_halt s = Some (Monitors s)"
  by (simp add: sched_halt_def idle_status all_idle_def)

lemma sched_halt_busy:
  assumes inv: "kinv s xs fs pend" and b: "\<not> all_idle s"
  obtains s' where "(sched_halt s :: 'a outcome option) = Some (Halts s')" "env_frame s s'" "curenv s' = None"
     "cr3 s' = kern_pgdir s - KERNBASE" "cpu_status s' = CPU_HALTED" "\<not> kernel_locked s'" "envs s' = envs s"
proof -
  note K = kinvD [OF inv]
  obtain k where k: "kern_pgdir s = dir_kva k" "k < npages s"
    using K(8) by (auto simp: template_ok_def)
  have "PADDR (kern_pgdir s) = Some (kern_pgdir s - KERNBASE)"
    using PADDR_dir_kva [OF k(2) K(4)] by (simp add: k(1))
  moreover have "\<not> (\<forall>i \<in> set [0..<NENV]. env_status (envs s ! i) \<noteq> ENV_RUNNABLE \<and> env_status (envs s ! i) \<noteq> ENV_RUNNING \<and>
           env_status (envs s ! i) \<noteq> ENV_DYING)"
    using b unfolding idle_status all_idle_def by auto
  ultimately show thesis
    by (intro that [of "s\<lparr>curenv := None, cr3 := kern_pgdir s - KERNBASE, cpu_status := CPU_HALTED, kernel_locked := False\<rparr>"])
      (simp_all add: sched_halt_def)
qed

subsection \<open>The scheduler\<close>

text \<open>How far slot \<open>i\<close> is behind slot \<open>c\<close> in the circular order of the search.\<close>

definition sched_dist :: "nat \<Rightarrow> nat \<Rightarrow> nat" where
  "sched_dist c i = (i + NENV - Suc c) mod NENV"

lemma dist_if: "c < NENV \<Longrightarrow> i < NENV \<Longrightarrow> sched_dist c i = (if c < i then i - Suc c else i + NENV - Suc c)"
  by (auto simp: sched_dist_def) (metis Suc_leI add.commute diff_add_assoc2 diff_less_Suc less_trans_Suc mod_add_self2 mod_less not_less_eq)

lemma slot_if: "c < NENV \<Longrightarrow> k < NENV \<Longrightarrow> (Suc c + k) mod NENV = (if Suc c + k < NENV then Suc c + k else Suc c + k - NENV)"
  by (simp add: le_mod_geq)

lemma dist_less: "sched_dist c i < NENV"
  by (simp add: sched_dist_def NENV_def)

lemma dist_slot: "c < NENV \<Longrightarrow> i < NENV \<Longrightarrow> (Suc c + sched_dist c i) mod NENV = i"
  using slot_if [of c "sched_dist c i"] dist_less [of c i] by (auto simp: dist_if split: if_splits)

lemma dist_step:
  assumes "c < NENV" "i < NENV" "k < sched_dist c i" "j = (Suc c + k) mod NENV"
  shows "sched_dist j i < sched_dist c i"
proof -
  have k: "k < NENV" using assms(3) dist_less [of c i] by simp
  have j: "j < NENV" using assms(4) by (simp add: NENV_def)
  show ?thesis
    using assms(1-3) assms(4) [unfolded slot_if [OF assms(1) k]] j
    unfolding dist_if [OF assms(1,2)] dist_if [OF j assms(2)]
    by (auto split: if_splits)
qed

definition sched_start :: "kern \<Rightarrow> nat" where
  "sched_start s = (case curenv s of None \<Rightarrow> 0 | Some c \<Rightarrow> Suc c)"

lemma sched_yield_alt:
  assumes inv: "kinv s xs fs pend" and c: "cur_live s"
  shows "sched_yield s =
     (case find (\<lambda>k. env_status (envs s ! ((sched_start s + k) mod NENV)) = ENV_RUNNABLE) [0..<NENV] of
        Some k \<Rightarrow> env_run s ((sched_start s + k) mod NENV)
      | None \<Rightarrow>
          (case curenv s of
             Some c \<Rightarrow> if env_status (envs s ! c) = ENV_RUNNING then env_run s c else sched_halt s
           | None \<Rightarrow> sched_halt s))"
proof -
  have "(case curenv s of None \<Rightarrow> 0 | Some c \<Rightarrow> ENVX (env_id (envs s ! c)) + 1) = sched_start s"
    using c env_invD(5) [OF kinvD(1) [OF inv]]
    by (auto simp: sched_start_def cur_live_def live_def split: option.split)
  then show ?thesis
    unfolding sched_yield_def Let_def
    by (simp add: find_map_option comp_def split: option.split)
qed

definition sched_from :: "kern \<Rightarrow> nat \<Rightarrow> nat" where
  "sched_from s i = (case curenv s of None \<Rightarrow> i | Some c \<Rightarrow> sched_dist c i)"

abbreviation runnable :: "kern \<Rightarrow> nat \<Rightarrow> bool" where
  "runnable s i \<equiv> i < NENV \<and> env_status (envs s ! i) = ENV_RUNNABLE"

lemma sched_from_slot:
  assumes "cur_live s" "i < NENV"
  shows "(sched_start s + sched_from s i) mod NENV = i" "sched_from s i < NENV"
  using assms dist_slot [of _ i] dist_less
  by (auto simp: sched_start_def sched_from_def cur_live_def live_def split: option.splits)

lemma sched_slot_from:
  assumes "cur_live s" "k < NENV"
  shows "sched_from s ((sched_start s + k) mod NENV) = k"
proof (cases "curenv s")
  case None
  with assms show ?thesis by (simp add: sched_start_def sched_from_def)
next
  case (Some c)
  with assms have c: "c < NENV" by (simp add: cur_live_def live_def)
  have j: "(Suc c + k) mod NENV < NENV" by (simp add: NENV_def)
  have "sched_dist c ((Suc c + k) mod NENV) = k"
    using c assms(2) slot_if [OF c assms(2)] by (subst dist_if [OF c j]) (auto split: if_splits)
  with Some show ?thesis by (simp add: sched_start_def sched_from_def)
qed

text \<open>The first runnable slot after the current one, if any slot is runnable.\<close>

lemma sched_search [consumes 1, case_names none some]:
  assumes c: "cur_live s"
  obtains (none) "find (\<lambda>k. env_status (envs s ! ((sched_start s + k) mod NENV)) = ENV_RUNNABLE) [0..<NENV] = None"
      "\<And>i. \<not> runnable s i"
  | (some) k j where "find (\<lambda>k. env_status (envs s ! ((sched_start s + k) mod NENV)) = ENV_RUNNABLE) [0..<NENV] = Some k"
      "(sched_start s + k) mod NENV = j" "runnable s j" "\<And>i. runnable s i \<Longrightarrow> sched_from s j \<le> sched_from s i"
proof (cases "find (\<lambda>k. env_status (envs s ! ((sched_start s + k) mod NENV)) = ENV_RUNNABLE) [0..<NENV]")
  case None
  then have "\<not> runnable s i" for i
    using sched_from_slot [OF c, of i] by (fastforce simp: find_upt_None)
  with None show thesis by (rule none)
next
  case (Some k)
  then have k: "k < NENV" "env_status (envs s ! ((sched_start s + k) mod NENV)) = ENV_RUNNABLE"
    and least: "\<And>m. m < k \<Longrightarrow> env_status (envs s ! ((sched_start s + m) mod NENV)) \<noteq> ENV_RUNNABLE"
    by (simp_all add: find_upt_Some)
  have "sched_from s ((sched_start s + k) mod NENV) \<le> sched_from s i" if "runnable s i" for i
    using that least [of "sched_from s i"] sched_from_slot [OF c, of i] sched_slot_from [OF c k(1)] not_le_imp_less
    by fastforce
  moreover have "(sched_start s + k) mod NENV < NENV" by (simp add: NENV_def)
  ultimately show thesis
    using some [OF Some refl] k(2) by blast
qed

definition entered :: "kern \<Rightarrow> nat \<Rightarrow> kern \<Rightarrow> bool" where
  "entered s j s' \<longleftrightarrow> curenv s' = Some j \<and> cr3 s' = page2pa (dir_of s j) \<and> \<not> kernel_locked s' \<and>
     (\<forall>i < NENV. env_status (envs s' ! i) = switched s j i)"

definition sched_post :: "kern \<Rightarrow> 'a outcome \<Rightarrow> bool" where
  "sched_post s out \<longleftrightarrow> (case out of
     Runs j s' \<Rightarrow> entered s j s' \<and>
       (runnable s j \<and> (\<forall>i. runnable s i \<longrightarrow> sched_from s j \<le> sched_from s i) \<or>
        curenv s = Some j \<and> env_status (envs s ! j) = ENV_RUNNING \<and> (\<forall>i. \<not> runnable s i))
   | Halts s' \<Rightarrow> (\<forall>i. \<not> runnable s i) \<and> curenv s' = None \<and> envs s' = envs s \<and> cpu_status s' = CPU_HALTED \<and>
       cr3 s' = kern_pgdir s - KERNBASE \<and> \<not> kernel_locked s' \<and>
       (\<exists>i < NENV. env_status (envs s ! i) \<in> {ENV_RUNNING, ENV_DYING} \<and>
          (curenv s = Some i \<longrightarrow> env_status (envs s ! i) = ENV_DYING))
   | Monitors s' \<Rightarrow> s' = s \<and> all_idle s
   | Returns _ _ \<Rightarrow> False)"

definition outcome_state :: "'a outcome \<Rightarrow> kern" where
  "outcome_state out = (case out of Returns _ s \<Rightarrow> s | Runs _ s \<Rightarrow> s | Halts s \<Rightarrow> s | Monitors s \<Rightarrow> s)"

lemma sched_post_runnable:
  assumes "sched_post s out" "runnable s i"
  obtains j s' where "out = Runs j s'" "entered s j s'" "runnable s j" "sched_from s j \<le> sched_from s i"
proof (cases out)
  case (Runs j s')
  note p = assms(1) [unfolded Runs sched_post_def outcome.case]
  show thesis
    by (rule that [OF Runs]) (use p assms(2) in blast)+
next
  case (Halts s')
  show thesis using assms(2) assms(1) [unfolded Halts sched_post_def outcome.case] by blast
next
  case (Monitors s')
  have "all_idle s" using assms(1) [unfolded Monitors sched_post_def outcome.case] by blast
  with assms(2) show thesis by (auto simp: all_idle_def)
next
  case (Returns r s')
  show thesis using assms(1) [unfolded Returns sched_post_def outcome.case] by blast
qed

lemma env_run_ran:
  assumes "kinv s xs fs pend" "e \<in> live s" "cur_live s"
  obtains s' where "env_run s e = Some (Runs e s')" "env_frame s s'" "entered s e s'"
  using env_run_spec [OF assms] unfolding entered_def by metis

lemma sched_halt_post:
  assumes inv: "kinv s xs fs pend" and nr: "\<And>i. \<not> runnable s i"
    and cr: "\<And>c. curenv s = Some c \<Longrightarrow> env_status (envs s ! c) \<noteq> ENV_RUNNING"
  shows "\<exists>out :: 'a outcome. sched_halt s = Some out \<and> env_frame s (outcome_state out) \<and> sched_post s out"
proof (cases "all_idle s")
  case True
  then show ?thesis
    by (intro exI [of _ "Monitors s"]) (simp add: sched_halt_idle sched_post_def outcome_state_def)
next
  case False
  then obtain i where i: "i < NENV" "env_status (envs s ! i) \<notin> {ENV_FREE, ENV_NOT_RUNNABLE}"
    unfolding all_idle_def by blast
  then have "env_status (envs s ! i) \<in> {ENV_RUNNING, ENV_DYING}"
    using nr [of i] by (cases "env_status (envs s ! i)") simp_all
  with i(1) have *: "\<exists>i < NENV. env_status (envs s ! i) \<in> {ENV_RUNNING, ENV_DYING} \<and>
          (curenv s = Some i \<longrightarrow> env_status (envs s ! i) = ENV_DYING)"
    using cr by blast
  obtain s' where s': "(sched_halt s :: 'a outcome option) = Some (Halts s')" "env_frame s s'" "curenv s' = None"
      "cr3 s' = kern_pgdir s - KERNBASE" "cpu_status s' = CPU_HALTED" "\<not> kernel_locked s'" "envs s' = envs s"
    by (rule sched_halt_busy [OF inv False])
  have "sched_post s (Halts s' :: 'a outcome)"
    unfolding sched_post_def outcome.case using s' nr * by blast
  with s' show ?thesis
    by (intro exI [of _ "Halts s'"]) (simp add: outcome_state_def)
qed

lemma sched_yield_post:
  assumes inv: "kinv s xs fs pend" and c: "cur_live s"
  shows "\<exists>out :: 'a outcome. sched_yield s = Some out \<and> env_frame s (outcome_state out) \<and> sched_post s out"
using c
proof (cases rule: sched_search)
  case (some k j)
  then have "j \<in> live s" by (simp add: live_def)
  then obtain s' where "(env_run s j :: 'a outcome option) = Some (Runs j s')" "env_frame s s'" "entered s j s'"
    by (rule env_run_ran [OF inv _ c])
  then show ?thesis
    using some by (simp add: sched_yield_alt [OF inv c] sched_post_def outcome_state_def)
next
  case none
  show ?thesis
  proof (cases "\<exists>e. curenv s = Some e \<and> env_status (envs s ! e) = ENV_RUNNING")
    case True
    then obtain e where e: "curenv s = Some e" "env_status (envs s ! e) = ENV_RUNNING" by blast
    then have "e \<in> live s" using c by (simp add: cur_live_def)
    then obtain s' where "(env_run s e :: 'a outcome option) = Some (Runs e s')" "env_frame s s'" "entered s e s'"
      by (rule env_run_ran [OF inv _ c])
    then show ?thesis
      using none e by (simp add: sched_yield_alt [OF inv c] sched_post_def outcome_state_def)
  next
    case False
    then have "(sched_yield s :: 'a outcome option) = sched_halt s"
      using none by (auto simp: sched_yield_alt [OF inv c] split: option.split)
    then show ?thesis
      using sched_halt_post [OF inv none(2)] False by auto
  qed
qed

text \<open>
  C18. \<open>sched_yield\<close> never returns and never panics from a consistent kernel. It enters the first runnable
  environment after the current one in the circular order of the table, with that environment's page directory in
  cr3, the previously running environment made runnable again and the kernel lock released; or, when nothing is
  runnable, re-enters the current environment if it is still running; or halts the CPU on the kernel's directory
  when only environments running on other CPUs or dying are left; or enters the monitor when there is none of
  these. The kernel invariant holds in the state it leaves.
\<close>

theorem sched_yield_correct:
  assumes "kinv s xs fs pend" "cur_live s"
  shows "\<exists>out :: 'a outcome. sched_yield s = Some out \<and> sched_post s out \<and> kinv (outcome_state out) xs fs pend \<and>
     live (outcome_state out) = live s"
  using sched_yield_post [OF assms] kinv_env_frame(1,2) [OF assms(1)] by blast

theorem sched_yield_correct_witness:
  "\<exists>s s'. env_alloc kinit 0 = Some (0, Some 0, s) \<and> (sched_yield s :: unit outcome option) = Some (Runs 0 s') \<and>
     curenv s' = Some 0 \<and> cr3 s' = page2pa 3"
proof -
  obtain s where s: "env_alloc kinit 0 = Some (0, Some 0, s)" "kinv s [4, 5, 6, 7] [1..<NENV] init_pend" "live s = {0}"
    "dir_of s 0 = 3" "fresh_env kinit s 0 3 0" "curenv s = None"
    by (rule kinit_alloc)
  have l: "cur_live s" using s(6) by (simp add: cur_live_def)
  obtain out :: "unit outcome" where o: "sched_yield s = Some out" "sched_post s out"
    using sched_yield_correct [OF s(2) l] by blast
  have "0 < NENV" by (simp add: NENV_def)
  then have r: "runnable s 0" using s(5) unfolding fresh_env_def by blast
  have "i \<in> live s" if "runnable s i" for i
    using that by (simp add: live_def)
  then have "i = 0" if "runnable s i" for i
    using that s(3) by blast
  moreover obtain j s' where "out = Runs j s'" "entered s j s'" "runnable s j"
    by (rule sched_post_runnable [OF o(2) r])
  ultimately have "out = Runs 0 s'" "entered s 0 s'" by blast+
  then show ?thesis
    using s(1,4) o(1) unfolding entered_def by metis
qed

subsection \<open>Every runnable environment is reached\<close>

text \<open>
  \<open>st n\<close> is the kernel when a CPU calls \<open>sched_yield\<close> for the \<open>n\<close>-th time, \<open>c n\<close> the environment it runs then.
  What the environments do in between is arbitrary.
\<close>

lemma sched_dist_decreases:
  assumes "kinv s xs fs pend" "curenv s = Some c" "c \<in> live s" "runnable s i"
    "sched_yield s = Some (Runs j t :: 'a outcome)" "j \<noteq> i"
  shows "sched_dist j i < sched_dist c i" "j < NENV"
proof -
  have cl: "cur_live s" using assms(2,3) by (simp add: cur_live_def)
  have c: "c < NENV" using assms(3) by (simp add: live_def)
  have p: "sched_post s (Runs j t :: 'a outcome)"
    using sched_yield_post [where 'a = 'a, OF assms(1) cl] assms(5) by auto
  obtain j' t' where "(Runs j t :: 'a outcome) = Runs j' t'" "entered s j' t'" "runnable s j'" "sched_from s j' \<le> sched_from s i"
    by (rule sched_post_runnable [OF p assms(4)])
  then have j: "j < NENV" "sched_dist c j \<le> sched_dist c i"
    using assms(2) by (simp_all add: sched_from_def)
  have "sched_dist c j \<noteq> sched_dist c i"
    using dist_slot [OF c j(1)] dist_slot [OF c, of i] assms(4,6) by metis
  with j have "sched_dist c j < sched_dist c i" by simp
  then show "sched_dist j i < sched_dist c i" "j < NENV"
    using dist_step [OF c, of i "sched_dist c j" j] dist_slot [OF c j(1)] assms(4) j(1) by simp_all
qed

text \<open>
  C11. Bounded waiting under round robin. Suppose that every call of \<open>sched_yield\<close> is made by the environment that the previous call entered, which is still
  alive (it yields or is preempted, it is not destroyed), that every call finds an environment to run, and that environment \<open>i\<close> stays runnable until it is
  chosen. Then \<open>i\<close> is entered by one of the next \<open>NENV\<close> calls, whatever the environments do in between. The condition on the caller matters: when
  the caller destroys itself instead, the search starts over at slot 0.
\<close>

theorem sched_no_starvation:
  fixes st :: "nat \<Rightarrow> kern"
  assumes inv: "\<And>n. kinv (st n) (xs n) (fs n) (pend n)"
    and cur: "\<And>n. curenv (st n) = Some (c n) \<and> c n \<in> live (st n)"
    and run: "\<And>n. (\<forall>m. 0 < m \<and> m \<le> n \<longrightarrow> c m \<noteq> i) \<Longrightarrow> runnable (st n) i"
    and step: "\<And>n. sched_yield (st n) = Some (Runs (c (Suc n)) (t n) :: 'a outcome)"
  shows "\<exists>n < NENV. c (Suc n) = i"
proof (rule ccontr)
  assume "\<not> ?thesis"
  then have no: "c (Suc n) \<noteq> i" if "n < NENV" for n using that by blast
  have "sched_dist (c n) i + n \<le> sched_dist (c 0) i" if "n \<le> NENV" for n
    using that
  proof (induction n)
    case (Suc n)
    have "c m \<noteq> i" if "0 < m" "m \<le> n" for m
      using no [of "m - 1"] that Suc.prems by simp
    then have r: "runnable (st n) i" by (intro run) blast
    have "sched_dist (c (Suc n)) i < sched_dist (c n) i"
      by (rule sched_dist_decreases(1) [OF inv _ _ r step]) (use cur [of n] no [of n] Suc.prems in simp_all)
    with Suc show ?case by simp
  qed simp
  from this [of NENV] show False
    using dist_less [of "c 0" i] by simp
qed

text \<open>Two runnable environments in the slots 0 and 1.\<close>

lemma kinit_two:
  obtains s0 s where "env_alloc kinit 0 = Some (0, Some 0, s0)" "env_alloc s0 0 = Some (0, Some 1, s)"
    "\<forall>c. kinv (s\<lparr>curenv := c\<rparr>) [5, 6, 7] [2..<NENV] init_pend" "\<forall>c. live (s\<lparr>curenv := c\<rparr>) = {0, 1}" "\<forall>c i. runnable (s\<lparr>curenv := c\<rparr>) i \<longleftrightarrow> i = 0 \<or> i = 1"
proof -
  obtain s0 where s0: "env_alloc kinit 0 = Some (0, Some 0, s0)" "kinv s0 [4, 5, 6, 7] [1..<NENV] init_pend" "live s0 = {0}" "fresh_env kinit s0 0 3 0"
    by (rule kinit_alloc)
  have "(1 :: nat) < NENV" by (simp add: NENV_def)
  then have "[1..<NENV] = 1 # [2..<NENV]" by (simp add: upt_conv_Cons numeral_2_eq_2)
  then have k: "kinv s0 (4 # [5, 6, 7]) (1 # [2..<NENV]) init_pend" using s0(2) by simp
  obtain s where s: "env_alloc s0 0 = Some (0, Some 1, s)" "kinv s [5, 6, 7] [2..<NENV] init_pend" "live s = insert 1 (live s0)" "fresh_env s0 s 1 4 0"
    "\<forall>i. i \<noteq> 1 \<longrightarrow> envs s ! i = envs s0 ! i"
    by (rule env_alloc_spec [OF k, of 0])
  have l: "live (s\<lparr>curenv := c\<rparr>) = {0, 1}" for c using s(3) s0(3) by (auto simp: live_def)
  have r: "runnable (s\<lparr>curenv := c\<rparr>) i \<longleftrightarrow> i = 0 \<or> i = 1" for c i
  proof
    assume "runnable (s\<lparr>curenv := c\<rparr>) i"
    then have "i \<in> live (s\<lparr>curenv := c\<rparr>)" by (simp add: live_def)
    then show "i = 0 \<or> i = 1" by (simp add: l)
  next
    assume "i = 0 \<or> i = 1"
    then show "runnable (s\<lparr>curenv := c\<rparr>) i" using s(4,5) s0(4) by (auto simp: fresh_env_def NENV_def)
  qed
  show thesis by (rule that [OF s0(1) s(1)]) (use s(2) l r in \<open>simp_all add: kinv_curenv\<close>)
qed

lemma yield_other:
  assumes inv: "kinv s xs fs pend" and c: "curenv s = Some c" "c \<in> live s" and r: "\<And>i. runnable s i \<longleftrightarrow> i = 0 \<or> i = 1" and cd: "(c, d) = (0, 1) \<or> (c, d) = (1, 0)"
  shows "\<exists>t. sched_yield s = Some (Runs d t :: 'a outcome)"
proof -
  have cl: "cur_live s" using c by (simp add: cur_live_def)
  obtain out :: "'a outcome" where o: "sched_yield s = Some out" "sched_post s out" using sched_yield_post [OF inv cl] by blast
  have "runnable s d" using r [of d] cd by auto
  then obtain j t where j: "out = Runs j t" "runnable s j" "sched_from s j \<le> sched_from s d" by (rule sched_post_runnable [OF o(2)])
  have "j = d" using j(2,3) r [of j] cd c(1) by (auto simp: sched_from_def sched_dist_def NENV_def)
  then show ?thesis using j(1) o(1) by blast
qed

theorem sched_no_starvation_witness:
  "\<exists>s0 s t u. env_alloc kinit 0 = Some (0, Some 0, s0) \<and> env_alloc s0 0 = Some (0, Some 1, s) \<and>
     sched_yield (s\<lparr>curenv := Some 0\<rparr>) = Some (Runs 1 t :: unit outcome) \<and> sched_yield (s\<lparr>curenv := Some 1\<rparr>) = Some (Runs 0 u :: unit outcome) \<and>
     (\<exists>n < NENV. Suc n mod 2 = (1 :: nat))"
proof -
  obtain s0 s where s: "env_alloc kinit 0 = Some (0, Some 0, s0)" "env_alloc s0 0 = Some (0, Some 1, s)"
    "\<forall>c. kinv (s\<lparr>curenv := c\<rparr>) [5, 6, 7] [2..<NENV] init_pend" "\<forall>c. live (s\<lparr>curenv := c\<rparr>) = {0, 1}" "\<forall>c i. runnable (s\<lparr>curenv := c\<rparr>) i \<longleftrightarrow> i = 0 \<or> i = 1"
    by (rule kinit_two)
  define st where "st n = s\<lparr>curenv := Some (n mod 2)\<rparr>" for n :: nat
  have inv: "kinv (st n) [5, 6, 7] [2..<NENV] init_pend" for n unfolding st_def using s(3) by blast
  have cur: "curenv (st n) = Some (n mod 2) \<and> n mod 2 \<in> live (st n)" for n by (auto simp: st_def s(4))
  have run: "runnable (st n) i \<longleftrightarrow> i = 0 \<or> i = 1" for n i unfolding st_def using s(5) by blast
  have "\<exists>t. sched_yield (st n) = Some (Runs (Suc n mod 2) t :: unit outcome)" for n
  proof -
    have "(n mod 2, Suc n mod 2) = (0, 1) \<or> (n mod 2, Suc n mod 2) = (1, 0)" by (cases "even n") (simp_all add: mod_Suc)
    then show ?thesis by (rule yield_other [OF inv conjunct1 [OF cur] conjunct2 [OF cur] run])
  qed
  then obtain t where t: "\<And>n. sched_yield (st n) = Some (Runs (Suc n mod 2) (t n) :: unit outcome)" by metis
  have "\<exists>n < NENV. Suc n mod 2 = (1 :: nat)"
    by (rule sched_no_starvation [of st "\<lambda>_. [5, 6, 7]" "\<lambda>_. [2..<NENV]" "\<lambda>_. init_pend" "\<lambda>n. n mod 2" 1 t, OF inv cur _ t]) (simp add: run)
  moreover have "st 0 = s\<lparr>curenv := Some 0\<rparr>" "st 1 = s\<lparr>curenv := Some 1\<rparr>" by (simp_all add: st_def)
  ultimately show ?thesis using s(1,2) t [of 0] t [of 1] by (simp add: numeral_2_eq_2)
qed

subsection \<open>Destroying an environment\<close>

definition returns :: "'a outcome \<Rightarrow> bool" where
  "returns out \<longleftrightarrow> (case out of Returns _ _ \<Rightarrow> True | _ \<Rightarrow> False)"

lemma sched_post_leaves: "sched_post s out \<Longrightarrow> \<not> returns out"
  by (cases out) (simp_all add: sched_post_def returns_def)

lemma env_destroy_zombie:
  assumes inv: "kinv s xs fs pend" and e: "e \<in> live s"
    and z: "env_status (envs s ! e) = ENV_RUNNING" "curenv s \<noteq> Some e"
  obtains s' where "env_destroy s e = Some (Returns () s')" "env_status (envs s' ! e) = ENV_DYING" "env_frame s s'"
    "curenv s' = curenv s"
proof -
  let ?s = "upd_env s e (\<lambda>v. v\<lparr>env_status := ENV_DYING\<rparr>)"
  have "e < length (envs s)" using kinvD(9,10) [OF inv] e by simp
  then have "env_status (envs ?s ! e) = ENV_DYING" by (simp add: upd_env_def)
  moreover have "env_frame s ?s"
    by (rule env_frame_upd) (simp add: z(1))
  moreover have "env_destroy s e = Some (Returns () ?s)"
    using z by (simp add: env_destroy_def)
  moreover have "curenv ?s = curenv s" by (simp add: upd_env_def)
  ultimately show thesis by (intro that)
qed

lemma env_destroy_spec:
  assumes "kinv s xs fs pend" "e \<in> live s" "cur_live s"
  shows "\<exists>out xs' fs'. env_destroy s e = Some out \<and> kinv (outcome_state out) xs' fs' pend \<and>
     (returns out \<longleftrightarrow> curenv s \<noteq> Some e) \<and>
     (if env_status (envs s ! e) = ENV_RUNNING \<and> curenv s \<noteq> Some e
      then live (outcome_state out) = live s \<and> env_status (envs (outcome_state out) ! e) = ENV_DYING
      else live (outcome_state out) = live s - {e})"
proof (cases "env_status (envs s ! e) = ENV_RUNNING \<and> curenv s \<noteq> Some e")
  case True
  then obtain s' where s': "env_destroy s e = Some (Returns () s')" "env_status (envs s' ! e) = ENV_DYING" "env_frame s s'"
    using env_destroy_zombie [OF assms(1,2)] by blast
  with True show ?thesis
    using kinv_env_frame(1,2) [OF assms(1) s'(3)]
    by (intro exI [of _ "Returns () s'"] exI [of _ xs] exI [of _ fs]) (simp add: outcome_state_def returns_def)
next
  case False
  obtain s1 xs' where s1: "env_free s e = Some s1" "kinv s1 xs' (e # fs) pend" "live s1 = live s - {e}" "curenv s1 = curenv s"
    using env_free_spec [OF assms(1,2)] by blast
  show ?thesis
  proof (cases "curenv s = Some e")
    case True
    have inv: "kinv (s1\<lparr>curenv := None\<rparr>) xs' (e # fs) pend" using s1(2) by (simp add: kinv_curenv)
    have "cur_live (s1\<lparr>curenv := None\<rparr>)" by (simp add: cur_live_def)
    then obtain out :: "unit outcome" where o: "sched_yield (s1\<lparr>curenv := None\<rparr>) = Some out"
      "env_frame (s1\<lparr>curenv := None\<rparr>) (outcome_state out)" "sched_post (s1\<lparr>curenv := None\<rparr>) out"
      using sched_yield_post [OF inv] by blast
    have "live (outcome_state out) = live s - {e}"
      using kinv_env_frame(2) [OF inv o(2)] s1(3) by (simp add: live_def)
    moreover have "env_destroy s e = Some out"
      using True s1 o(1) by (simp add: env_destroy_def)
    ultimately show ?thesis
      using True kinv_env_frame(1) [OF inv o(2)] sched_post_leaves [OF o(3)]
      by (intro exI [of _ out] exI [of _ xs'] exI [of _ "e # fs"]) simp
  next
    case other: False
    have "env_destroy s e = Some (Returns () s1)"
      using False other s1 by (simp add: env_destroy_def)
    then show ?thesis
      using False other s1(2,3)
      by (intro exI [of _ "Returns () s1"] exI [of _ xs'] exI [of _ "e # fs"]) (simp add: outcome_state_def returns_def)
  qed
qed

text \<open>
  C32. \<open>env_destroy\<close> frees the environment at once, unless it is running on another CPU: then it only becomes dying
  and keeps its resources. A caller that destroys itself does not come back: the scheduler takes over; otherwise
  the call returns. In every case the kernel invariant holds afterwards.
\<close>

theorem env_destroy_correct:
  assumes "kinv s xs fs pend" "e \<in> live s" "cur_live s"
  shows "\<exists>out xs' fs'. env_destroy s e = Some out \<and> kinv (outcome_state out) xs' fs' pend \<and>
     (returns out \<longleftrightarrow> curenv s \<noteq> Some e) \<and>
     (if env_status (envs s ! e) = ENV_RUNNING \<and> curenv s \<noteq> Some e
      then live (outcome_state out) = live s \<and> env_status (envs (outcome_state out) ! e) = ENV_DYING
      else live (outcome_state out) = live s - {e})"
  using assms by (rule env_destroy_spec)

theorem env_destroy_correct_witness:
  "\<exists>s out. env_alloc kinit 0 = Some (0, Some 0, s) \<and> env_destroy (s\<lparr>curenv := Some 0\<rparr>) 0 = Some out \<and>
     \<not> returns out \<and> live (outcome_state out) = {}"
proof -
  obtain s where s: "env_alloc kinit 0 = Some (0, Some 0, s)" "kinv s [4, 5, 6, 7] [1..<NENV] init_pend" "live s = {0}"
    by (rule kinit_alloc)
  have "kinv (s\<lparr>curenv := Some 0\<rparr>) [4, 5, 6, 7] [1..<NENV] init_pend" "live (s\<lparr>curenv := Some 0\<rparr>) = {0}"
    using s(2,3) by (simp_all add: kinv_curenv live_def)
  moreover from this(2) have "cur_live (s\<lparr>curenv := Some 0\<rparr>)" by (simp add: cur_live_def)
  ultimately show ?thesis
    using env_destroy_correct [of "s\<lparr>curenv := Some 0\<rparr>" "[4, 5, 6, 7]" "[1..<NENV]" init_pend 0] s(1) by auto
qed

lemma env_destroy_self:
  assumes inv: "kinv s xs fs pend" and c: "c \<in> live s" "curenv s = Some c" and r: "runnable s i" "i \<noteq> c"
  shows "\<exists>k t. env_destroy s c = Some (Runs k t) \<and> runnable s k \<and> k \<noteq> c \<and> (\<forall>j. runnable s j \<longrightarrow> j \<noteq> c \<longrightarrow> k \<le> j)"
proof -
  obtain s1 xs' where s1: "env_free s c = Some s1" "kinv s1 xs' (c # fs) pend" "live s1 = live s - {c}" "curenv s1 = curenv s" "\<forall>i. i \<noteq> c \<longrightarrow> envs s1 ! i = envs s ! i"
    using env_free_spec [OF inv c(1)] by blast
  let ?s = "s1\<lparr>curenv := None\<rparr>"
  have "kinv ?s xs' (c # fs) pend" using s1(2) by (simp add: kinv_curenv)
  moreover have "cur_live ?s" by (simp add: cur_live_def)
  ultimately obtain out :: "unit outcome" where o: "sched_yield ?s = Some out" "sched_post ?s out" using sched_yield_post by blast
  have n: "\<not> runnable ?s c"
  proof
    assume "runnable ?s c"
    then have "c \<in> live s1" by (simp add: live_def)
    then show False using s1(3) by simp
  qed
  have same: "runnable ?s j \<longleftrightarrow> runnable s j \<and> j \<noteq> c" for j using n s1(5) by (cases "j = c") auto
  have ri: "runnable ?s i" using same [of i] r by blast
  obtain k t where k: "out = Runs k t" "runnable ?s k" by (rule sched_post_runnable [OF o(2) ri])
  have "\<forall>j. runnable ?s j \<longrightarrow> k \<le> j" using o(2) k unfolding sched_post_def by (auto simp: sched_from_def)
  moreover have "env_destroy s c = Some (Runs k t)" using c(2) s1(1,4) o(1) k(1) by (simp add: env_destroy_def)
  ultimately show ?thesis using k(2) same by (intro exI [of _ k] exI [of _ t]) auto
qed

text \<open>
  C37. When the running environment is destroyed, the round robin does not go on after its slot: the lowest-numbered runnable environment is entered,
  whatever slot the CPU was running. (The comment in \<open>sched_yield\<close> promises a search that starts just after the environment the CPU was last running.) An
  environment in a high slot can therefore be passed over again and again while short-lived environments come and go.
\<close>

theorem env_destroy_restarts_search:
  assumes "kinv s xs fs pend" "c \<in> live s" "curenv s = Some c" "runnable s i" "i \<noteq> c"
  shows "\<exists>k t. env_destroy s c = Some (Runs k t) \<and> runnable s k \<and> k \<noteq> c \<and> (\<forall>j. runnable s j \<longrightarrow> j \<noteq> c \<longrightarrow> k \<le> j)"
  using assms by (rule env_destroy_self)

theorem env_destroy_restarts_search_witness:
  "\<exists>s0 s t. env_alloc kinit 0 = Some (0, Some 0, s0) \<and> env_alloc s0 0 = Some (0, Some 1, s) \<and> env_destroy (s\<lparr>curenv := Some 1\<rparr>) 1 = Some (Runs 0 t)"
proof -
  obtain s0 s where s: "env_alloc kinit 0 = Some (0, Some 0, s0)" "env_alloc s0 0 = Some (0, Some 1, s)"
    "\<forall>c. kinv (s\<lparr>curenv := c\<rparr>) [5, 6, 7] [2..<NENV] init_pend" "\<forall>c. live (s\<lparr>curenv := c\<rparr>) = {0, 1}" "\<forall>c i. runnable (s\<lparr>curenv := c\<rparr>) i \<longleftrightarrow> i = 0 \<or> i = 1"
    by (rule kinit_two)
  have h: "1 \<in> live (s\<lparr>curenv := Some 1\<rparr>)" "curenv (s\<lparr>curenv := Some 1\<rparr>) = Some 1" "runnable (s\<lparr>curenv := Some 1\<rparr>) 0" "0 \<noteq> (1 :: nat)"
    using s(4) spec [OF spec [OF s(5), of "Some 1"], of 0] by simp_all
  obtain k t where k: "env_destroy (s\<lparr>curenv := Some 1\<rparr>) 1 = Some (Runs k t)" "runnable (s\<lparr>curenv := Some 1\<rparr>) k" "k \<noteq> 1"
    using env_destroy_restarts_search [OF spec [OF s(3)] h] by blast
  have "k = 0" using spec [OF spec [OF s(5), of "Some 1"], of k] k(2,3) by blast
  then show ?thesis using s(1,2) k(1) by blast
qed

end
