(* ===== verification/Ring.thy ===== *)
theory Ring
  imports Prelude
begin

text \<open>
  Circular buffers. \<open>ring_list\<close> reads the \<open>n\<close> elements that start at position \<open>r\<close> of a buffer of \<open>N\<close>
  cells; the locale \<open>fifo\<close> is the contract of a bounded queue, with the round trip of a sequence of stores
  and removals proved once. The console input buffer of JOS and the pipes of xv6 are instances.
\<close>

subsection \<open>Reading a circular buffer\<close>

definition ring_list :: "'a list \<Rightarrow> nat \<Rightarrow> nat \<Rightarrow> nat \<Rightarrow> 'a list" where
  "ring_list buf N r n = map (\<lambda>k. buf ! ((r + k) mod N)) [0..<n]"

lemma length_ring_list [simp]: "length (ring_list buf N r n) = n"
  by (simp add: ring_list_def)

lemma ring_list_0 [simp]: "ring_list buf N r 0 = []"
  by (simp add: ring_list_def)

lemma ring_list_Nil_iff [simp]: "ring_list buf N r n = [] \<longleftrightarrow> n = 0"
  by (simp add: ring_list_def)

lemma ring_list_Suc: "ring_list buf N r (Suc n) = buf ! (r mod N) # ring_list buf N (Suc r) n"
proof -
  have "[0..<Suc n] = 0 # map Suc [0..<n]"
    by (simp add: map_Suc_upt upt_conv_Cons)
  then show ?thesis
    by (simp add: ring_list_def)
qed

lemma ring_list_cong: "r mod N = r' mod N \<Longrightarrow> ring_list buf N r n = ring_list buf N r' n"
  by (simp add: ring_list_def) (metis mod_add_left_eq)

lemma mod_add_less:
  assumes "i < j" "j < (N :: nat)"
  shows "(r + i) mod N \<noteq> (r + j) mod N"
proof
  assume "(r + i) mod N = (r + j) mod N"
  then have "N dvd (r + j) - (r + i)"
    using assms(1) by (intro iffD1 [OF mod_eq_dvd_iff_nat]) simp_all
  then have "N \<le> j - i"
    using assms(1) by (simp add: dvd_imp_le)
  then show False
    using assms by simp
qed

lemma ring_list_store:
  assumes "n < N" "length buf = N"
  shows "ring_list (buf[(r + n) mod N := c]) N r (Suc n) = ring_list buf N r n @ [c]"
proof -
  have l: "(r + n) mod N < length buf"
    using assms by simp
  have "(buf[(r + n) mod N := c]) ! ((r + k) mod N) = buf ! ((r + k) mod N)" if "k < n" for k
    using that assms mod_add_less [of k n N r] by simp
  then show ?thesis
    using l by (simp add: ring_list_def)
qed

subsection \<open>Bounded queues\<close>

primrec get_many :: "('s \<Rightarrow> 'a \<times> 's) \<Rightarrow> nat \<Rightarrow> 's \<Rightarrow> 'a list \<times> 's" where
  "get_many get 0 s = ([], s)"
| "get_many get (Suc n) s = (let (x, s) = get s; (xs, s) = get_many get n s in (x # xs, s))"

locale fifo =
  fixes inv :: "'s \<Rightarrow> bool"
    and items :: "'s \<Rightarrow> 'a list"
    and cap :: nat
    and put :: "'a \<Rightarrow> 's \<Rightarrow> 's"
    and get :: "'s \<Rightarrow> 'a \<times> 's"
  assumes put_inv: "inv s \<Longrightarrow> length (items s) < cap \<Longrightarrow> inv (put x s)"
    and put_items: "inv s \<Longrightarrow> length (items s) < cap \<Longrightarrow> items (put x s) = items s @ [x]"
    and get_inv: "inv s \<Longrightarrow> items s \<noteq> [] \<Longrightarrow> inv (snd (get s))"
    and get_items: "inv s \<Longrightarrow> items s \<noteq> [] \<Longrightarrow> items s = fst (get s) # items (snd (get s))"
begin

lemma put_many:
  assumes "inv s" "length (items s) + length xs \<le> cap"
  shows "inv (fold put xs s) \<and> items (fold put xs s) = items s @ xs"
  using assms
proof (induction xs arbitrary: s)
  case (Cons x xs)
  then have l: "length (items s) < cap" by simp
  from Cons.IH [of "put x s"] Cons.prems show ?case
    by (simp add: put_inv [OF _ l] put_items [OF _ l])
qed simp

lemma get_prefix:
  assumes "inv s" "items s = xs @ ys"
  shows "fst (get_many get (length xs) s) = xs \<and> inv (snd (get_many get (length xs) s)) \<and>
    items (snd (get_many get (length xs) s)) = ys"
  using assms
proof (induction xs arbitrary: s)
  case (Cons x xs)
  then have ne: "items s \<noteq> []" by simp
  have i: "items s = fst (get s) # items (snd (get s))" "inv (snd (get s))"
    using get_items [OF Cons.prems(1) ne] get_inv [OF Cons.prems(1) ne] by simp_all
  with Cons.prems have "x = fst (get s)" "items (snd (get s)) = xs @ ys"
    by simp_all
  with Cons.IH [OF i(2)] show ?case
    by (simp add: case_prod_beta)
qed simp

text \<open>What goes in comes out, in the same order, as long as the capacity is respected.\<close>

lemma fifo_roundtrip:
  assumes "inv s" "items s = []" "length xs \<le> cap"
  shows "fst (get_many get (length xs) (fold put xs s)) = xs"
    "items (snd (get_many get (length xs) (fold put xs s))) = []"
proof -
  have "inv (fold put xs s)" "items (fold put xs s) = xs @ []"
    using put_many [of s xs] assms by simp_all
  then show "fst (get_many get (length xs) (fold put xs s)) = xs"
    "items (snd (get_many get (length xs) (fold put xs s))) = []"
    using get_prefix by blast+
qed

end

end
