(* ===== verification/JosConsole.thy ===== *)
theory JosConsole
  imports Ring
begin

text \<open>
  The console input buffer of kern/console.c: a circular buffer that the interrupt handlers of the serial
  port and the keyboard fill and \<open>cons_getc\<close> empties. The device registers are not modelled: a run of
  \<open>cons_intr\<close> takes the list of values its argument \<open>proc\<close> returns before it returns -1.
\<close>

definition CONSBUFSIZE :: nat where "CONSBUFSIZE = 512"

record console =
  cons_buf :: "u8 list"
  cons_rpos :: u32
  cons_wpos :: u32
  serial_exists :: bool

text \<open>The buffer as the loader zeroes it.\<close>

definition cons_zero :: console where
  "cons_zero = \<lparr>cons_buf = replicate CONSBUFSIZE 0, cons_rpos = 0, cons_wpos = 0, serial_exists = True\<rparr>"

text \<open>The store of \<open>cons_intr\<close>, and the advance of a position that wraps at the end of the buffer.\<close>

definition cons_next :: "u32 \<Rightarrow> u32" where
  "cons_next pos = (if pos + 1 = of_nat CONSBUFSIZE then 0 else pos + 1)"

definition cons_store :: "u8 \<Rightarrow> console \<Rightarrow> console" where
  "cons_store c s = s\<lparr>cons_buf := (cons_buf s)[unat (cons_wpos s) := c], cons_wpos := cons_next (cons_wpos s)\<rparr>"

definition cons_intr :: "int list \<Rightarrow> console \<Rightarrow> console" where
  "cons_intr cs s = fold (\<lambda>c s. if c = 0 then s else cons_store (word_of_int c) s) cs s"

definition serial_intr :: "int list \<Rightarrow> console \<Rightarrow> console" where
  "serial_intr cs s = (if serial_exists s then cons_intr cs s else s)"

definition kbd_intr :: "int list \<Rightarrow> console \<Rightarrow> console" where
  "kbd_intr cs s = cons_intr cs s"

text \<open>The second half of \<open>cons_getc\<close>, which takes the next character or returns 0.\<close>

definition cons_take :: "console \<Rightarrow> u8 \<times> console" where
  "cons_take s =
     (if cons_rpos s \<noteq> cons_wpos s
      then (cons_buf s ! unat (cons_rpos s), s\<lparr>cons_rpos := cons_next (cons_rpos s)\<rparr>)
      else (0, s))"

definition cons_getc :: "int list \<Rightarrow> int list \<Rightarrow> console \<Rightarrow> u8 \<times> console" where
  "cons_getc serial kbd s = cons_take (kbd_intr kbd (serial_intr serial s))"

subsection \<open>The buffer is a queue of 511 characters\<close>

definition cons_inv :: "console \<Rightarrow> bool" where
  "cons_inv s \<longleftrightarrow> length (cons_buf s) = 512 \<and> unat (cons_rpos s) < 512 \<and> unat (cons_wpos s) < 512"

definition cons_count :: "console \<Rightarrow> nat" where
  "cons_count s = (unat (cons_wpos s) + 512 - unat (cons_rpos s)) mod 512"

definition cons_items :: "console \<Rightarrow> u8 list" where
  "cons_items s = ring_list (cons_buf s) 512 (unat (cons_rpos s)) (cons_count s)"

lemma unat_cons_next: "unat p < 512 \<Longrightarrow> unat (cons_next p) = Suc (unat p) mod 512"
proof -
  assume p: "unat p < 512"
  then have "unat (p + 1) = Suc (unat p)"
    by (simp add: unat_word_ariths)
  moreover have "p + 1 = 512 \<longleftrightarrow> unat (p + 1) = 512"
    by (simp add: word_unat_eq_iff)
  ultimately show ?thesis
    using p by (auto simp: cons_next_def CONSBUFSIZE_def)
qed

lemma count_put: "r < 512 \<Longrightarrow> w < 512 \<Longrightarrow> (w + 512 - r) mod 512 < 511 \<Longrightarrow>
    (Suc w mod 512 + 512 - r) mod 512 = Suc ((w + 512 - r) mod 512) \<and> (r + (w + 512 - r) mod 512) mod 512 = (w :: nat)"
  by (cases "w < r"; cases "w = 511") (auto simp: mod_if split: if_splits)

lemma count_get: "r < 512 \<Longrightarrow> w < 512 \<Longrightarrow> r \<noteq> w \<Longrightarrow>
    (w + 512 - r) mod 512 = Suc ((w + 512 - Suc r mod 512) mod (512 :: nat))"
  by (cases "w < r"; cases "r = 511") (auto simp: mod_if)

lemma count_0: "r < 512 \<Longrightarrow> w < 512 \<Longrightarrow> (w + 512 - r) mod 512 = 0 \<longleftrightarrow> r = (w :: nat)"
  by (cases "w < r") (auto simp: mod_if)

lemma cons_items_Nil: "cons_inv s \<Longrightarrow> cons_items s = [] \<longleftrightarrow> cons_rpos s = cons_wpos s"
  by (simp add: cons_items_def cons_count_def cons_inv_def count_0 word_unat_eq_iff)

interpretation cons_q: fifo cons_inv cons_items 511 cons_store cons_take
proof
  fix s :: console and x :: u8
  assume inv: "cons_inv s" and l: "length (cons_items s) < 511"
  show "cons_inv (cons_store x s)"
    using inv by (simp add: cons_inv_def cons_store_def unat_cons_next)
  have c: "cons_count (cons_store x s) = Suc (cons_count s)"
    "(unat (cons_rpos s) + cons_count s) mod 512 = unat (cons_wpos s)" "cons_count s < 512"
    using inv l count_put [of "unat (cons_rpos s)" "unat (cons_wpos s)"]
    by (simp_all add: cons_count_def cons_items_def cons_inv_def cons_store_def unat_cons_next)
  have "ring_list ((cons_buf s)[unat (cons_wpos s) := x]) 512 (unat (cons_rpos s)) (Suc (cons_count s)) = cons_items s @ [x]"
    using ring_list_store [OF c(3), of "cons_buf s" "unat (cons_rpos s)" x] inv
    unfolding c(2) by (simp add: cons_inv_def cons_items_def)
  then show "cons_items (cons_store x s) = cons_items s @ [x]"
    by (simp add: cons_items_def c(1)) (simp add: cons_store_def)
next
  fix s :: console
  assume inv: "cons_inv s" and ne: "cons_items s \<noteq> []"
  then have d: "cons_rpos s \<noteq> cons_wpos s" "unat (cons_rpos s) \<noteq> unat (cons_wpos s)"
    by (simp_all add: cons_items_Nil word_unat_eq_iff)
  show "cons_inv (snd (cons_take s))"
    using inv d by (simp add: cons_inv_def cons_take_def unat_cons_next)
  have "cons_count s = Suc (cons_count (snd (cons_take s)))"
    using inv d count_get [of "unat (cons_rpos s)" "unat (cons_wpos s)"]
    by (simp add: cons_count_def cons_inv_def cons_take_def unat_cons_next)
  then show "cons_items s = fst (cons_take s) # cons_items (snd (cons_take s))"
    using inv d ring_list_cong [of "Suc (unat (cons_rpos s))" 512 "Suc (unat (cons_rpos s)) mod 512"]
    by (simp add: cons_items_def ring_list_Suc) (simp add: cons_take_def cons_inv_def unat_cons_next)
qed

lemma cons_intr_store: "0 \<notin> set cs \<Longrightarrow> cons_intr cs s = fold cons_store (map word_of_int cs) s"
  unfolding cons_intr_def by (induction cs arbitrary: s) simp_all

lemma cons_getc_no_input: "cons_getc [] [] = cons_take"
  by (auto simp: cons_getc_def kbd_intr_def serial_intr_def cons_intr_def)

text \<open>
  C34. The console input buffer delivers characters in the order they arrived: up to 511 non-zero characters
  that arrive while the buffer is empty are returned one by one by \<open>cons_getc\<close>, and the buffer is empty again.
\<close>

theorem cons_fifo:
  assumes "cons_inv s" "cons_items s = []" "0 \<notin> set cs" "length cs \<le> 511"
  shows "fst (get_many (cons_getc [] []) (length cs) (cons_intr cs s)) = map word_of_int cs \<and>
     cons_items (snd (get_many (cons_getc [] []) (length cs) (cons_intr cs s))) = []"
  using cons_q.fifo_roundtrip [OF assms(1,2), of "map word_of_int cs"] assms(3,4)
  by (simp add: cons_intr_store cons_getc_no_input)

lemma cons_zero_inv: "cons_inv cons_zero" "cons_items cons_zero = []"
  by (simp_all add: cons_zero_def cons_inv_def CONSBUFSIZE_def cons_items_def cons_count_def)

theorem cons_fifo_witness:
  "fst (get_many (cons_getc [] []) 3 (cons_intr [104, 105, 10] cons_zero)) = [104, 105, 10]"
  using cons_fifo [OF cons_zero_inv, of "[104, 105, 10]"] by (simp add: eval_nat_numeral)

text \<open>
  The buffer has no overrun check: when 512 characters arrive before any is read, the write position
  catches up with the read position, the buffer looks empty, and \<open>cons_getc\<close> returns 0 although no
  character was consumed.
\<close>

theorem cons_overrun:
  assumes "cons_inv s" "cons_items s = []" "0 \<notin> set cs" "length cs = 512"
  shows "cons_getc [] [] (cons_intr cs s) = (0, cons_intr cs s)"
proof -
  obtain ds c where cs: "cs = ds @ [c]" "length ds = 511"
    using assms(4) by (cases cs rule: rev_cases) auto
  let ?t = "fold cons_store (map word_of_int ds) s"
  have t: "cons_inv ?t" "cons_items ?t = map word_of_int ds"
    using cons_q.put_many [OF assms(1), of "map word_of_int ds"] assms(2) cs(2) by simp_all
  then have "cons_count ?t = 511"
    using cs(2) length_ring_list [of "cons_buf ?t" 512 "unat (cons_rpos ?t)" "cons_count ?t"]
    by (simp add: cons_items_def [symmetric])
  then have "unat (cons_next (cons_wpos ?t)) = unat (cons_rpos ?t)"
    using t(1) unfolding cons_count_def cons_inv_def
    by (cases "unat (cons_wpos ?t) < unat (cons_rpos ?t)") (auto simp: unat_cons_next mod_if split: if_splits)
  then have "cons_next (cons_wpos ?t) = cons_rpos ?t"
    by (simp add: word_unat_eq_iff)
  moreover have "cons_intr cs s = cons_store (word_of_int c) ?t"
    using assms(3) by (simp add: cons_intr_store cs(1))
  ultimately show ?thesis
    by (simp add: cons_getc_no_input cons_take_def cons_store_def)
qed

theorem cons_overrun_witness:
  "cons_getc [] [] (cons_intr (replicate 512 65) cons_zero) = (0, cons_intr (replicate 512 65) cons_zero)"
  by (rule cons_overrun [OF cons_zero_inv]) (simp_all add: in_set_replicate)

end
