(* ===== verification/JosSyscall.thy ===== *)
theory JosSyscall
  imports JosSched JosConsole
begin

text \<open>
  The system calls of kern/syscall.c and their dispatcher. A call that does not come back to its caller (it yields,
  blocks, or destroys the caller) shows in the \<open>outcome\<close>. \<open>sys_cputs\<close> returns the characters it prints,
  which it reads through the page directory in \<open>cr3\<close>. The console record is passed beside the kernel state, and
  \<open>serial\<close> and \<open>kbd\<close> are the values the two input devices deliver during the call. \<open>sys_env_set_trapframe\<close> panics in this version and is not
  dispatched.
\<close>

subsection \<open>Calls about environments\<close>

definition outcome_map :: "('a \<Rightarrow> 'b) \<Rightarrow> 'a outcome \<Rightarrow> 'b outcome" where
  "outcome_map f out = (case out of Returns r s \<Rightarrow> Returns (f r) s | Runs j s \<Rightarrow> Runs j s | Halts s \<Rightarrow> Halts s | Monitors s \<Rightarrow> Monitors s)"

text \<open>
  A byte read by the kernel at a virtual address: the processor walks the directory in \<open>cr3\<close>. A missing entry is
  a page fault in kernel mode, on which \<open>page_fault_handler\<close> panics: \<open>None\<close>.
\<close>

definition hw_pte :: "kern \<Rightarrow> u32 \<Rightarrow> u32" where
  "hw_pte s va = (let pde = mem s (entry (PTE_ADDR (cr3 s)) (PDX va))
     in if present pde then mem s (entry (PTE_ADDR pde) (PTX va)) else 0)"

definition read_byte :: "kern \<Rightarrow> u32 \<Rightarrow> u8 option" where
  "read_byte s va = (let pte = hw_pte s va; pa = PTE_ADDR pte OR PGOFF va
     in if present pte then Some (ucast (drop_bit (8 * unat (pa AND 3)) (mem s (pa AND NOT 3)))) else None)"

text \<open>
  The loop of \<open>vprintfmt\<close> for \<open>%s\<close> without a width: it reads a character before it looks at the precision, and a
  negative precision is no limit. \<open>out\<close> holds the characters printed so far.
\<close>

partial_function (option) print_chars :: "kern \<Rightarrow> u32 \<Rightarrow> int \<Rightarrow> u8 list \<Rightarrow> u8 list option" where
  "print_chars s p precision out =
     Option.bind (read_byte s p) (\<lambda>ch.
       if ch = 0 then Some out
       else if precision < 0 then print_chars s (p + 1) precision (out @ [ch])
       else if precision - 1 \<ge> 0 then print_chars s (p + 1) (precision - 1) (out @ [ch])
       else Some out)"

text \<open>\<open>cprintf("%.*s", len, s)\<close>: the precision is the length read as an \<open>int\<close>.\<close>

definition null_text :: "u8 list" where "null_text = [40, 110, 117, 108, 108, 41]"

definition cprintf_string :: "kern \<Rightarrow> int \<Rightarrow> u32 \<Rightarrow> u8 list option" where
  "cprintf_string s precision p =
     (if p = 0 then Some (if precision < 0 then null_text else take (nat precision) null_text)
      else print_chars s p precision [])"

definition sys_cputs :: "kern \<Rightarrow> u32 \<Rightarrow> u32 \<Rightarrow> u8 list outcome option" where
  "sys_cputs s str len = do {
     c \<leftarrow> curenv s;
     out \<leftarrow> user_mem_assert s c str len 0;
     case out of
       Returns _ s \<Rightarrow> do { printed \<leftarrow> cprintf_string s (sint len) str; Some (Returns printed s) }
     | Runs j s \<Rightarrow> Some (Runs j s)
     | Halts s \<Rightarrow> Some (Halts s)
     | Monitors s \<Rightarrow> Some (Monitors s)
   }"

definition sys_getenvid :: "kern \<Rightarrow> envid_t option" where
  "sys_getenvid s = (case curenv s of None \<Rightarrow> None | Some c \<Rightarrow> Some (env_id (envs s ! c)))"

definition sys_env_destroy :: "kern \<Rightarrow> envid_t \<Rightarrow> int outcome option" where
  "sys_env_destroy s envid = do {
     (r, e) \<leftarrow> envid2env s envid True;
     if r < 0 then Some (Returns r s)
     else do {
       e \<leftarrow> e;
       out \<leftarrow> env_destroy s e;
       Some (outcome_map (\<lambda>_. 0) out)
     }
   }"

definition sys_yield :: "kern \<Rightarrow> 'a outcome option" where
  "sys_yield s = sched_yield s"

definition sys_exofork :: "kern \<Rightarrow> (int \<times> kern) option" where
  "sys_exofork s = do {
     c \<leftarrow> curenv s;
     (ret, e, s) \<leftarrow> env_alloc s (env_id (envs s ! c));
     if ret < 0 then Some (ret, s)
     else do {
       e \<leftarrow> e;
       let s = upd_env s e (\<lambda>v. v\<lparr>env_tf := env_tf (envs s ! c)\<rparr>);
       let s = upd_env s e (\<lambda>v. v\<lparr>env_status := ENV_NOT_RUNNABLE\<rparr>);
       let s = upd_env s e (\<lambda>v. v\<lparr>env_tf := (env_tf v)\<lparr>tf_regs := (tf_regs (env_tf v))\<lparr>reg_eax := 0\<rparr>\<rparr>\<rparr>);
       Some (sint (env_id (envs s ! e)), s)
     }
   }"

text \<open>The numbers of the \<open>enum\<close> of env states that \<open>sys_env_set_status\<close> accepts.\<close>

definition status_number :: "env_status \<Rightarrow> u32" where
  "status_number st = (case st of ENV_FREE \<Rightarrow> 0 | ENV_DYING \<Rightarrow> 1 | ENV_RUNNABLE \<Rightarrow> 2 | ENV_RUNNING \<Rightarrow> 3 | ENV_NOT_RUNNABLE \<Rightarrow> 4)"

definition sys_env_set_status :: "kern \<Rightarrow> envid_t \<Rightarrow> u32 \<Rightarrow> (int \<times> kern) option" where
  "sys_env_set_status s envid status =
     (if status \<noteq> status_number ENV_NOT_RUNNABLE \<and> status \<noteq> status_number ENV_RUNNABLE then Some (- E_INVAL, s)
      else do {
        (ret, e) \<leftarrow> envid2env s envid True;
        if ret < 0 then Some (ret, s)
        else do {
          e \<leftarrow> e;
          Some (0, upd_env s e (\<lambda>v. v\<lparr>env_status :=
            (if status = status_number ENV_RUNNABLE then ENV_RUNNABLE else ENV_NOT_RUNNABLE)\<rparr>))
        }
      })"

definition sys_env_set_pgfault_upcall :: "kern \<Rightarrow> envid_t \<Rightarrow> u32 \<Rightarrow> (int \<times> kern) option" where
  "sys_env_set_pgfault_upcall s envid func = do {
     (ret, e) \<leftarrow> envid2env s envid True;
     if ret < 0 then Some (ret, s)
     else do { e \<leftarrow> e; Some (0, upd_env s e (\<lambda>v. v\<lparr>env_pgfault_upcall := func\<rparr>)) }
   }"

subsection \<open>Calls about address spaces\<close>

definition sys_page_alloc :: "kern \<Rightarrow> envid_t \<Rightarrow> u32 \<Rightarrow> u32 \<Rightarrow> (int \<times> kern) option" where
  "sys_page_alloc s envid va perm = do {
     (ret, e) \<leftarrow> envid2env s envid True;
     if ret \<noteq> 0 then Some (ret, s)
     else if va \<ge> UTOP \<or> ROUNDDOWN va PGSIZE \<noteq> va then Some (- E_INVAL, s)
     else if perm AND (PTE_U OR PTE_P) \<noteq> PTE_U OR PTE_P then Some (- E_INVAL, s)
     else do {
       (pg, s) \<leftarrow> page_alloc s 1;
       case pg of
         None \<Rightarrow> Some (- E_NO_MEM, s)
       | Some pg \<Rightarrow> do {
           e \<leftarrow> e;
           (ret, s) \<leftarrow> page_insert s (env_pgdir (envs s ! e)) pg va perm;
           if ret \<noteq> 0 then do { s \<leftarrow> page_free s pg; Some (ret, s) }
           else Some (0, s)
         }
     }
   }"

definition sys_page_map :: "kern \<Rightarrow> envid_t \<Rightarrow> u32 \<Rightarrow> envid_t \<Rightarrow> u32 \<Rightarrow> u32 \<Rightarrow> (int \<times> kern) option" where
  "sys_page_map s srcenvid srcva dstenvid dstva perm = do {
     (ret, se) \<leftarrow> envid2env s srcenvid True;
     if ret \<noteq> 0 then Some (ret, s)
     else do {
       (ret, de) \<leftarrow> envid2env s dstenvid True;
       if ret \<noteq> 0 then Some (ret, s)
       else if srcva \<ge> UTOP \<or> dstva \<ge> UTOP \<or> ROUNDDOWN srcva PGSIZE \<noteq> srcva \<or> ROUNDDOWN dstva PGSIZE \<noteq> dstva
       then Some (- E_INVAL, s)
       else do {
         se \<leftarrow> se;
         found \<leftarrow> page_lookup s (env_pgdir (envs s ! se)) srcva;
         case found of
           None \<Rightarrow> Some (- E_INVAL, s)
         | Some (pg, pte) \<Rightarrow>
             if perm AND (PTE_U OR PTE_P) \<noteq> PTE_U OR PTE_P then Some (- E_INVAL, s)
             else if kload s pte AND PTE_W = 0 \<and> perm AND PTE_W \<noteq> 0 then Some (- E_INVAL, s)
             else do { de \<leftarrow> de; page_insert s (env_pgdir (envs s ! de)) pg dstva perm }
       }
     }
   }"

definition sys_page_unmap :: "kern \<Rightarrow> envid_t \<Rightarrow> u32 \<Rightarrow> (int \<times> kern) option" where
  "sys_page_unmap s envid va = do {
     (ret, e) \<leftarrow> envid2env s envid True;
     if ret \<noteq> 0 then Some (ret, s)
     else if va \<ge> UTOP \<or> ROUNDDOWN va PGSIZE \<noteq> va then Some (- E_INVAL, s)
     else do { e \<leftarrow> e; s \<leftarrow> page_remove s (env_pgdir (envs s ! e)) va; Some (0, s) }
   }"

subsection \<open>Interprocess communication\<close>

text \<open>
  The page transfer of \<open>sys_ipc_try_send\<close>. \<open>page_lookup\<close> leaves the local variable \<open>pte\<close> unset when
  nothing is mapped at \<open>srcva\<close>, and the code dereferences it before it looks at the result: the model has
  \<open>None\<close> for that undefined behaviour.
\<close>

definition ipc_transfer :: "kern \<Rightarrow> nat \<Rightarrow> nat \<Rightarrow> u32 \<Rightarrow> u32 \<Rightarrow> (int \<times> kern) option" where
  "ipc_transfer s c rcvenv srcva perm = do {
     found \<leftarrow> page_lookup s (env_pgdir (envs s ! c)) srcva;
     if srcva \<noteq> ROUNDDOWN srcva PGSIZE then Some (- E_INVAL, s)
     else case found of
       None \<Rightarrow> None
     | Some (pg, pte) \<Rightarrow>
         if kload s pte AND perm AND 7 \<noteq> perm AND 7 then Some (- E_INVAL, s)
         else if perm AND PTE_W \<noteq> 0 \<and> kload s pte AND PTE_W = 0 then Some (- E_INVAL, s)
         else if env_ipc_dstva (envs s ! rcvenv) < UTOP
         then do {
           (ret, s) \<leftarrow> page_insert s (env_pgdir (envs s ! rcvenv)) pg (env_ipc_dstva (envs s ! rcvenv)) perm;
           if ret \<noteq> 0 then Some (ret, s)
           else Some (0, upd_env s rcvenv (\<lambda>v. v\<lparr>env_ipc_perm := perm\<rparr>))
         }
         else Some (0, s)
   }"

text \<open>The last statements of \<open>sys_ipc_try_send\<close>.\<close>

definition deliver :: "kern \<Rightarrow> nat \<Rightarrow> nat \<Rightarrow> u32 \<Rightarrow> kern" where
  "deliver s c r val = upd_env s r (\<lambda>v. v\<lparr>env_ipc_recving := False, env_ipc_from := env_id (envs s ! c),
     env_ipc_value := val, env_status := ENV_RUNNABLE, env_tf := (env_tf v)\<lparr>tf_regs := (tf_regs (env_tf v))\<lparr>reg_eax := 0\<rparr>\<rparr>\<rparr>)"

definition sys_ipc_try_send :: "kern \<Rightarrow> envid_t \<Rightarrow> u32 \<Rightarrow> u32 \<Rightarrow> u32 \<Rightarrow> (int \<times> kern) option" where
  "sys_ipc_try_send s envid val srcva perm = do {
     (ret, rcvenv) \<leftarrow> envid2env s envid False;
     if ret \<noteq> 0 then Some (ret, s)
     else do {
       rcvenv \<leftarrow> rcvenv;
       if \<not> env_ipc_recving (envs s ! rcvenv) then Some (- E_IPC_NOT_RECV, s)
       else do {
         c \<leftarrow> curenv s;
         (ret, s) \<leftarrow> (if srcva < UTOP then ipc_transfer s c rcvenv srcva perm else Some (0, s));
         if ret \<noteq> 0 then Some (ret, s)
         else Some (0, deliver s c rcvenv val)
       }
     }
   }"

definition sys_ipc_recv :: "kern \<Rightarrow> u32 \<Rightarrow> int outcome option" where
  "sys_ipc_recv s dstva =
     (if dstva < UTOP \<and> dstva \<noteq> ROUNDDOWN dstva PGSIZE then Some (Returns (- E_INVAL) s)
      else case curenv s of
        None \<Rightarrow> None
      | Some c \<Rightarrow> sys_yield (upd_env s c (\<lambda>v. v\<lparr>env_ipc_recving := True, env_status := ENV_NOT_RUNNABLE,
          env_ipc_dstva := dstva\<rparr>)))"

subsection \<open>The dispatcher\<close>

definition returning :: "(int \<times> kern) option \<Rightarrow> int outcome option" where
  "returning r = map_option (\<lambda>(ret, s). Returns ret s) r"

datatype syscall_number = SYS_cputs | SYS_cgetc | SYS_getenvid | SYS_env_destroy | SYS_page_alloc | SYS_page_map |
  SYS_page_unmap | SYS_exofork | SYS_env_set_status | SYS_env_set_trapframe | SYS_env_set_pgfault_upcall | SYS_yield |
  SYS_ipc_try_send | SYS_ipc_recv

definition syscall_numbers :: "syscall_number list" where
  "syscall_numbers = [SYS_cputs, SYS_cgetc, SYS_getenvid, SYS_env_destroy, SYS_page_alloc, SYS_page_map,
     SYS_page_unmap, SYS_exofork, SYS_env_set_status, SYS_env_set_trapframe, SYS_env_set_pgfault_upcall, SYS_yield,
     SYS_ipc_try_send, SYS_ipc_recv]"

definition syscall_of :: "u32 \<Rightarrow> syscall_number option" where
  "syscall_of n = (if unat n < length syscall_numbers then Some (syscall_numbers ! unat n) else None)"

text \<open>The calls other than \<open>sys_cgetc\<close>, which is the only one that uses the console.\<close>

definition syscall_kern :: "kern \<Rightarrow> syscall_number option \<Rightarrow> u32 \<Rightarrow> u32 \<Rightarrow> u32 \<Rightarrow> u32 \<Rightarrow> u32 \<Rightarrow> int outcome option" where
  "syscall_kern s number a1 a2 a3 a4 a5 =
     (case number of
        Some SYS_cputs \<Rightarrow> map_option (outcome_map (\<lambda>_. 0)) (sys_cputs s a1 a2)
      | Some SYS_getenvid \<Rightarrow> map_option (\<lambda>id. Returns (sint id) s) (sys_getenvid s)
      | Some SYS_env_destroy \<Rightarrow> sys_env_destroy s a1
      | Some SYS_yield \<Rightarrow> sys_yield s
      | Some SYS_exofork \<Rightarrow> returning (sys_exofork s)
      | Some SYS_env_set_status \<Rightarrow> returning (sys_env_set_status s a1 a2)
      | Some SYS_page_alloc \<Rightarrow> returning (sys_page_alloc s a1 a2 a3)
      | Some SYS_page_map \<Rightarrow> returning (sys_page_map s a1 a2 a3 a4 a5)
      | Some SYS_page_unmap \<Rightarrow> returning (sys_page_unmap s a1 a2)
      | Some SYS_env_set_pgfault_upcall \<Rightarrow> returning (sys_env_set_pgfault_upcall s a1 a2)
      | Some SYS_ipc_try_send \<Rightarrow> returning (sys_ipc_try_send s a1 a2 a3 a4)
      | Some SYS_ipc_recv \<Rightarrow> sys_ipc_recv s a1
      | _ \<Rightarrow> Some (Returns (- E_INVAL) s))"

definition syscall :: "int list \<Rightarrow> int list \<Rightarrow> console \<Rightarrow> kern \<Rightarrow> u32 \<Rightarrow> u32 \<Rightarrow> u32 \<Rightarrow> u32 \<Rightarrow> u32 \<Rightarrow> u32 \<Rightarrow>
    (int outcome \<times> console) option" where
  "syscall serial kbd con s syscallno a1 a2 a3 a4 a5 =
     (case syscall_of syscallno of
        Some SYS_cgetc \<Rightarrow> (let (c, con) = cons_getc serial kbd con in Some (Returns (uint c) s, con))
      | number \<Rightarrow> map_option (\<lambda>out. (out, con)) (syscall_kern s number a1 a2 a3 a4 a5))"

subsection \<open>Arguments\<close>

text \<open>The environment that an identifier in a system call denotes, if the caller may use it.\<close>

lemma envid2env_result [consumes 3, case_names bad good]:
  assumes inv: "kinv s xs fs pend" and c: "curenv s = Some c" "c \<in> live s"
  obtains (bad) "envid2env s envid chk = Some (- E_BAD_ENV, None)"
  | (good) e where "envid2env s envid chk = Some (0, Some e)" "e \<in> live s"
proof (cases "envid = 0")
  case True
  then have "envid2env s envid chk = Some (0, Some c)" using c(1) by (simp add: envid2env_def)
  with c(2) show thesis by (rule good [rotated])
next
  case False
  note E = envid2env_cases [OF kinvD(1) [OF inv] c(1) False, of chk]
  show thesis
  proof (cases "ENVX envid \<in> live s \<and> env_id (envs s ! ENVX envid) = envid \<and>
         (chk \<longrightarrow> ENVX envid = c \<or> env_parent_id (envs s ! ENVX envid) = env_id (envs s ! c))")
    case True
    then show thesis using good E by simp
  next
    case False
    then have "envid2env s envid chk = Some (- E_BAD_ENV, None)" unfolding E by (rule if_not_P)
    then show thesis by (rule bad)
  qed
qed

definition user_page :: "u32 \<Rightarrow> bool" where
  "user_page va \<longleftrightarrow> va < UTOP \<and> PGOFF va = 0"

lemma user_page_iff: "va \<ge> UTOP \<or> ROUNDDOWN va PGSIZE \<noteq> va \<longleftrightarrow> \<not> user_page va"
proof -
  have "ROUNDDOWN va PGSIZE = va \<longleftrightarrow> PGOFF va = 0"
    using PTE_ADDR_aligned [of va] PGOFF_PTE_ADDR [of va] unfolding ROUNDDOWN_PTE_ADDR by metis
  then show ?thesis by (auto simp: user_page_def not_less)
qed

lemma user_page_va: "user_page va \<Longrightarrow> user_va va"
  by (simp add: user_page_def user_va_def)

definition perm_ok :: "u32 \<Rightarrow> bool" where
  "perm_ok perm \<longleftrightarrow> perm AND (PTE_U OR PTE_P) = PTE_U OR PTE_P"

text \<open>
  The comments of kern/syscall.c also forbid every bit outside \<open>PTE_SYSCALL\<close>. The code does not check that; such a
  permission in particular has no address bits.
\<close>

definition within_syscall :: "u32 \<Rightarrow> bool" where
  "within_syscall perm \<longleftrightarrow> perm AND NOT PTE_SYSCALL = 0"

lemma within_syscall_addr:
  assumes "within_syscall perm"
  shows "PTE_ADDR perm = 0"
proof -
  have "NOT 0xFFF AND NOT PTE_SYSCALL = (NOT 0xFFF :: u32)"
    by (simp add: pte_flag_defs)
  then have "perm AND NOT 0xFFF = (perm AND NOT PTE_SYSCALL) AND NOT 0xFFF"
    by (simp only: ac_simps)
  then show ?thesis
    using assms by (simp add: PTE_ADDR_def within_syscall_def)
qed

subsection \<open>Giving a page back\<close>

lemma kinv_give_back:
  assumes inv: "kinv s (x # xs) fs pend" and s1: "page_alloc s fl = Some (r, s1)"
  obtains s2 where "page_free s1 x = Some s2" "kinv s2 (x # xs) fs pend" "kframe s s2"
    "mapped s2 (env_dirs s) = mapped s (env_dirs s)"
proof -
  note K = kinvD [OF inv] and A = pt_inv_alloc [OF kinvD(2) [OF inv] s1]
  note D = pt_invD [OF K(2)] and I = page_alloc_inv [OF pt_invD(1) [OF kinvD(2) [OF inv]] s1]
  let ?Ds = "env_dirs s"
  obtain s2 where s2: "page_free s1 x = Some s2" "free_inv s2 (x # xs)" "ref_of s2 = ref_of s1" "mem s2 = mem s1" "npages s2 = npages s1"
    using page_free_inv [OF I(2,3) A(6)] by metis
  have fr: "kframe s1 s2"
    using s2(1) by (auto simp: page_free_def kframe_def split: if_splits)
  have pde: "pde_at s2 = pde_at s1" by (auto simp: pde_at_def s2(4) fun_eq_iff)
  have pte: "pte_at s2 = pte_at s1" by (auto simp: pte_at_def s2(4) pde fun_eq_iff)
  have T: "tabs s2 ?Ds = tabs s1 ?Ds" unfolding tabs_def pde ..
  have M: "mapped s2 ?Ds = mapped s1 ?Ds" unfolding mapped_def pte T ..
  have pt2: "pt_inv s2 ?Ds (x # xs) pend"
    using pt_invD(2,3) [OF A(2)] s2(2,3,5) by (simp add: pt_inv_def T M clean_def pte)
  have "mem_frame {x} s s1"
    unfolding mem_frame_def using page_alloc_mem [OF D(1) s1] by simp
  then have mf: "mem_frame (pt_pages s ?Ds (x # xs)) s s2"
    by (simp add: mem_frame_def s2(4))
  have fr2: "kframe s s2" using A(9) fr by (rule kframe_trans)
  have "leaks s2 (x # xs) = leaks s (x # xs)"
    using fr2 s2(3) A(3) by (simp add: leaks_def kframe_def)
  then have "kinv s2 (x # xs) fs pend"
    using K(3) by (intro kinv_pages [OF inv fr2 mf pt2]) simp
  then show thesis
    using that s2(1) fr2 M A(8) by simp
qed

subsection \<open>Allocating a page\<close>

lemma page_alloc_1: "(1 :: u32) AND ALLOC_ZERO \<noteq> 0"
  by (simp add: ALLOC_ZERO_def)

lemma sys_page_alloc_bad:
  "envid2env s envid True = Some (- E_BAD_ENV, None) \<Longrightarrow> sys_page_alloc s envid va perm = Some (- E_BAD_ENV, s)"
  by (simp add: sys_page_alloc_def E_BAD_ENV_def)

lemma sys_page_alloc_inval:
  "envid2env s envid True = Some (0, Some e) \<Longrightarrow> \<not> (user_page va \<and> perm_ok perm) \<Longrightarrow>
     sys_page_alloc s envid va perm = Some (- E_INVAL, s)"
  by (auto simp: sys_page_alloc_def user_page_iff perm_ok_def)

lemma sys_page_alloc_eq:
  "envid2env s envid True = Some (0, Some e) \<Longrightarrow> user_page va \<Longrightarrow> perm_ok perm \<Longrightarrow>
     sys_page_alloc s envid va perm = do {
       (pg, s) \<leftarrow> page_alloc s 1;
       case pg of
         None \<Rightarrow> Some (- E_NO_MEM, s)
       | Some pg \<Rightarrow> do {
           (ret, s) \<leftarrow> page_insert s (env_pgdir (envs s ! e)) pg va perm;
           if ret \<noteq> 0 then do { s \<leftarrow> page_free s pg; Some (ret, s) } else Some (0, s)
         }
     }"
  by (simp add: sys_page_alloc_def user_page_iff perm_ok_def cong: option.case_cong)

definition only_page :: "kern \<Rightarrow> nat \<Rightarrow> u32 \<Rightarrow> kern \<Rightarrow> bool" where
  "only_page s d va s' \<longleftrightarrow> (\<forall>d' va'. d' \<in> env_dirs s \<longrightarrow> user_va va' \<longrightarrow> (d', PTE_ADDR va') \<noteq> (d, PTE_ADDR va) \<longrightarrow>
     va_pte s' d' va' = va_pte s d' va')"

lemma sys_page_alloc_run [consumes 6, case_names full mapped]:
  assumes inv: "kinv s (x # ys) fs pend" and e: "e \<in> live s" "envid2env s envid True = Some (0, Some e)"
    and ok: "user_page va" "perm_ok perm" and p: "PTE_ADDR perm = 0"
  obtains (full) s' where "ys = []" "tabs s (env_dirs s) (dir_of s e, PDX va) = None"
    "sys_page_alloc s envid va perm = Some (- E_NO_MEM, s')" "kinv s' (x # ys) fs pend" "kframe s s'"
    "mapped s' (env_dirs s) = mapped s (env_dirs s)"
  | (mapped) s' xs' where "\<not> (ys = [] \<and> tabs s (env_dirs s) (dir_of s e, PDX va) = None)"
    "sys_page_alloc s envid va perm = Some (0, s')" "kinv s' xs' fs pend" "kframe s s'"
    "mapped s' (env_dirs s) = (mapped s (env_dirs s))((dir_of s e, PDX va, PTX va) \<mapsto> x)"
    "va_pte s' (dir_of s e) va = page2pa x OR perm OR PTE_P" "\<forall>a. PTE_ADDR a = page2pa x \<longrightarrow> mem s' a = 0"
    "only_page s (dir_of s e) va s'"
proof -
  obtain r s1 where s1: "page_alloc s 1 = Some (r, s1)"
    using page_alloc_Cons [OF pt_invD(1) [OF kinvD(2) [OF inv]]] by blast
  note F = kinv_fresh [OF inv e(1) user_page_va [OF ok(1)] p s1] and eq = sys_page_alloc_eq [OF e(2) ok]
  have en: "envs s1 = envs s" "r = Some x"
    using F(1,2) by (simp_all add: kframe_def)
  show thesis
  proof (cases "ys = [] \<and> tabs s (env_dirs s) (dir_of s e, PDX va) = None")
    case True
    obtain s2 where s2: "page_free s1 x = Some s2" "kinv s2 (x # ys) fs pend" "kframe s s2"
      "mapped s2 (env_dirs s) = mapped s (env_dirs s)"
      by (rule kinv_give_back [OF inv s1])
    have "sys_page_alloc s envid va perm = Some (- E_NO_MEM, s2)"
      using s1 s2(1) F(3) True by (simp add: eq en E_NO_MEM_def)
    then show thesis
      using True s2 by (intro full [of s2]) simp_all
  next
    case False
    then obtain s' xs' where s': "page_insert s1 (env_pgdir (envs s ! e)) x va perm = Some (0, s')" "kinv s' xs' fs pend"
      "mapped s' (env_dirs s) = (mapped s (env_dirs s))((dir_of s e, PDX va, PTX va) \<mapsto> x)"
      "va_pte s' (dir_of s e) va = page2pa x OR perm OR PTE_P" "only_page s (dir_of s e) va s'"
      "kframe s s'" "\<forall>a. PTE_ADDR a = page2pa x \<longrightarrow> mem s' a = 0"
      using F(4) page_alloc_1 unfolding only_page_def by blast
    moreover have "sys_page_alloc s envid va perm = Some (0, s')"
      using s1 s'(1) by (simp add: eq en)
    ultimately show thesis
      using False by (intro mapped)
  qed
qed

lemma sys_page_alloc_spec:
  assumes inv: "kinv s xs fs pend" and c: "curenv s = Some c" "c \<in> live s" and p: "PTE_ADDR perm = 0"
  shows "\<exists>ret s' xs'. sys_page_alloc s envid va perm = Some (ret, s') \<and> kinv s' xs' fs pend \<and> kframe s s' \<and>
     (if envid2env s envid True = Some (- E_BAD_ENV, None) then ret = - E_BAD_ENV \<and> s' = s
      else if \<not> (user_page va \<and> perm_ok perm) then ret = - E_INVAL \<and> s' = s
      else \<exists>e. e \<in> live s \<and> envid2env s envid True = Some (0, Some e) \<and>
        (if xs = [] \<or> tl xs = [] \<and> tabs s (env_dirs s) (dir_of s e, PDX va) = None
         then ret = - E_NO_MEM \<and> mapped s' (env_dirs s) = mapped s (env_dirs s)
         else ret = 0 \<and>
           mapped s' (env_dirs s) = (mapped s (env_dirs s))((dir_of s e, PDX va, PTX va) \<mapsto> hd xs) \<and>
           va_pte s' (dir_of s e) va = page2pa (hd xs) OR perm OR PTE_P \<and>
           (\<forall>a. PTE_ADDR a = page2pa (hd xs) \<longrightarrow> mem s' a = 0) \<and>
           only_page s (dir_of s e) va s'))"
using inv c
proof (cases rule: envid2env_result [of _ _ _ _ _ envid True])
  case bad
  then show ?thesis
    using inv by (intro exI [of _ "- E_BAD_ENV"] exI [of _ s] exI [of _ xs]) (simp add: sys_page_alloc_bad)
next
  case (good e)
  have nb: "envid2env s envid True \<noteq> Some (- E_BAD_ENV, None)" using good by simp
  show ?thesis
  proof (cases "user_page va \<and> perm_ok perm")
    case False
    then show ?thesis
      using inv good by (intro exI [of _ "- E_INVAL"] exI [of _ s] exI [of _ xs]) (auto simp: sys_page_alloc_inval)
  next
    case ok: True
    show ?thesis
    proof (cases xs)
      case Nil
      have "page_alloc s 1 = Some (None, s)"
        using page_alloc_Nil [OF pt_invD(1) [OF kinvD(2) [OF inv [unfolded Nil]]]] .
      then have "sys_page_alloc s envid va perm = Some (- E_NO_MEM, s)"
        using ok by (simp add: sys_page_alloc_eq [OF good(1)])
      then show ?thesis
        using inv good ok Nil by (intro exI [of _ "- E_NO_MEM"] exI [of _ s] exI [of _ xs]) simp
    next
      case (Cons x ys)
      show ?thesis
        using inv [unfolded Cons] good(2,1) ok [THEN conjunct1] ok [THEN conjunct2] p
      proof (cases rule: sys_page_alloc_run)
        case (full s')
        then show ?thesis
          using good ok Cons by (intro exI [of _ "- E_NO_MEM"] exI [of _ s'] exI [of _ "x # ys"]) simp
      next
        case (mapped s' xs')
        then show ?thesis
          using good ok Cons by (intro exI [of _ 0] exI [of _ s'] exI [of _ xs']) auto
      qed
    qed
  qed
qed

text \<open>
  C15. \<open>sys_page_alloc\<close> by a live caller, for permission words without bits outside \<open>PTE_SYSCALL\<close> (the code does
  not reject such bits, against its comment): it rejects foreign or stale environments, bad addresses and missing
  \<open>PTE_U|PTE_P\<close> without changing anything; it returns
  \<open>-E_NO_MEM\<close>, keeping every mapping and giving the page back, when there is no page left or none for the page table it
  needs; and otherwise maps a page from the free list, filled with zeros, at \<open>va\<close> with the requested permission,
  leaving every other user page of every environment as it was. The kernel invariant holds afterwards in all cases.
\<close>

theorem sys_page_alloc_correct:
  assumes "kinv s xs fs pend" and "curenv s = Some c" "c \<in> live s" and "within_syscall perm"
  shows "\<exists>ret s' xs'. sys_page_alloc s envid va perm = Some (ret, s') \<and> kinv s' xs' fs pend \<and> kframe s s' \<and>
     (if envid2env s envid True = Some (- E_BAD_ENV, None) then ret = - E_BAD_ENV \<and> s' = s
      else if \<not> (user_page va \<and> perm_ok perm) then ret = - E_INVAL \<and> s' = s
      else \<exists>e. e \<in> live s \<and> envid2env s envid True = Some (0, Some e) \<and>
        (if xs = [] \<or> tl xs = [] \<and> tabs s (env_dirs s) (dir_of s e, PDX va) = None
         then ret = - E_NO_MEM \<and> mapped s' (env_dirs s) = mapped s (env_dirs s)
         else ret = 0 \<and>
           mapped s' (env_dirs s) = (mapped s (env_dirs s))((dir_of s e, PDX va, PTX va) \<mapsto> hd xs) \<and>
           va_pte s' (dir_of s e) va = page2pa (hd xs) OR perm OR PTE_P \<and>
           (\<forall>a. PTE_ADDR a = page2pa (hd xs) \<longrightarrow> mem s' a = 0) \<and>
           only_page s (dir_of s e) va s'))"
  using assms(1-3) within_syscall_addr [OF assms(4)] by (rule sys_page_alloc_spec)

lemma kinit_running:
  obtains s where "env_alloc kinit 0 = Some (0, Some 0, s)" "kinv (s\<lparr>curenv := Some 0\<rparr>) [4, 5, 6, 7] [1..<NENV] init_pend"
    "0 \<in> live (s\<lparr>curenv := Some 0\<rparr>)" "curenv (s\<lparr>curenv := Some 0\<rparr>) = Some 0" "dir_of (s\<lparr>curenv := Some 0\<rparr>) 0 = 3"
    "envid2env (s\<lparr>curenv := Some 0\<rparr>) 0 chk = Some (0, Some 0)"
proof -
  obtain s where s: "env_alloc kinit 0 = Some (0, Some 0, s)" "kinv s [4, 5, 6, 7] [1..<NENV] init_pend" "live s = {0}"
    "dir_of s 0 = 3"
    by (rule kinit_alloc)
  have "live (s\<lparr>curenv := Some 0\<rparr>) = live s" by (simp add: live_def)
  then show thesis
    using s by (intro that [of s]) (simp_all add: kinv_curenv dir_of_def envid2env_def)
qed

theorem sys_page_alloc_correct_witness:
  "\<exists>s s'. env_alloc kinit 0 = Some (0, Some 0, s) \<and>
     sys_page_alloc (s\<lparr>curenv := Some 0\<rparr>) 0 0x800000 7 = Some (0, s') \<and> va_pte s' 3 0x800000 = page2pa 4 OR 7 OR PTE_P"
proof -
  obtain s where s: "env_alloc kinit 0 = Some (0, Some 0, s)" "kinv (s\<lparr>curenv := Some 0\<rparr>) [4, 5, 6, 7] [1..<NENV] init_pend"
    "0 \<in> live (s\<lparr>curenv := Some 0\<rparr>)" "curenv (s\<lparr>curenv := Some 0\<rparr>) = Some 0" "dir_of (s\<lparr>curenv := Some 0\<rparr>) 0 = 3"
    "envid2env (s\<lparr>curenv := Some 0\<rparr>) 0 True = Some (0, Some 0)"
    by (rule kinit_running)
  have h: "within_syscall 7" "user_page 0x800000" "perm_ok 7"
    by (simp_all add: within_syscall_def user_page_def perm_ok_def PGOFF_def layout_defs pte_flag_defs)
  show ?thesis
    using sys_page_alloc_correct [OF s(2,4,3) h(1), of 0 "0x800000"] s(1,5,6) h(2,3) by auto
qed

subsection \<open>Sharing and unmapping pages\<close>

lemma mapped_pte:
  assumes "mapped s Ds (d, PDX va, PTX va) = Some p"
  shows "mem s (entry (PTE_ADDR (pde_at s d (PDX va))) (PTX va)) = va_pte s d va"
  using assms by (auto simp: mapped_def tabs_def va_pte_def pte_at_def split: if_splits)

definition writable :: "kern \<Rightarrow> nat \<Rightarrow> u32 \<Rightarrow> bool" where
  "writable s d va \<longleftrightarrow> va_pte s d va AND PTE_W \<noteq> 0"

lemma sys_page_map_eq:
  assumes inv: "kinv s xs fs pend"
    and se: "envid2env s srcenvid True = Some (0, Some se)" "se \<in> live s"
    and de: "envid2env s dstenvid True = Some (0, Some de)"
  shows "sys_page_map s srcenvid srcva dstenvid dstva perm =
     (if \<not> (user_page srcva \<and> user_page dstva) then Some (- E_INVAL, s)
      else case mapped s (env_dirs s) (dir_of s se, PDX srcva, PTX srcva) of
        None \<Rightarrow> Some (- E_INVAL, s)
      | Some p \<Rightarrow>
          if \<not> perm_ok perm \<or> \<not> writable s (dir_of s se) srcva \<and> perm AND PTE_W \<noteq> 0 then Some (- E_INVAL, s)
          else page_insert s (env_pgdir (envs s ! de)) p dstva perm)"
proof (cases "user_page srcva \<and> user_page dstva")
  case False
  then have "srcva \<ge> UTOP \<or> dstva \<ge> UTOP \<or> ROUNDDOWN srcva PGSIZE \<noteq> srcva \<or> ROUNDDOWN dstva PGSIZE \<noteq> dstva"
    using user_page_iff by blast
  then show ?thesis
    using False se de by (simp add: sys_page_map_def)
next
  case True
  then have ok: "\<not> (srcva \<ge> UTOP \<or> dstva \<ge> UTOP \<or> ROUNDDOWN srcva PGSIZE \<noteq> srcva \<or> ROUNDDOWN dstva PGSIZE \<noteq> dstva)"
    using user_page_iff by blast
  have "user_va srcva" using True user_page_va by blast
  note L = page_lookup_mapped [OF kinvD(2) [OF inv] kinvD(6) [OF inv se(2)] this]
  show ?thesis
    using True ok se de kinvD(5) [OF inv se(2)]
    by (cases "mapped s (env_dirs s) (dir_of s se, PDX srcva, PTX srcva)")
      (auto simp: sys_page_map_def L mapped_pte writable_def perm_ok_def)
qed

definition no_wrap_refs :: "kern \<Rightarrow> bool" where
  "no_wrap_refs s \<longleftrightarrow> (\<forall>p < npages s. unat (ref_of s p) + 1 < 65536)"

lemma kinv_share_cases [consumes 6, case_names full mapped]:
  assumes inv: "kinv s xs fs pend" and e: "e \<in> live s" and va: "user_va va" and nw: "no_wrap_refs s"
    and p: "mapped s (env_dirs s) k = Some p" and perm: "PTE_ADDR perm = 0"
  obtains (full) "xs = []" "tabs s (env_dirs s) (dir_of s e, PDX va) = None"
      "page_insert s (env_pgdir (envs s ! e)) p va perm = Some (- E_NO_MEM, s)"
  | (mapped) s' xs' where "\<not> (xs = [] \<and> tabs s (env_dirs s) (dir_of s e, PDX va) = None)"
      "page_insert s (env_pgdir (envs s ! e)) p va perm = Some (0, s')" "kinv s' xs' fs pend" "kframe s s'"
      "mapped s' (env_dirs s) = (mapped s (env_dirs s))((dir_of s e, PDX va, PTX va) \<mapsto> p)"
      "va_pte s' (dir_of s e) va = page2pa p OR perm OR PTE_P" "only_page s (dir_of s e) va s'"
proof -
  have "unat (ref_of s p) + 1 < 65536"
    using nw mapped_page(1) [OF kinvD(2) [OF inv] p] unfolding no_wrap_refs_def by blast
  note S = kinv_share [OF inv e va p this perm]
  show thesis
  proof (cases "xs = [] \<and> tabs s (env_dirs s) (dir_of s e, PDX va) = None")
    case True
    then show thesis using full S by simp
  next
    case False
    show thesis
      using S [unfolded if_not_P [OF False]] mapped [OF False] unfolding only_page_def by blast
  qed
qed

lemma sys_page_map_spec:
  assumes inv: "kinv s xs fs pend" and c: "curenv s = Some c" "c \<in> live s" and p: "PTE_ADDR perm = 0" and nw: "no_wrap_refs s"
  shows "\<exists>ret s' xs'. sys_page_map s srcenvid srcva dstenvid dstva perm = Some (ret, s') \<and> kinv s' xs' fs pend \<and> kframe s s' \<and>
     (ret \<noteq> 0 \<longrightarrow> s' = s) \<and>
     (if envid2env s srcenvid True = Some (- E_BAD_ENV, None) \<or> envid2env s dstenvid True = Some (- E_BAD_ENV, None)
      then ret = - E_BAD_ENV
      else \<exists>se de. se \<in> live s \<and> de \<in> live s \<and> envid2env s srcenvid True = Some (0, Some se) \<and>
        envid2env s dstenvid True = Some (0, Some de) \<and>
        (case mapped s (env_dirs s) (dir_of s se, PDX srcva, PTX srcva) of
           None \<Rightarrow> ret = - E_INVAL
         | Some q \<Rightarrow>
             if \<not> (user_page srcva \<and> user_page dstva) \<or> \<not> perm_ok perm \<or>
               perm AND PTE_W \<noteq> 0 \<and> \<not> writable s (dir_of s se) srcva then ret = - E_INVAL
             else if xs = [] \<and> tabs s (env_dirs s) (dir_of s de, PDX dstva) = None then ret = - E_NO_MEM
             else ret = 0 \<and> mapped s' (env_dirs s) = (mapped s (env_dirs s))((dir_of s de, PDX dstva, PTX dstva) \<mapsto> q) \<and>
               va_pte s' (dir_of s de) dstva = page2pa q OR perm OR PTE_P \<and> only_page s (dir_of s de) dstva s'))"
  using inv c
proof (cases rule: envid2env_result [of _ _ _ _ _ srcenvid True])
  case bad
  then have "sys_page_map s srcenvid srcva dstenvid dstva perm = Some (- E_BAD_ENV, s)"
    by (simp add: sys_page_map_def E_BAD_ENV_def)
  then show ?thesis
    using bad inv by (intro exI [of _ "- E_BAD_ENV"] exI [of _ s] exI [of _ xs]) simp
next
  case (good se)
  show ?thesis
    using inv c
  proof (cases rule: envid2env_result [of _ _ _ _ _ dstenvid True])
    case bad
    then have "sys_page_map s srcenvid srcva dstenvid dstva perm = Some (- E_BAD_ENV, s)"
      using good by (simp add: sys_page_map_def E_BAD_ENV_def)
    then show ?thesis
      using bad inv by (intro exI [of _ "- E_BAD_ENV"] exI [of _ s] exI [of _ xs]) simp
  next
    case de: (good de)
    note eq = sys_page_map_eq [OF inv good de(1)]
    show ?thesis
    proof (cases "mapped s (env_dirs s) (dir_of s se, PDX srcva, PTX srcva)")
      case None
      then show ?thesis
        using eq good de inv by (intro exI [of _ "- E_INVAL"] exI [of _ s] exI [of _ xs]) simp
    next
      case (Some q)
      show ?thesis
      proof (cases "\<not> (user_page srcva \<and> user_page dstva) \<or> \<not> perm_ok perm \<or>
               perm AND PTE_W \<noteq> 0 \<and> \<not> writable s (dir_of s se) srcva")
        case True
        then have "sys_page_map s srcenvid srcva dstenvid dstva perm = Some (- E_INVAL, s)"
          unfolding eq by (auto simp: Some)
        then show ?thesis
          using True Some good de inv by (intro exI [of _ "- E_INVAL"] exI [of _ s] exI [of _ xs]) simp
      next
        case False
        then have e: "sys_page_map s srcenvid srcva dstenvid dstva perm = page_insert s (env_pgdir (envs s ! de)) q dstva perm"
          unfolding eq by (auto simp: Some)
        have va: "user_va dstva" using False user_page_va by blast
        show ?thesis
          using inv de(2) va nw Some p
        proof (cases rule: kinv_share_cases)
          case full
          then show ?thesis
            using e False Some good de inv by (intro exI [of _ "- E_NO_MEM"] exI [of _ s] exI [of _ xs]) auto
        next
          case (mapped s' xs')
          then show ?thesis
            using e False Some good de by (intro exI [of _ 0] exI [of _ s'] exI [of _ xs']) auto
        qed
      qed
    qed
  qed
qed

text \<open>
  C5. \<open>sys_page_map\<close> by a live caller, for permission words without bits outside \<open>PTE_SYSCALL\<close> (the code does not
  reject such bits, against its comment) and 16-bit reference counts below their limit, so that the count of the
  shared page does not wrap: both environments must be the caller or its children, both addresses page-aligned below \<open>UTOP\<close>, the
  source mapped, and write permission is granted only for a page the source can write; every violation and a
  missing page-table page give an error and change nothing. Otherwise the destination maps the very page of
  the source with the requested permission, and no other user page of any environment changes.
\<close>

theorem sys_page_map_correct:
  assumes "kinv s xs fs pend" and "curenv s = Some c" "c \<in> live s" and "within_syscall perm" and "no_wrap_refs s"
  shows "\<exists>ret s' xs'. sys_page_map s srcenvid srcva dstenvid dstva perm = Some (ret, s') \<and> kinv s' xs' fs pend \<and> kframe s s' \<and>
     (ret \<noteq> 0 \<longrightarrow> s' = s) \<and>
     (if envid2env s srcenvid True = Some (- E_BAD_ENV, None) \<or> envid2env s dstenvid True = Some (- E_BAD_ENV, None)
      then ret = - E_BAD_ENV
      else \<exists>se de. se \<in> live s \<and> de \<in> live s \<and> envid2env s srcenvid True = Some (0, Some se) \<and>
        envid2env s dstenvid True = Some (0, Some de) \<and>
        (case mapped s (env_dirs s) (dir_of s se, PDX srcva, PTX srcva) of
           None \<Rightarrow> ret = - E_INVAL
         | Some q \<Rightarrow>
             if \<not> (user_page srcva \<and> user_page dstva) \<or> \<not> perm_ok perm \<or>
               perm AND PTE_W \<noteq> 0 \<and> \<not> writable s (dir_of s se) srcva then ret = - E_INVAL
             else if xs = [] \<and> tabs s (env_dirs s) (dir_of s de, PDX dstva) = None then ret = - E_NO_MEM
             else ret = 0 \<and> mapped s' (env_dirs s) = (mapped s (env_dirs s))((dir_of s de, PDX dstva, PTX dstva) \<mapsto> q) \<and>
               va_pte s' (dir_of s de) dstva = page2pa q OR perm OR PTE_P \<and> only_page s (dir_of s de) dstva s'))"
  using assms(1-3) within_syscall_addr [OF assms(4)] assms(5) by (rule sys_page_map_spec)

lemma no_wrap_refsI:
  assumes inv: "kinv s xs fs pend" and n: "card (dom (mapped s (env_dirs s))) < 30000" "\<And>p. p < npages s \<Longrightarrow> pend p < 30000"
  shows "no_wrap_refs s"
  unfolding no_wrap_refs_def
proof (intro allI impI)
  fix p assume p: "p < npages s"
  let ?D = "env_dirs s"
  have R: "ref_inv ?D (tabs s ?D) (mapped s ?D) (ref_of s) (npages s) pend"
    by (rule pt_invD(2) [OF kinvD(2) [OF inv]])
  have "count_refs (mapped s ?D) p \<le> card (dom (mapped s ?D))"
    unfolding count_refs_def using R by (intro card_mono) (auto simp: ref_inv_def)
  then have "count_refs (mapped s ?D) p + pend p < 60000"
    using n(1) n(2) [OF p] by linarith
  moreover have "unat (ref_of s p) = 1 \<or> unat (ref_of s p) = count_refs (mapped s ?D) p + pend p"
    using R p unfolding ref_inv_def by (metis unat_1)
  ultimately show "unat (ref_of s p) + 1 < 65536" by auto
qed

text \<open>A small running system: environment 0 with one page at \<open>0x800000\<close>.\<close>

lemma kinit_page:
  obtains s0 s xs where "env_alloc kinit 0 = Some (0, Some 0, s0)"
    "sys_page_alloc (s0\<lparr>curenv := Some 0\<rparr>) 0 0x800000 7 = Some (0, s)"
    "kinv s xs [1..<NENV] init_pend" "0 \<in> live s" "curenv s = Some 0" "dir_of s 0 = 3" "no_wrap_refs s"
    "mapped s (env_dirs s) (3, PDX 0x800000, PTX 0x800000) = Some 4" "va_pte s 3 0x800000 = page2pa 4 OR 7 OR PTE_P"
    "writable s 3 0x800000" "envid2env s 0 chk = Some (0, Some 0)"
    "mapped s (env_dirs s) = [(3, PDX 0x800000, PTX 0x800000) \<mapsto> 4]"
proof -
  obtain s0 where s0: "env_alloc kinit 0 = Some (0, Some 0, s0)" "kinv s0 [4, 5, 6, 7] [1..<NENV] init_pend" "live s0 = {0}"
    "dir_of s0 0 = 3" "env_dirs s0 = {3}" "mapped s0 {3} = Map.empty" "npages s0 = 8"
    by (rule kinit_alloc)
  let ?s = "s0\<lparr>curenv := Some 0\<rparr>"
  have fr: "env_frame s0 ?s" by (simp add: env_frame_def)
  note F = kinv_env_frame [OF s0(2) fr]
  have l: "0 \<in> live ?s" "dir_of ?s 0 = 3" "env_dirs ?s = {3}" "mapped ?s {3} = Map.empty"
    "envid2env ?s 0 True = Some (0, Some 0)"
    using F(2-5) s0 by (simp_all add: envid2env_def)
  have h: "PTE_ADDR 7 = 0" "user_page 0x800000" "perm_ok 7"
    by (simp_all add: PTE_ADDR_def user_page_def perm_ok_def PGOFF_def layout_defs pte_flag_defs)
  show thesis
    using F(1) l(1,5) h(2,3,1)
  proof (cases rule: sys_page_alloc_run)
    case (mapped s xs)
    note E = kframe_env [OF mapped(4)]
    have m: "mapped s (env_dirs s) = [(3, PDX 0x800000, PTX 0x800000) \<mapsto> 4]"
      using mapped(5) l E by simp
    have "card (dom (mapped s (env_dirs s))) < 30000" by (simp add: m)
    then have "no_wrap_refs s"
      by (rule no_wrap_refsI [OF mapped(3)]) (use mapped(4) s0(7) in \<open>simp add: init_pend_def ref_of_def kdemo_nth kframe_def\<close>)
    moreover have "(page2pa 4 OR 7 OR PTE_P) AND PTE_W \<noteq> 0"
      by (simp add: page2pa_def pte_flag_defs)
    then have "writable s 3 0x800000"
      using mapped(6) l(2) by (simp add: writable_def)
    moreover have "curenv s = Some 0" using mapped(4) by (simp add: kframe_def)
    ultimately show thesis
      using E l(1,2) m mapped(2,3,6) s0(1) by (intro that [of s0 s xs]) (simp_all add: envid2env_def)
  qed simp
qed

theorem sys_page_map_correct_witness:
  "\<exists>s0 s s'. env_alloc kinit 0 = Some (0, Some 0, s0) \<and>
     sys_page_alloc (s0\<lparr>curenv := Some 0\<rparr>) 0 0x800000 7 = Some (0, s) \<and>
     sys_page_map s 0 0x800000 0 0x801000 5 = Some (0, s') \<and> va_pte s' 3 0x801000 = page2pa 4 OR 5 OR PTE_P"
proof -
  obtain s0 s xs where s: "env_alloc kinit 0 = Some (0, Some 0, s0)"
    "sys_page_alloc (s0\<lparr>curenv := Some 0\<rparr>) 0 0x800000 7 = Some (0, s)"
    "kinv s xs [1..<NENV] init_pend" "0 \<in> live s" "curenv s = Some 0" "dir_of s 0 = 3" "no_wrap_refs s"
    "mapped s (env_dirs s) (3, PDX 0x800000, PTX 0x800000) = Some 4" "writable s 3 0x800000"
    "envid2env s 0 True = Some (0, Some 0)"
    by (rule kinit_page)
  have h: "within_syscall 5" "user_page 0x800000" "user_page 0x801000" "perm_ok 5" "(5 :: u32) AND PTE_W = 0"
    by (simp_all add: within_syscall_def user_page_def perm_ok_def PGOFF_def layout_defs pte_flag_defs)
  have "PDX 0x801000 = PDX 0x800000" by (simp add: PDX_def)
  then have "tabs s (env_dirs s) (3, PDX 0x801000) \<noteq> None"
    using s(8) by (simp add: mapped_def split: if_splits)
  then show ?thesis
    using sys_page_map_correct [OF s(3,5,4) h(1) s(7), of 0 "0x800000" 0 "0x801000"] s h by auto
qed

subsection \<open>Permission words with address bits\<close>

lemma page_insert_any_perm:
  assumes inv: "pt_inv s Ds xs pend" and t: "tabs s Ds (d, PDX va) = Some t" and m: "mapped s Ds (d, PDX va, PTX va) = None"
    and d: "d \<in> Ds" "user_va va"
  obtains s' where "page_insert s (dir_kva d) p va perm = Some (0, s')"
    "mem s' = (mem s)(entry (page2pa t) (PTX va) := page2pa p OR perm OR PTE_P, entry (page2pa d) (PDX va) := pde_at s d (PDX va) OR perm)"
    "entry (page2pa t) (PTX va) \<noteq> entry (page2pa d) (PDX va)"
proof -
  note D = pt_invD [OF inv]
  let ?a = "entry (page2pa t) (PTX va)" and ?b = "entry (page2pa d) (PDX va)"
  define s1 where "s1 = upd_page s p (\<lambda>q. q\<lparr>pp_ref := pp_ref q + 1\<rparr>)"
  define s2 where "s2 = kstore s1 (?a + KERNBASE) (page2pa p OR perm OR PTE_P)"
  define s3 where "s3 = kstore s2 (?b + KERNBASE) (kload s2 (?b + KERNBASE) OR perm)"
  have "t \<in> ran (tabs s Ds)" using t by (rule ranI)
  then have n: "t < 1048576" "d < 1048576" "t \<noteq> d"
    using D(4) D(6) [OF d(1)] D(7) [OF t] d(1) D(2) unfolding ref_inv_def by auto
  then have ab: "?a \<noteq> ?b"
    using PGNUM_entry [of t "PTX va"] PGNUM_entry [of d "PDX va"] PTX_less [of va] d(2) by (auto simp: user_va_PDX)
  have "\<not> present (pte_at s d (PDX va) (PTX va))"
    using m t PTX_less [of va] by (auto simp: mapped_def split: if_splits)
  then have np: "mem s ?a AND PTE_P = 0"
    by (simp add: pte_at_table [OF t] present_def)
  have "page_insert s (dir_kva d) p va perm = Some (0, s3)"
    using np by (simp add: page_insert_def pgdir_walk_present [OF inv t] entry_dir_kva Let_def flip: s1_def)
      (simp add: s3_def s2_def)
  moreover have "mem s3 = (mem s)(?a := page2pa p OR perm OR PTE_P, ?b := pde_at s d (PDX va) OR perm)"
    using ab by (simp add: s3_def s2_def s1_def kstore_mem pde_at_def)
  ultimately show thesis using ab by (rule that)
qed

text \<open>
  C27. The permission argument of \<open>sys_page_map\<close> is not confined to permission bits, although the comments require
  it to lie within \<open>PTE_SYSCALL\<close>: for an unmapped destination whose page table exists, the call succeeds whatever the
  upper twenty bits of \<open>perm\<close> are, and both the new entry and the page-directory entry have them or-ed into their
  frame number. With such a call an environment replaces its page table by a frame of its choice.
\<close>

theorem sys_page_map_address_bits:
  assumes "kinv s xs fs pend" and "envid2env s srcenvid True = Some (0, Some se)" "se \<in> live s"
    and "envid2env s dstenvid True = Some (0, Some de)" "de \<in> live s"
    and "user_page srcva" "user_page dstva" "perm_ok perm" "perm AND PTE_W = 0 \<or> writable s (dir_of s se) srcva"
    and "mapped s (env_dirs s) (dir_of s se, PDX srcva, PTX srcva) = Some p"
    and "tabs s (env_dirs s) (dir_of s de, PDX dstva) = Some t"
    and "mapped s (env_dirs s) (dir_of s de, PDX dstva, PTX dstva) = None"
  shows "\<exists>s'. sys_page_map s srcenvid srcva dstenvid dstva perm = Some (0, s') \<and>
     PTE_ADDR (pde_at s' (dir_of s de) (PDX dstva)) = page2pa t OR PTE_ADDR perm \<and>
     PTE_ADDR (mem s' (entry (page2pa t) (PTX dstva))) = page2pa p OR PTE_ADDR perm"
proof -
  note K = kinvD [OF assms(1)]
  obtain s' where s': "page_insert s (dir_kva (dir_of s de)) p dstva perm = Some (0, s')"
    "mem s' = (mem s)(entry (page2pa t) (PTX dstva) := page2pa p OR perm OR PTE_P,
       entry (page2pa (dir_of s de)) (PDX dstva) := pde_at s (dir_of s de) (PDX dstva) OR perm)"
    "entry (page2pa t) (PTX dstva) \<noteq> entry (page2pa (dir_of s de)) (PDX dstva)"
    by (rule page_insert_any_perm [OF K(2) assms(11,12) K(6) [OF assms(5)] user_page_va [OF assms(7)]])
  have "sys_page_map s srcenvid srcva dstenvid dstva perm = Some (0, s')"
    using sys_page_map_eq [OF assms(1-4), of srcva dstva perm] s'(1) assms(6-10) K(5) [OF assms(5)] by auto
  moreover have "PTE_ADDR (pde_at s' (dir_of s de) (PDX dstva)) = page2pa t OR PTE_ADDR perm"
    using table_page [OF assms(11)] by (simp add: pde_at_def s'(2) PTE_ADDR_or)
  moreover have "PTE_ADDR (mem s' (entry (page2pa t) (PTX dstva))) = page2pa p OR PTE_ADDR perm"
    using s'(2,3) by (simp add: PTE_ADDR_or)
  ultimately show ?thesis by blast
qed

theorem sys_page_map_address_bits_witness:
  "\<exists>s0 s s'. env_alloc kinit 0 = Some (0, Some 0, s0) \<and>
     sys_page_alloc (s0\<lparr>curenv := Some 0\<rparr>) 0 0x800000 7 = Some (0, s) \<and>
     sys_page_map s 0 0x800000 0 0x801000 0xFFFFF005 = Some (0, s') \<and>
     PTE_ADDR (pde_at s' 3 (PDX 0x801000)) = 0xFFFFF000"
proof -
  obtain s0 s xs where s: "env_alloc kinit 0 = Some (0, Some 0, s0)"
    "sys_page_alloc (s0\<lparr>curenv := Some 0\<rparr>) 0 0x800000 7 = Some (0, s)"
    "kinv s xs [1..<NENV] init_pend" "0 \<in> live s" "curenv s = Some 0" "dir_of s 0 = 3" "writable s 3 0x800000"
    "envid2env s 0 True = Some (0, Some 0)" "mapped s (env_dirs s) = [(3, PDX 0x800000, PTX 0x800000) \<mapsto> 4]"
    by (rule kinit_page)
  have h: "PTE_ADDR 0xFFFFF005 = 0xFFFFF000" "user_page 0x800000" "user_page 0x801000" "perm_ok 0xFFFFF005"
    "(0xFFFFF005 :: u32) AND PTE_W = 0" "PDX 0x801000 = PDX 0x800000" "PTX 0x801000 \<noteq> PTX 0x800000"
    by (simp_all add: PTE_ADDR_def user_page_def perm_ok_def PGOFF_def PDX_def PTX_def layout_defs pte_flag_defs)
  have m: "mapped s (env_dirs s) (dir_of s 0, PDX 0x800000, PTX 0x800000) = Some 4"
    "mapped s (env_dirs s) (dir_of s 0, PDX 0x801000, PTX 0x801000) = None"
    using h(6,7) s(6) by (simp_all add: s(9))
  then obtain t where "tabs s (env_dirs s) (dir_of s 0, PDX 0x801000) = Some t"
    using h(6) by (auto simp: mapped_def split: if_splits)
  moreover have "NOT 0xFFF = (0xFFFFF000 :: u32)" by simp
  then have "PTE_ADDR (page2pa t) OR 0xFFFFF000 = 0xFFFFF000"
    unfolding PTE_ADDR_def by (simp only: or.commute or.left_commute) (rule bit_word_eqI, auto simp: bit_simps)
  ultimately show ?thesis
    using sys_page_map_address_bits [OF s(3) s(8,4) s(8,4) h(2-4) disjI1 [OF h(5)] m(1) _ m(2)] s(1,2,6) h(1) by auto
qed

subsection \<open>Printing a string\<close>

text \<open>The first \<open>n\<close> bytes at \<open>p\<close> can be read and none of them is the terminator.\<close>

definition chars_at :: "kern \<Rightarrow> u32 \<Rightarrow> nat \<Rightarrow> bool" where
  "chars_at s p n \<longleftrightarrow> (\<forall>k < n. read_byte s (p + of_nat k) \<noteq> None \<and> read_byte s (p + of_nat k) \<noteq> Some 0)"

definition string_bytes :: "kern \<Rightarrow> u32 \<Rightarrow> nat \<Rightarrow> u8 list" where
  "string_bytes s p n = map (\<lambda>k. the (read_byte s (p + of_nat k))) [0..<n]"

lemma print_chars_bytes:
  assumes "chars_at s p n" "precision < 0 \<or> int n \<le> precision"
  shows "print_chars s p precision out =
     print_chars s (p + of_nat n) (if precision < 0 then precision else precision - int n) (out @ string_bytes s p n)"
  using assms
proof (induction n)
  case 0
  then show ?case by (simp add: string_bytes_def)
next
  case (Suc n)
  obtain ch where ch: "read_byte s (p + of_nat n) = Some ch" "ch \<noteq> 0"
    using Suc.prems(1) by (auto simp: chars_at_def)
  have "print_chars s p precision out =
     print_chars s (p + of_nat n) (if precision < 0 then precision else precision - int n) (out @ string_bytes s p n)"
    using Suc.prems by (intro Suc.IH) (auto simp: chars_at_def)
  also have "\<dots> = print_chars s (p + of_nat n + 1) (if precision < 0 then precision else precision - int n - 1)
      (out @ string_bytes s p n @ [ch])"
    using ch Suc.prems(2) by (subst print_chars.simps) auto
  also have "\<dots> = print_chars s (p + of_nat (Suc n)) (if precision < 0 then precision else precision - int (Suc n))
      (out @ string_bytes s p (Suc n))"
    using ch by (simp add: string_bytes_def algebra_simps)
  finally show ?case .
qed

text \<open>Where the string ends: at a terminator, or where the precision is used up, with one more byte to read.\<close>

definition text_at :: "kern \<Rightarrow> u32 \<Rightarrow> int \<Rightarrow> nat \<Rightarrow> bool" where
  "text_at s p precision n \<longleftrightarrow> chars_at s p n \<and> (precision < 0 \<or> int n \<le> precision) \<and>
     (read_byte s (p + of_nat n) = Some 0 \<or> int n = precision \<and> read_byte s (p + of_nat n) \<noteq> None)"

lemma print_chars_text:
  assumes "text_at s p precision n"
  shows "print_chars s p precision [] = Some (string_bytes s p n)"
proof -
  have "print_chars s p precision [] =
     print_chars s (p + of_nat n) (if precision < 0 then precision else precision - int n) (string_bytes s p n)"
    using print_chars_bytes [of s p n precision "[]"] assms by (simp add: text_at_def)
  also have "\<dots> = Some (string_bytes s p n)"
    using assms by (subst print_chars.simps) (auto simp: text_at_def)
  finally show ?thesis .
qed

lemma hw_pte_va_pte: "cr3 s = page2pa d \<Longrightarrow> hw_pte s va = va_pte s d va"
  by (simp add: hw_pte_def va_pte_def pde_at_def pte_at_def Let_def)

lemma unmapped_pte: "d \<in> Ds \<Longrightarrow> user_va va \<Longrightarrow> mapped s Ds (d, PDX va, PTX va) = None \<Longrightarrow> \<not> present (va_pte s d va)"
  using PTX_less [of va] by (auto simp: va_pte_def mapped_def tabs_def user_va_PDX UPDES split: if_splits)

lemma sys_cputs_checked:
  assumes "curenv s = Some c" "user_mem_check s c str len PTE_U = Some (0, s)"
  shows "sys_cputs s str len = map_option (\<lambda>printed. Returns printed s) (cprintf_string s (sint len) str)"
  using assms by (cases "cprintf_string s (sint len) str") (simp_all add: sys_cputs_def user_mem_assert_def)

text \<open>
  C23. \<open>sys_cputs\<close> checks the bytes it is given and reads one more: when \<open>user_mem_check\<close> accepts the range, no byte
  of it is the terminator and the byte behind it is not mapped, the kernel takes a page fault and panics. The witness
  is the call of an environment with an unmapped, page-aligned address and length 0, for which nothing is checked.
\<close>

theorem sys_cputs_overreads:
  assumes "curenv s = Some c" "user_mem_check s c str len PTE_U = Some (0, s)" "str \<noteq> 0" "0 \<le> sint len"
    and "chars_at s str (unat len)" "read_byte s (str + len) = None"
  shows "sys_cputs s str len = None"
proof -
  have l: "sint len = int (unat len)"
    using assms(4) unat_less_32 [of len] unfolding sint_u32 by (simp split: if_splits)
  have "print_chars s str (sint len) [] = print_chars s (str + len) 0 (string_bytes s str (unat len))"
    using print_chars_bytes [OF assms(5), of "sint len" "[]"] by (simp add: l)
  also have "\<dots> = None"
    using assms(6) by (subst print_chars.simps) simp
  finally show ?thesis
    using sys_cputs_checked [OF assms(1,2)] assms(3) by (simp add: cprintf_string_def)
qed

theorem sys_cputs_overreads_witness:
  "\<exists>s0 s. env_alloc kinit 0 = Some (0, Some 0, s0) \<and> s = s0\<lparr>curenv := Some 0, cr3 := page2pa 3\<rparr> \<and>
     env_pgdir (envs s ! 0) = cr3 s + KERNBASE \<and> sys_cputs s 0x800000 0 = None"
proof -
  obtain s0 where s0: "env_alloc kinit 0 = Some (0, Some 0, s0)" "kinv s0 [4, 5, 6, 7] [1..<NENV] init_pend" "live s0 = {0}"
    "dir_of s0 0 = 3" "env_dirs s0 = {3}" "mapped s0 {3} = Map.empty" "npages s0 = 8"
    by (rule kinit_alloc)
  let ?s = "s0\<lparr>curenv := Some 0, cr3 := page2pa 3\<rparr>"
  have "env_frame s0 ?s" by (simp add: env_frame_def)
  note F = kinv_env_frame [OF s0(2) this]
  have va: "user_va 0x800000" "PGOFF 0x800000 = 0" by (simp_all add: user_va_def PGOFF_def layout_defs)
  have "\<not> present (va_pte ?s 3 0x800000)"
    using s0(6) va(1) by (intro unmapped_pte [of _ "{3}"]) (simp_all add: F(5))
  then have r: "read_byte ?s (0x800000 + 0) = None"
    using hw_pte_va_pte [of ?s 3 "0x800000"] by (simp add: read_byte_def Let_def)
  have c: "user_mem_check ?s 0 0x800000 0 PTE_U = Some (0, ?s)"
    unfolding user_mem_check_def by (subst user_mem_loop.simps) (simp add: ROUNDUP_def ROUNDDOWN_def PGSIZE_def)
  have "env_pgdir (envs s0 ! 0) = dir_kva 3"
    using kinvD(5) [OF s0(2)] s0(3,4) by simp
  moreover have "sys_cputs ?s 0x800000 0 = None"
    by (rule sys_cputs_overreads [OF _ c _ _ _ r]) (simp_all add: chars_at_def)
  ultimately show ?thesis
    using s0(1) by (intro exI [of _ s0] exI [of _ ?s]) simp
qed

end
