(* ===== verification/JosIpc.thy ===== *)
theory JosIpc
  imports JosSyscall
begin

text \<open>
  Message passing between environments, \<open>sys_exofork\<close>, and the theorem that no system call breaks the kernel
  invariant.
\<close>

subsection \<open>Sending\<close>

lemma ipc_transfer_eq:
  assumes inv: "kinv s xs fs pend" and c: "c \<in> live s" and va: "srcva < UTOP"
    and m: "mapped s (env_dirs s) (dir_of s c, PDX srcva, PTX srcva) = Some p"
  shows "ipc_transfer s c r srcva perm =
     (if PGOFF srcva \<noteq> 0 \<or> va_pte s (dir_of s c) srcva AND perm AND 7 \<noteq> perm AND 7 \<or>
         perm AND PTE_W \<noteq> 0 \<and> \<not> writable s (dir_of s c) srcva then Some (- E_INVAL, s)
      else if env_ipc_dstva (envs s ! r) < UTOP
      then do {
        (ret, s) \<leftarrow> page_insert s (env_pgdir (envs s ! r)) p (env_ipc_dstva (envs s ! r)) perm;
        if ret \<noteq> 0 then Some (ret, s) else Some (0, upd_env s r (\<lambda>v. v\<lparr>env_ipc_perm := perm\<rparr>))
      }
      else Some (0, s))"
proof -
  have "srcva \<noteq> ROUNDDOWN srcva PGSIZE \<longleftrightarrow> PGOFF srcva \<noteq> 0"
    using va user_page_iff [of srcva] by (auto simp: user_page_def)
  moreover have "user_va srcva" using va by (simp add: user_va_def)
  note L = page_lookup_mapped [OF kinvD(2) [OF inv] kinvD(6) [OF inv c] this]
  ultimately show ?thesis
    using kinvD(5) [OF inv c] by (simp add: ipc_transfer_def L m mapped_pte [OF m] writable_def)
qed

text \<open>
  The cases without a page: an unaligned address is rejected; for an aligned one that is not mapped the code reads
  through a pointer that was never set.
\<close>

lemma ipc_transfer_unmapped:
  assumes inv: "kinv s xs fs pend" and c: "c \<in> live s" and va: "srcva < UTOP"
    and m: "mapped s (env_dirs s) (dir_of s c, PDX srcva, PTX srcva) = None"
  shows "ipc_transfer s c r srcva perm = (if PGOFF srcva \<noteq> 0 then Some (- E_INVAL, s) else None)"
proof -
  have "srcva \<noteq> ROUNDDOWN srcva PGSIZE \<longleftrightarrow> PGOFF srcva \<noteq> 0"
    using va user_page_iff [of srcva] by (auto simp: user_page_def)
  moreover have "user_va srcva" using va by (simp add: user_va_def)
  note L = page_lookup_mapped [OF kinvD(2) [OF inv] kinvD(6) [OF inv c] this]
  ultimately show ?thesis
    using kinvD(5) [OF inv c] by (simp add: ipc_transfer_def L m)
qed

text \<open>What the receiver sees of a message: its fields, and the page if one was sent and wanted.\<close>

definition delivered :: "kern \<Rightarrow> nat \<Rightarrow> nat \<Rightarrow> u32 \<Rightarrow> kern \<Rightarrow> bool" where
  "delivered s c r val s' \<longleftrightarrow>
     \<not> env_ipc_recving (envs s' ! r) \<and> env_ipc_from (envs s' ! r) = env_id (envs s ! c) \<and>
     env_ipc_value (envs s' ! r) = val \<and> env_status (envs s' ! r) = ENV_RUNNABLE \<and>
     reg_eax (tf_regs (env_tf (envs s' ! r))) = 0 \<and> (\<forall>i. i \<noteq> r \<longrightarrow> envs s' ! i = envs s ! i)"

definition page_sent :: "kern \<Rightarrow> nat \<Rightarrow> nat \<Rightarrow> u32 \<Rightarrow> u32 \<Rightarrow> kern \<Rightarrow> bool" where
  "page_sent s c r srcva perm s' \<longleftrightarrow>
     (let dstva = env_ipc_dstva (envs s ! r); d = dir_of s r in
      \<exists>p. mapped s (env_dirs s) (dir_of s c, PDX srcva, PTX srcva) = Some p \<and>
        mapped s' (env_dirs s) = (mapped s (env_dirs s))((d, PDX dstva, PTX dstva) \<mapsto> p) \<and>
        va_pte s' d dstva = page2pa p OR perm OR PTE_P \<and> only_page s d dstva s' \<and> env_ipc_perm (envs s' ! r) = perm)"

lemma deliver_frame:
  assumes "kinv s xs fs pend" "r \<in> live s"
  shows "env_frame s (deliver s c r val)" "delivered s c r val (deliver s c r val)"
    "env_ipc_perm (envs (deliver s c r val) ! r) = env_ipc_perm (envs s ! r)" "curenv (deliver s c r val) = curenv s"
proof -
  have r: "r < length (envs s)" using kinvD(9,10) [OF assms(1)] assms(2) by simp
  show "env_frame s (deliver s c r val)"
    unfolding deliver_def by (rule env_frame_upd) (use assms(2) in \<open>simp add: live_def\<close>)
  show "delivered s c r val (deliver s c r val)"
    "env_ipc_perm (envs (deliver s c r val) ! r) = env_ipc_perm (envs s ! r)" "curenv (deliver s c r val) = curenv s"
    using r by (simp_all add: delivered_def deliver_def upd_env_def)
qed

lemma sys_ipc_try_send_eq:
  assumes "envid2env s envid False = Some (0, Some r)" "curenv s = Some c"
  shows "sys_ipc_try_send s envid val srcva perm =
     (if \<not> env_ipc_recving (envs s ! r) then Some (- E_IPC_NOT_RECV, s)
      else do {
        (ret, s) \<leftarrow> (if srcva < UTOP then ipc_transfer s c r srcva perm else Some (0, s));
        if ret \<noteq> 0 then Some (ret, s) else Some (0, deliver s c r val)
      })"
  using assms by (simp add: sys_ipc_try_send_def)

text \<open>When a message to a waiting receiver can be sent.\<close>

definition send_ok :: "kern \<Rightarrow> nat list \<Rightarrow> nat \<Rightarrow> nat \<Rightarrow> u32 \<Rightarrow> u32 \<Rightarrow> bool" where
  "send_ok s xs c r srcva perm \<longleftrightarrow> srcva \<ge> UTOP \<or>
     PGOFF srcva = 0 \<and> va_pte s (dir_of s c) srcva AND perm AND 7 = perm AND 7 \<and>
     (perm AND PTE_W = 0 \<or> writable s (dir_of s c) srcva) \<and>
     (env_ipc_dstva (envs s ! r) < UTOP \<longrightarrow>
        \<not> (xs = [] \<and> tabs s (env_dirs s) (dir_of s r, PDX (env_ipc_dstva (envs s ! r))) = None))"

text \<open>No page, an unaligned address, or a mapped page.\<close>

definition pagewise :: "kern \<Rightarrow> nat \<Rightarrow> u32 \<Rightarrow> bool" where
  "pagewise s c srcva \<longleftrightarrow> srcva \<ge> UTOP \<or> PGOFF srcva \<noteq> 0 \<or>
     mapped s (env_dirs s) (dir_of s c, PDX srcva, PTX srcva) \<noteq> None"

lemma ipc_transfer_cases [consumes 7, case_names error nopage page]:
  assumes inv: "kinv s xs fs pend" and c: "c \<in> live s" and r: "r \<in> live s" and va: "srcva < UTOP"
    and nw: "no_wrap_refs s" and perm: "PTE_ADDR perm = 0" and pg: "pagewise s c srcva"
  obtains (error) ret where "ipc_transfer s c r srcva perm = Some (ret, s)" "ret = - E_INVAL \<or> ret = - E_NO_MEM"
      "\<not> send_ok s xs c r srcva perm"
  | (nopage) "ipc_transfer s c r srcva perm = Some (0, s)" "\<not> env_ipc_dstva (envs s ! r) < UTOP" "send_ok s xs c r srcva perm"
  | (page) s' xs' where "ipc_transfer s c r srcva perm = Some (0, upd_env s' r (\<lambda>v. v\<lparr>env_ipc_perm := perm\<rparr>))"
      "kinv s' xs' fs pend" "kframe s s'" "env_ipc_dstva (envs s ! r) < UTOP"
      "page_sent s c r srcva perm (upd_env s' r (\<lambda>v. v\<lparr>env_ipc_perm := perm\<rparr>))" "send_ok s xs c r srcva perm"
proof (cases "mapped s (env_dirs s) (dir_of s c, PDX srcva, PTX srcva)")
  case None
  with pg va have "PGOFF srcva \<noteq> 0" by (auto simp: pagewise_def)
  then show thesis
    using ipc_transfer_unmapped [OF inv c va None, of r perm] va by (intro error [of "- E_INVAL"]) (simp_all add: send_ok_def)
next
  case p: (Some p)
  note eq = ipc_transfer_eq [OF inv c va p, of r perm]
  let ?bad = "PGOFF srcva \<noteq> 0 \<or> va_pte s (dir_of s c) srcva AND perm AND 7 \<noteq> perm AND 7 \<or>
         perm AND PTE_W \<noteq> 0 \<and> \<not> writable s (dir_of s c) srcva"
  let ?dst = "env_ipc_dstva (envs s ! r)"
  show thesis
  proof (cases ?bad)
    case True
    then have "\<not> send_ok s xs c r srcva perm" using \<open>srcva < UTOP\<close> by (auto simp: send_ok_def)
    with eq [unfolded if_P [OF True]] show thesis by (intro error [of "- E_INVAL"]) simp_all
  next
    case ok: False
    note eq = eq [unfolded if_not_P [OF ok]]
    show thesis
    proof (cases "?dst < UTOP")
      case False
      with ok have "send_ok s xs c r srcva perm" by (auto simp: send_ok_def)
      with False eq show thesis by (intro nopage) simp_all
    next
      case True
      then have va: "user_va ?dst" by (simp add: user_va_def)
      show thesis
        using inv r va nw p perm
      proof (cases rule: kinv_share_cases)
        case full
        have "\<not> send_ok s xs c r srcva perm" using \<open>srcva < UTOP\<close> True full(1,2) by (auto simp: send_ok_def)
        with True full eq show thesis by (intro error [of "- E_NO_MEM"]) (simp_all add: E_NO_MEM_def)
      next
        case (mapped s' xs')
        let ?s = "upd_env s' r (\<lambda>v. v\<lparr>env_ipc_perm := perm\<rparr>)"
        have rl: "r < length (envs s')" using kinvD(9,10) [OF inv] r kframe_env(1) [OF mapped(4)] by simp
        have "env_frame s' ?s" by (rule env_frame_upd) simp
        note F = kinv_env_frame(5,6) [OF mapped(3) this]
        have "page_sent s c r srcva perm ?s"
          unfolding page_sent_def Let_def
          using p mapped(5-7) rl by (intro exI [of _ p]) (simp add: F only_page_def upd_env_nth)
        moreover have "send_ok s xs c r srcva perm" using ok mapped(1) by (auto simp: send_ok_def)
        ultimately show thesis
          by (intro page [of s' xs']) (use True mapped eq in simp_all)
      qed
    qed
  qed
qed

lemma deliver_post:
  assumes inv: "kinv s xs fs pend" and r: "r \<in> live s"
    and s1: "kinv s1 xs1 fs pend" "kframe s s0" "s1 = upd_env s0 r (\<lambda>v. v\<lparr>env_ipc_perm := perm\<rparr>) \<or> s1 = s0"
  shows "kinv (deliver s1 c r val) xs1 fs pend" "delivered s c r val (deliver s1 c r val)"
    "curenv (deliver s1 c r val) = curenv s" "live (deliver s1 c r val) = live s"
    "page_sent s c r srcva perm s1 \<Longrightarrow> page_sent s c r srcva perm (deliver s1 c r val)"
    "mapped (deliver s1 c r val) = mapped s1"
proof -
  note E = kframe_env [OF s1(2)]
  have e0: "env_frame s0 s1" using s1(3) env_frame_upd [of r s0 "\<lambda>v. v\<lparr>env_ipc_perm := perm\<rparr>"] by auto
  have rl: "r < length (envs s0)" using kinvD(9,10) [OF inv] r E(1) by simp
  have c1: "curenv s1 = curenv s" "env_id (envs s1 ! c) = env_id (envs s ! c)" "\<forall>i. i \<noteq> r \<longrightarrow> envs s1 ! i = envs s ! i"
    using s1(3) s1(2) rl E(1) by (auto simp: kframe_def upd_env_nth)
  have live: "live s1 = live s"
    using e0 E(1,2) rl kinvD(9) [OF inv] unfolding env_frame_def live_def by auto
  note D = deliver_frame [OF s1(1), of r c val]
  have r1: "r \<in> live s1" using r live by simp
  note F = kinv_env_frame [OF s1(1) D(1) [OF r1]]
  show "kinv (deliver s1 c r val) xs1 fs pend" "live (deliver s1 c r val) = live s" "mapped (deliver s1 c r val) = mapped s1"
    using F live by simp_all
  show "curenv (deliver s1 c r val) = curenv s" "delivered s c r val (deliver s1 c r val)"
    using D(2,4) [OF r1] c1 by (simp_all add: delivered_def)
  show "page_sent s c r srcva perm (deliver s1 c r val)" if "page_sent s c r srcva perm s1"
    using that D(3) [OF r1] by (simp add: page_sent_def Let_def F(5,6) only_page_def)
qed

lemma sys_ipc_try_send_spec:
  assumes inv: "kinv s xs fs pend" and c: "curenv s = Some c" "c \<in> live s"
    and perm: "srcva < UTOP \<Longrightarrow> PTE_ADDR perm = 0" and nw: "srcva < UTOP \<Longrightarrow> no_wrap_refs s" and pg: "pagewise s c srcva"
  shows "\<exists>ret s' xs'. sys_ipc_try_send s envid val srcva perm = Some (ret, s') \<and> kinv s' xs' fs pend \<and> live s' = live s \<and>
     curenv s' = curenv s \<and> (ret \<noteq> 0 \<longrightarrow> s' = s) \<and>
     (\<forall>r. envid2env s envid False = Some (0, Some r) \<and> \<not> env_ipc_recving (envs s ! r) \<longrightarrow> ret = - E_IPC_NOT_RECV) \<and>
     (\<forall>r. envid2env s envid False = Some (0, Some r) \<and> env_ipc_recving (envs s ! r) \<longrightarrow>
        (ret = 0 \<longleftrightarrow> send_ok s xs c r srcva perm)) \<and>
     (ret = 0 \<longrightarrow> (\<exists>r. r \<in> live s \<and> envid2env s envid False = Some (0, Some r) \<and> env_ipc_recving (envs s ! r) \<and>
        delivered s c r val s' \<and>
        (if srcva < UTOP \<and> env_ipc_dstva (envs s ! r) < UTOP then page_sent s c r srcva perm s' else mapped s' = mapped s)))"
  using inv c
proof (cases rule: envid2env_result [of _ _ _ _ _ envid False])
  case bad
  then have "sys_ipc_try_send s envid val srcva perm = Some (- E_BAD_ENV, s)"
    by (simp add: sys_ipc_try_send_def E_BAD_ENV_def)
  then show ?thesis
    using bad inv by (intro exI [of _ "- E_BAD_ENV"] exI [of _ s] exI [of _ xs]) (simp add: E_BAD_ENV_def)
next
  case (good r)
  note eq = sys_ipc_try_send_eq [OF good(1) c(1)]
  show ?thesis
  proof (cases "env_ipc_recving (envs s ! r)")
    case False
    then show ?thesis
      using eq good inv by (intro exI [of _ "- E_IPC_NOT_RECV"] exI [of _ s] exI [of _ xs]) (simp add: E_IPC_NOT_RECV_def)
  next
    case rec: True
    show ?thesis
    proof (cases "srcva < UTOP")
      case False
      then have "sys_ipc_try_send s envid val srcva perm = Some (0, deliver s c r val)"
        using eq rec by simp
      then show ?thesis
        using False good rec deliver_post(1-4,6) [OF inv good(2) inv kframe_refl disjI2 [OF refl], of c val]
        by (intro exI [of _ 0] exI [of _ "deliver s c r val"] exI [of _ xs]) (simp add: send_ok_def flip: not_less)
    next
      case True
      show ?thesis
        using inv c(2) good(2) True nw [OF True] perm [OF True] pg
      proof (cases rule: ipc_transfer_cases)
        case (error ret)
        then have "sys_ipc_try_send s envid val srcva perm = Some (ret, s)" "ret \<noteq> 0"
          using eq rec True by (auto simp: E_INVAL_def E_NO_MEM_def)
        then show ?thesis
          using error(3) good rec inv by (intro exI [of _ ret] exI [of _ s] exI [of _ xs]) simp
      next
        case nopage
        then have "sys_ipc_try_send s envid val srcva perm = Some (0, deliver s c r val)"
          using eq rec True by simp
        then show ?thesis
          using nopage good rec deliver_post(1-4,6) [OF inv good(2) inv kframe_refl disjI2 [OF refl], of c val]
          by (intro exI [of _ 0] exI [of _ "deliver s c r val"] exI [of _ xs]) simp
      next
        case (page s0 xs0)
        let ?s = "upd_env s0 r (\<lambda>v. v\<lparr>env_ipc_perm := perm\<rparr>)"
        have "env_frame s0 ?s" by (rule env_frame_upd) simp
        note P = deliver_post [OF inv good(2) kinv_env_frame(1) [OF page(2) this] page(3) disjI1 [OF refl]]
        have "sys_ipc_try_send s envid val srcva perm = Some (0, deliver ?s c r val)"
          using eq rec True page(1) by simp
        then show ?thesis
          using True page(4,6) good rec P(1-4) P(5) [OF page(5)]
          by (intro exI [of _ 0] exI [of _ "deliver ?s c r val"] exI [of _ xs0]) simp
      qed
    qed
  qed
qed

lemma sys_ipc_try_send_unmapped:
  assumes "kinv s xs fs pend" and "curenv s = Some c" "c \<in> live s" and "\<not> pagewise s c srcva"
    and "envid2env s envid False = Some (0, Some r)" "env_ipc_recving (envs s ! r)"
  shows "sys_ipc_try_send s envid val srcva perm = None"
proof -
  have "srcva < UTOP" "PGOFF srcva = 0" "mapped s (env_dirs s) (dir_of s c, PDX srcva, PTX srcva) = None"
    using assms(4) by (auto simp: pagewise_def)
  then show ?thesis
    using assms(6) ipc_transfer_unmapped [OF assms(1,3), of srcva r perm] by (simp add: sys_ipc_try_send_eq [OF assms(5,2)])
qed

lemma sys_ipc_try_send_early:
  assumes "kinv s xs fs pend" and "curenv s = Some c" "c \<in> live s"
    and "\<not> (\<exists>r. envid2env s envid False = Some (0, Some r) \<and> env_ipc_recving (envs s ! r))"
  shows "\<exists>ret. sys_ipc_try_send s envid val srcva perm = Some (ret, s) \<and>
     ret = (if envid2env s envid False = Some (- E_BAD_ENV, None) then - E_BAD_ENV else - E_IPC_NOT_RECV)"
  using assms(1-3)
proof (cases rule: envid2env_result [of _ _ _ _ _ envid False])
  case bad
  then show ?thesis by (simp add: sys_ipc_try_send_def E_BAD_ENV_def)
next
  case (good r)
  then show ?thesis using assms(4) by (simp add: sys_ipc_try_send_eq [OF good(1) assms(2)])
qed

text \<open>
  C8. \<open>sys_ipc_try_send\<close> by a live caller. Conditions: when a page is sent, the permission word has \<open>PTE_U|PTE_P\<close> and
  no bit outside \<open>PTE_SYSCALL\<close> (the code does not check the former and ignores the latter, against its comment) and
  the 16-bit reference counts are below their limit. To a waiting receiver, with a page-aligned source address that is
  not mapped, the behaviour of the code is undefined, where the comment promises \<open>-E_INVAL\<close>: it reads through a
  pointer \<open>page_lookup\<close> did not set. In every other case the call returns; an error changes nothing, and sending to an
  environment that is not waiting is such an error. It succeeds exactly when the page may be sent and mapped; then the
  receiver was waiting, gets the value, the caller's identifier, a result of 0 and the state runnable, is no longer
  waiting, and no other environment changes; if both sides want a page, the receiver's address maps the page of the
  sender with the given permission and no other user page changes; otherwise no mapping changes.
\<close>

theorem sys_ipc_try_send_correct:
  assumes "kinv s xs fs pend" and "curenv s = Some c" "c \<in> live s"
    and "srcva < UTOP \<Longrightarrow> perm_ok perm \<and> within_syscall perm \<and> no_wrap_refs s"
  shows "if srcva < UTOP \<and> PGOFF srcva = 0 \<and> mapped s (env_dirs s) (dir_of s c, PDX srcva, PTX srcva) = None \<and>
       (\<exists>r. envid2env s envid False = Some (0, Some r) \<and> env_ipc_recving (envs s ! r))
     then sys_ipc_try_send s envid val srcva perm = None
     else \<exists>ret s' xs'. sys_ipc_try_send s envid val srcva perm = Some (ret, s') \<and> kinv s' xs' fs pend \<and> live s' = live s \<and>
       curenv s' = curenv s \<and> (ret \<noteq> 0 \<longrightarrow> s' = s) \<and>
       (\<forall>r. envid2env s envid False = Some (0, Some r) \<and> \<not> env_ipc_recving (envs s ! r) \<longrightarrow> ret = - E_IPC_NOT_RECV) \<and>
       (\<forall>r. envid2env s envid False = Some (0, Some r) \<and> env_ipc_recving (envs s ! r) \<longrightarrow>
          (ret = 0 \<longleftrightarrow> send_ok s xs c r srcva perm)) \<and>
       (ret = 0 \<longrightarrow> (\<exists>r. r \<in> live s \<and> envid2env s envid False = Some (0, Some r) \<and> env_ipc_recving (envs s ! r) \<and>
          delivered s c r val s' \<and>
          (if srcva < UTOP \<and> env_ipc_dstva (envs s ! r) < UTOP then page_sent s c r srcva perm s' else mapped s' = mapped s)))"
    (is "if ?undef then _ else ?post")
proof (cases "pagewise s c srcva")
  case True
  then have n: "\<not> ?undef" by (auto simp: pagewise_def)
  have "?post"
    using assms(4) within_syscall_addr by (intro sys_ipc_try_send_spec [OF assms(1-3) _ _ True]) auto
  with n show ?thesis by (simp only: if_False)
next
  case False
  then have u: "srcva < UTOP \<and> PGOFF srcva = 0 \<and> mapped s (env_dirs s) (dir_of s c, PDX srcva, PTX srcva) = None"
    by (auto simp: pagewise_def)
  show ?thesis
  proof (cases "\<exists>r. envid2env s envid False = Some (0, Some r) \<and> env_ipc_recving (envs s ! r)")
    case True
    then show ?thesis using u sys_ipc_try_send_unmapped [OF assms(1-3) False] by auto
  next
    case no: False
    then have n: "\<not> ?undef" by blast
    obtain ret where r: "sys_ipc_try_send s envid val srcva perm = Some (ret, s)"
      "ret = (if envid2env s envid False = Some (- E_BAD_ENV, None) then - E_BAD_ENV else - E_IPC_NOT_RECV)"
      using sys_ipc_try_send_early [OF assms(1-3) no] by blast
    then have "ret \<noteq> 0" by (simp add: E_BAD_ENV_def E_IPC_NOT_RECV_def)
    with r assms(1) no have "?post"
      by (intro exI [of _ ret] exI [of _ s] exI [of _ xs]) auto
    with n show ?thesis by (simp only: if_False)
  qed
qed

theorem sys_ipc_try_send_correct_witness:
  "\<exists>s0 s s1 s'. env_alloc kinit 0 = Some (0, Some 0, s0) \<and>
     sys_page_alloc (s0\<lparr>curenv := Some 0\<rparr>) 0 0x800000 7 = Some (0, s) \<and>
     s1 = upd_env s 0 (\<lambda>v. v\<lparr>env_ipc_recving := True, env_ipc_dstva := 0x801000\<rparr>) \<and>
     sys_ipc_try_send s1 0 42 0x800000 7 = Some (0, s') \<and> env_ipc_value (envs s' ! 0) = 42 \<and>
     page_sent s1 0 0 0x800000 7 s'"
proof -
  obtain s0 s xs where s: "env_alloc kinit 0 = Some (0, Some 0, s0)"
    "sys_page_alloc (s0\<lparr>curenv := Some 0\<rparr>) 0 0x800000 7 = Some (0, s)"
    "kinv s xs [1..<NENV] init_pend" "0 \<in> live s" "curenv s = Some 0" "dir_of s 0 = 3" "no_wrap_refs s"
    "mapped s (env_dirs s) (3, PDX 0x800000, PTX 0x800000) = Some 4" "va_pte s 3 0x800000 = page2pa 4 OR 7 OR PTE_P"
    by (rule kinit_page)
  define s1 where "s1 = upd_env s 0 (\<lambda>v. v\<lparr>env_ipc_recving := True, env_ipc_dstva := 0x801000\<rparr>)"
  have "env_frame s s1" unfolding s1_def by (rule env_frame_upd) simp
  note F = kinv_env_frame [OF s(3) this]
  have l: "0 < length (envs s)" using kinvD(9) [OF s(3)] by (simp add: NENV_def)
  have d: "dir_of s1 0 = 3" "curenv s1 = Some 0" "0 \<in> live s1" "no_wrap_refs s1" "envid2env s1 0 False = Some (0, Some 0)"
    "env_ipc_recving (envs s1 ! 0)" "env_ipc_dstva (envs s1 ! 0) = 0x801000"
    using F(2,3) s(4-7) l by (simp_all add: s1_def no_wrap_refs_def envid2env_def upd_env_nth)
  have v: "va_pte s1 3 0x800000 AND 7 AND 7 = 7 AND 7" "writable s1 3 0x800000"
    by (simp_all add: F(6) s(9) writable_def page2pa_def pte_flag_defs)
  have h: "perm_ok 7 \<and> within_syscall 7 \<and> no_wrap_refs s1" "PGOFF 0x800000 = 0" "(0x800000 :: u32) < UTOP" "(0x801000 :: u32) < UTOP" "PDX 0x801000 = PDX 0x800000"
    using d(4) by (simp_all add: perm_ok_def within_syscall_def PGOFF_def PDX_def layout_defs pte_flag_defs)
  have m: "mapped s1 (env_dirs s1) (3, PDX 0x800000, PTX 0x800000) = Some 4" using s(8) by (simp add: F(4,5))
  note T = sys_ipc_try_send_correct [OF F(1) d(2,3) h(1), of "0x800000" 0 42]
  from m have "tabs s1 (env_dirs s1) (3, PDX 0x800000) \<noteq> None"
    by (simp add: mapped_def split: if_splits)
  then have "send_ok s1 xs 0 0 0x800000 7"
    using v h by (simp add: send_ok_def d)
  with T d h m s1_def s(1,2) show ?thesis
    by (fastforce simp: delivered_def)
qed

subsection \<open>Creating an environment\<close>

lemma sys_exofork_spec:
  assumes inv: "kinv s xs fs pend" and c: "curenv s = Some c" "c \<in> live s"
  obtains (error) ret where "sys_exofork s = Some (ret, s)" "ret = (if fs = [] then - E_NO_FREE_ENV else - E_NO_MEM)" "fs = [] \<or> xs = []"
  | (child) e s' where "sys_exofork s = Some (sint (env_id (envs s' ! e)), s')" "kinv s' (tl xs) (tl fs) pend" "fs = e # tl fs"
      "xs \<noteq> []" "live s' = insert e (live s)" "e \<notin> live s" "curenv s' = Some c"
      "env_status (envs s' ! e) = ENV_NOT_RUNNABLE" "env_parent_id (envs s' ! e) = env_id (envs s ! c)"
      "env_tf (envs s' ! e) = (env_tf (envs s ! c))\<lparr>tf_regs := (tf_regs (env_tf (envs s ! c)))\<lparr>reg_eax := 0\<rparr>\<rparr>"
      "\<forall>i. i \<noteq> e \<longrightarrow> envs s' ! i = envs s ! i" "mapped s' (env_dirs s') = mapped s (env_dirs s)"
proof (cases "fs = [] \<or> xs = []")
  case True
  then show thesis
    using env_alloc_errors [OF inv, of "env_id (envs s ! c)"] c(1)
    by (intro error [of "if fs = [] then - E_NO_FREE_ENV else - E_NO_MEM"])
      (auto simp: sys_exofork_def E_NO_FREE_ENV_def E_NO_MEM_def)
next
  case False
  then obtain x ys e gs where xf: "xs = x # ys" "fs = e # gs" by (cases xs; cases fs) auto
  obtain s1 where s1: "env_alloc s (env_id (envs s ! c)) = Some (0, Some e, s1)" "kinv s1 ys gs pend" "live s1 = insert e (live s)"
    "e \<notin> live s" "fresh_env s s1 e x (env_id (envs s ! c))" "mapped s1 (env_dirs s1) = mapped s (env_dirs s)"
    "\<forall>i. i \<noteq> e \<longrightarrow> envs s1 ! i = envs s ! i" "curenv s1 = curenv s"
    by (rule env_alloc_spec [OF inv [unfolded xf], of "env_id (envs s ! c)"])
  have el: "e < length (envs s1)" using kinvD(9,10) [OF s1(2)] s1(3) by simp
  have ce: "c \<noteq> e" using c(2) s1(4) by blast
  let ?f = "\<lambda>v. v\<lparr>env_status := ENV_NOT_RUNNABLE, env_tf := (env_tf (envs s ! c))\<lparr>tf_regs := (tf_regs (env_tf (envs s ! c)))\<lparr>reg_eax := 0\<rparr>\<rparr>\<rparr>"
  let ?s = "upd_env s1 e ?f"
  have st: "env_status (envs s1 ! e) \<noteq> ENV_FREE" "env_parent_id (envs s1 ! e) = env_id (envs s ! c)"
    using s1(5) by (simp_all add: fresh_env_def)
  have run: "sys_exofork s = Some (sint (env_id (envs ?s ! e)), ?s)"
    using c(1) s1(1,7) ce el by (simp add: sys_exofork_def upd_env_def)
  have "env_frame s1 ?s"
    by (rule env_frame_upd) (use st in simp)
  note F = kinv_env_frame [OF s1(2) this]
  show thesis
    by (rule child [OF run]) (use xf F s1 st el c(1) in \<open>simp_all add: upd_env_nth\<close>)
qed

text \<open>
  C30. \<open>sys_exofork\<close> by a live caller: with a free slot and a free page it creates a child of the caller whose
  registers are those of the caller, except that its system call returns 0, and which cannot run yet; it returns
  the child's identifier, a positive number that denotes the child. No other environment and no mapping changes. Without a
  free slot or page it returns the error and changes nothing.
\<close>

theorem sys_exofork_correct:
  assumes "kinv s xs fs pend" "curenv s = Some c" "c \<in> live s"
  shows "if fs = [] \<or> xs = [] then sys_exofork s = Some (if fs = [] then - E_NO_FREE_ENV else - E_NO_MEM, s)
     else \<exists>id e s'. sys_exofork s = Some (sint id, s') \<and> 0 < sint id \<and> kinv s' (tl xs) (tl fs) pend \<and>
       live s' = insert e (live s) \<and> e \<notin> live s \<and> envid2env s' id True = Some (0, Some e) \<and>
       env_status (envs s' ! e) = ENV_NOT_RUNNABLE \<and>
       env_tf (envs s' ! e) = (env_tf (envs s ! c))\<lparr>tf_regs := (tf_regs (env_tf (envs s ! c)))\<lparr>reg_eax := 0\<rparr>\<rparr> \<and>
       (\<forall>i. i \<noteq> e \<longrightarrow> envs s' ! i = envs s ! i) \<and> mapped s' (env_dirs s') = mapped s (env_dirs s)"
  using assms
proof (cases rule: sys_exofork_spec)
  case (error ret)
  then show ?thesis by simp
next
  case (child e s')
  have e: "e \<in> live s'" using child(5) by simp
  let ?id = "env_id (envs s' ! e)"
  have id: "0 < sint ?id" "ENVX ?id = e"
    using env_invD(5) [OF kinvD(1) [OF child(2)], of e] e by (auto simp: live_def)
  then have "?id \<noteq> 0" by auto
  moreover have "e \<noteq> c" using child(6) assms(3) by blast
  ultimately have "envid2env s' ?id True = Some (0, Some e)"
    using envid2env_cases [OF kinvD(1) [OF child(2)] child(7), of ?id True] id(2) e child(9,11) by simp
  moreover have "\<not> (fs = [] \<or> xs = [])" using child(3,4) by auto
  ultimately show ?thesis
    using child id(1) by (simp only: if_False) blast
qed

theorem sys_exofork_correct_witness:
  "\<exists>s0 id e s'. env_alloc kinit 0 = Some (0, Some 0, s0) \<and> sys_exofork (s0\<lparr>curenv := Some 0\<rparr>) = Some (sint id, s') \<and>
     0 < sint id \<and> envid2env s' id True = Some (0, Some e) \<and> env_status (envs s' ! e) = ENV_NOT_RUNNABLE"
proof -
  obtain s where s: "env_alloc kinit 0 = Some (0, Some 0, s)" "kinv (s\<lparr>curenv := Some 0\<rparr>) [4, 5, 6, 7] [1..<NENV] init_pend"
    "0 \<in> live (s\<lparr>curenv := Some 0\<rparr>)" "curenv (s\<lparr>curenv := Some 0\<rparr>) = Some 0"
    by (rule kinit_running)
  have "[1..<NENV] \<noteq> []" by (simp add: NENV_def)
  then have n: "\<not> ([1..<NENV] = [] \<or> [4, 5, 6, 7 :: nat] = [])" by blast
  show ?thesis
    using sys_exofork_correct [OF s(2,4,3)] s(1) unfolding if_not_P [OF n] by blast
qed

subsection \<open>No system call breaks the kernel invariant\<close>

lemma outcome_map_state [simp]: "outcome_state (outcome_map f out) = outcome_state out"
  by (cases out) (simp_all add: outcome_map_def outcome_state_def)

text \<open>\<open>user_mem_check\<close> ends on every range, whether or not it wraps around.\<close>

lemma user_mem_check_total:
  assumes walk: "\<forall>a. pgdir_walk s (env_pgdir (envs s ! e)) a False \<noteq> None"
  obtains r a s' where "user_mem_check s e va len perm = Some (r, s')" "s' = s \<or> s' = s\<lparr>user_mem_check_addr := a\<rparr>"
    "r = 0 \<and> s' = s \<or> r < 0"
proof (cases "ROUNDDOWN va PGSIZE < ROUNDUP (va + len) PGSIZE")
  case False
  then have "user_mem_check s e va len perm = Some (0, s)"
    unfolding user_mem_check_def by (subst user_mem_loop.simps) simp
  then show thesis by (rule that) simp_all
next
  case True
  let ?i = "ROUNDDOWN va PGSIZE" and ?e = "ROUNDUP (va + len) PGSIZE"
  have "unat ?i mod 4096 = 0" "unat ?e mod 4096 = 0"
    by (simp_all add: ROUNDUP_def unat_ROUNDDOWN mod_eq_0_iff_dvd minus_mod_eq_mult_div)
  then have "unat ?e = unat ?i + 4096 * ((unat ?e - unat ?i) div 4096)"
    using True by (simp add: word_less_nat_alt mod_eq_0_iff_dvd)
  note L = user_mem_loop_spec [of s "env_pgdir (envs s ! e)" ?e ?i, OF _ this, of va perm]
  show thesis
    using that L walk unfolding user_mem_check_def by (auto simp: E_FAULT_def split: option.splits)
qed

text \<open>
  What a caller has to respect, call by call. \<open>sys_cputs\<close>: the page tables of the caller lie in mapped memory, and if the
  range passes the check, the string ends in readable memory, the byte behind the range included. \<open>sys_page_alloc\<close>
  and \<open>sys_page_map\<close>: no address bits in the permission word; for the latter, and for \<open>sys_ipc_try_send\<close> with a
  page, also reference counts below their limit; a page that is sent is mapped, or its address unaligned.
\<close>

definition printable :: "kern \<Rightarrow> u32 \<Rightarrow> u32 \<Rightarrow> bool" where
  "printable s str len \<longleftrightarrow> str = 0 \<or> (\<exists>n. text_at s str (sint len) n)"

definition args_ok :: "kern \<Rightarrow> nat \<Rightarrow> u32 \<Rightarrow> u32 \<Rightarrow> u32 \<Rightarrow> u32 \<Rightarrow> u32 \<Rightarrow> u32 \<Rightarrow> bool" where
  "args_ok s c syscallno a1 a2 a3 a4 a5 \<longleftrightarrow>
     (case syscall_of syscallno of
        Some SYS_cputs \<Rightarrow> (\<forall>a. pgdir_walk s (env_pgdir (envs s ! c)) a False \<noteq> None) \<and>
          (user_mem_check s c a1 a2 PTE_U = Some (0, s) \<longrightarrow> printable s a1 a2)
      | Some SYS_page_alloc \<Rightarrow> PTE_ADDR a3 = 0
      | Some SYS_page_map \<Rightarrow> PTE_ADDR a5 = 0 \<and> no_wrap_refs s
      | Some SYS_ipc_try_send \<Rightarrow> pagewise s c a3 \<and> (a3 < UTOP \<longrightarrow> PTE_ADDR a4 = 0 \<and> no_wrap_refs s)
      | _ \<Rightarrow> True)"

definition keeps :: "(nat \<Rightarrow> nat) \<Rightarrow> 'a outcome option \<Rightarrow> bool" where
  "keeps pend r \<longleftrightarrow> (\<exists>out xs fs. r = Some out \<and> kinv (outcome_state out) xs fs pend)"

named_theorems keepsI

lemma keeps_returns [keepsI]: "kinv s xs fs pend \<Longrightarrow> keeps pend (Some (Returns r s))"
  by (auto simp: keeps_def outcome_state_def)

lemma keeps_map [keepsI]: "keeps pend r \<Longrightarrow> keeps pend (map_option (outcome_map f) r)"
  unfolding keeps_def by force

lemma keeps_returning [keepsI]: "r = Some (ret, s) \<Longrightarrow> kinv s xs fs pend \<Longrightarrow> keeps pend (returning r)"
  by (auto simp: keeps_def returning_def outcome_state_def)

text \<open>The state every call starts from.\<close>

definition caller :: "kern \<Rightarrow> nat list \<Rightarrow> nat list \<Rightarrow> (nat \<Rightarrow> nat) \<Rightarrow> nat \<Rightarrow> bool" where
  "caller s xs fs pend c \<longleftrightarrow> kinv s xs fs pend \<and> curenv s = Some c \<and> c \<in> live s"

lemma callerD:
  assumes "caller s xs fs pend c"
  shows "kinv s xs fs pend" "curenv s = Some c" "c \<in> live s"
  using assms by (simp_all add: caller_def)


lemma caller_cur_live: "caller s xs fs pend c \<Longrightarrow> cur_live s"
  by (simp add: caller_def cur_live_def)

lemma keeps_yield [keepsI]:
  assumes call: "caller s xs fs pend c"
  shows "keeps pend (sys_yield s)"
  unfolding keeps_def sys_yield_def
  using sched_yield_post [OF callerD(1) caller_cur_live, OF call call] kinv_env_frame(1) [OF callerD(1) [OF call]] by blast

lemma keeps_destroy:
  assumes call: "caller s xs fs pend c" and e: "e \<in> live s"
  shows "keeps pend (env_destroy s e)"
  unfolding keeps_def using env_destroy_spec [OF callerD(1) e caller_cur_live, OF call call] by blast

lemma keeps_sys_env_destroy [keepsI]:
  assumes call: "caller s xs fs pend c"
  shows "keeps pend (sys_env_destroy s envid)"
  using callerD [OF call]
proof (cases rule: envid2env_result [of _ _ _ _ _ envid True])
  case bad
  then show ?thesis
    using callerD(1) [OF call] by (simp add: sys_env_destroy_def E_BAD_ENV_def keeps_returns)
next
  case (good e)
  then have "sys_env_destroy s envid = map_option (outcome_map (\<lambda>_. 0)) (env_destroy s e)"
    by (cases "env_destroy s e") (simp_all add: sys_env_destroy_def)
  then show ?thesis
    using keeps_destroy [OF call good(2)] by (simp add: keeps_map)
qed

lemma cprintf_string_printable: "printable s str len \<Longrightarrow> cprintf_string s (sint len) str \<noteq> None"
  by (auto simp: printable_def cprintf_string_def print_chars_text)

lemma keeps_cputs [keepsI]:
  assumes call: "caller s xs fs pend c" and a: "\<forall>a. pgdir_walk s (env_pgdir (envs s ! c)) a False \<noteq> None"
    and p: "user_mem_check s c str len PTE_U = Some (0, s) \<longrightarrow> printable s str len"
  shows "keeps pend (sys_cputs s str len)"
proof -
  obtain r a s' where r: "user_mem_check s c str len PTE_U = Some (r, s')" "s' = s \<or> s' = s\<lparr>user_mem_check_addr := a\<rparr>"
    "r = 0 \<and> s' = s \<or> r < 0"
    by (rule user_mem_check_total [OF a, of str len PTE_U])
  have fr: "env_frame s s'" using r(2) by (auto simp: env_frame_def)
  note C = callerD [OF call] and F = kinv_env_frame [OF callerD(1) [OF call] fr]
  have cur: "curenv s' = curenv s" using r(2) by auto
  show ?thesis
  proof (cases "r < 0")
    case True
    have "cur_live s'" using C(2,3) F(2) cur by (simp add: cur_live_def)
    moreover have "c \<in> live s'" using C(3) F(2) by simp
    ultimately obtain out xs' fs' where o: "env_destroy s' c = Some out" "kinv (outcome_state out) xs' fs' pend"
      "returns out \<longleftrightarrow> curenv s' \<noteq> Some c"
      using env_destroy_spec [OF F(1), of c] by blast
    then show ?thesis
      using True r(1) C(2) cur
      by (cases out) (auto simp: sys_cputs_def user_mem_assert_def keeps_def outcome_state_def returns_def)
  next
    case False
    then have "user_mem_check s c str len PTE_U = Some (0, s)" using r(1,3) by auto
    then show ?thesis
      using sys_cputs_checked [OF C(2), of str len] cprintf_string_printable [of s str len] p C(1)
      by (auto intro: keeps_returns)
  qed
qed

lemma keeps_upd:
  assumes call: "caller s xs fs pend c" and a: "env_frame s s'"
  shows "keeps pend (returning (Some (ret, s')))"
  by (rule keeps_returning [OF refl]) (rule kinv_env_frame(1) [OF callerD(1) [OF call] a])

lemma upd_live_frame:
  assumes "e \<in> live s" "\<And>v. env_id (f v) = env_id v \<and> env_link (f v) = env_link v \<and> env_pgdir (f v) = env_pgdir v"
    "\<And>v. env_status v \<noteq> ENV_FREE \<Longrightarrow> env_status (f v) \<noteq> ENV_FREE"
  shows "env_frame s (upd_env s e f)"
  by (rule env_frame_upd) (use assms in \<open>simp add: live_def\<close>)

lemma keeps_set_status [keepsI]:
  assumes call: "caller s xs fs pend c"
  shows "keeps pend (returning (sys_env_set_status s envid status))"
  using callerD [OF call]
proof (cases rule: envid2env_result [of _ _ _ _ _ envid True])
  case bad
  then show ?thesis
    by (auto simp: sys_env_set_status_def E_BAD_ENV_def intro: keeps_upd [OF call])
next
  case (good e)
  then show ?thesis
    by (auto simp: sys_env_set_status_def intro!: keeps_upd [OF call] upd_live_frame)
qed

lemma keeps_set_upcall [keepsI]:
  assumes call: "caller s xs fs pend c"
  shows "keeps pend (returning (sys_env_set_pgfault_upcall s envid func))"
  using callerD [OF call]
proof (cases rule: envid2env_result [of _ _ _ _ _ envid True])
  case bad
  then show ?thesis
    by (auto simp: sys_env_set_pgfault_upcall_def E_BAD_ENV_def intro: keeps_upd [OF call])
next
  case (good e)
  then show ?thesis
    by (auto simp: sys_env_set_pgfault_upcall_def intro!: keeps_upd [OF call] upd_live_frame)
qed

lemma keeps_page_unmap [keepsI]:
  assumes call: "caller s xs fs pend c"
  shows "keeps pend (returning (sys_page_unmap s envid va))"
  using callerD [OF call]
proof (cases rule: envid2env_result [of _ _ _ _ _ envid True])
  case bad
  then show ?thesis
    by (auto simp: sys_page_unmap_def E_BAD_ENV_def intro: keeps_upd [OF call])
next
  case (good e)
  show ?thesis
  proof (cases "user_page va")
    case False
    with good show ?thesis by (auto simp: sys_page_unmap_def user_page_iff intro: keeps_upd [OF call])
  next
    case True
    then obtain s' xs' where "page_remove s (env_pgdir (envs s ! e)) va = Some s'" "kinv s' xs' fs pend"
      using kinv_unmap [OF callerD(1) [OF call] good(2) user_page_va] by blast
    with good True show ?thesis
      by (intro keeps_returning) (simp_all add: sys_page_unmap_def user_page_iff)
  qed
qed

lemma keeps_exofork [keepsI]:
  assumes call: "caller s xs fs pend c"
  shows "keeps pend (returning (sys_exofork s))"
  using callerD [OF call] by (cases rule: sys_exofork_spec) (auto intro: keeps_returning callerD(1) [OF call])

lemma keeps_recv [keepsI]:
  assumes call: "caller s xs fs pend c"
  shows "keeps pend (sys_ipc_recv s dstva)"
proof -
  let ?s = "upd_env s c (\<lambda>v. v\<lparr>env_ipc_recving := True, env_status := ENV_NOT_RUNNABLE, env_ipc_dstva := dstva\<rparr>)"
  have fr: "env_frame s ?s" by (rule upd_live_frame) (simp_all add: callerD(3) [OF call])
  note C = callerD [OF call] and F = kinv_env_frame [OF callerD(1) [OF call] fr]
  have "cur_live ?s" using C(2,3) F(2) by (simp add: cur_live_def)
  then have "keeps pend (sys_yield ?s :: int outcome option)"
    using C(2,3) F(1,2) by (intro keeps_yield [of _ xs fs _ c]) (simp add: caller_def)
  then show ?thesis
    using C(1,2) by (auto simp: sys_ipc_recv_def intro: keeps_returns)
qed

lemma keeps_page_alloc [keepsI]:
  assumes call: "caller s xs fs pend c" and p: "PTE_ADDR perm = 0"
  shows "keeps pend (returning (sys_page_alloc s envid va perm))"
  using sys_page_alloc_spec [OF callerD [OF call] p, of envid va] by (blast intro: keeps_returning)

lemma keeps_page_map [keepsI]:
  assumes call: "caller s xs fs pend c" and p: "PTE_ADDR perm = 0" "no_wrap_refs s"
  shows "keeps pend (returning (sys_page_map s srcenvid srcva dstenvid dstva perm))"
  using sys_page_map_spec [OF callerD [OF call] p, of srcenvid srcva dstenvid dstva] by (blast intro: keeps_returning)

lemma keeps_send [keepsI]:
  assumes call: "caller s xs fs pend c" and p: "pagewise s c srcva" "srcva < UTOP \<longrightarrow> PTE_ADDR perm = 0 \<and> no_wrap_refs s"
  shows "keeps pend (returning (sys_ipc_try_send s envid val srcva perm))"
  using sys_ipc_try_send_spec [OF callerD [OF call] _ _ p(1), of perm envid val] p(2) by (blast intro: keeps_returning)

lemma keeps_getenvid [keepsI]:
  assumes call: "caller s xs fs pend c"
  shows "keeps pend (map_option (\<lambda>id. Returns (f id) s) (sys_getenvid s))"
  using callerD [OF call] by (simp add: sys_getenvid_def keeps_returns)

lemma syscall_calls:
  assumes "syscall_of syscallno \<noteq> Some SYS_cgetc"
  shows "syscall serial kbd con s syscallno a1 a2 a3 a4 a5 =
     map_option (\<lambda>out. (out, con)) (syscall_kern s (syscall_of syscallno) a1 a2 a3 a4 a5)"
  using assms by (auto simp: syscall_def split: option.split syscall_number.split)

lemma keeps_calls:
  assumes call: "caller s xs fs pend c" and ok: "args_ok s c syscallno a1 a2 a3 a4 a5" and "syscall_of syscallno \<noteq> Some SYS_cgetc"
  shows "keeps pend (syscall_kern s (syscall_of syscallno) a1 a2 a3 a4 a5)"
proof (cases "syscall_of syscallno")
  case None
  then show ?thesis using callerD(1) [OF call] by (simp add: syscall_kern_def keeps_returns)
next
  case (Some n)
  then show ?thesis
    using call ok callerD(1) [OF call] by (cases n) (simp_all add: syscall_kern_def args_ok_def keepsI)
qed

text \<open>
  C2. System calls keep the kernel invariant: called from a consistent kernel by a live environment, the dispatcher does
  not panic, and the invariant holds when the call returns, when it enters another environment, and when the CPU
  halts. This holds for every call number and for every argument of the calls other than four; for these
  \<open>args_ok\<close> says what the arguments must respect. \<open>sys_page_alloc\<close>, \<open>sys_page_map\<close>, \<open>sys_ipc_try_send\<close>: the
  permission word has no bits above the low twelve, for the last two the 16-bit reference counts are below their
  limit, and a page that is sent is mapped or its address unaligned. \<open>sys_cputs\<close>: the walk of the caller's
  directory finds its page tables in memory, and a string that passes the check ends in readable memory.
\<close>

theorem syscall_keeps_invariant:
  assumes "kinv s xs fs pend" "curenv s = Some c" "c \<in> live s" "args_ok s c syscallno a1 a2 a3 a4 a5"
  shows "\<exists>out con' xs' fs'. syscall serial kbd con s syscallno a1 a2 a3 a4 a5 = Some (out, con') \<and>
     kinv (outcome_state out) xs' fs' pend"
proof (cases "syscall_of syscallno = Some SYS_cgetc")
  case True
  then show ?thesis
    using assms(1) by (auto simp: syscall_def outcome_state_def split: prod.split)
next
  case False
  have call: "caller s xs fs pend c" using assms(1-3) by (simp add: caller_def)
  show ?thesis
    using keeps_calls [OF call assms(4) False] unfolding keeps_def
    by (auto simp: syscall_calls [OF False])
qed

theorem syscall_keeps_invariant_witness:
  "\<exists>s0 out con' xs' fs'. env_alloc kinit 0 = Some (0, Some 0, s0) \<and>
     syscall [] [] cons_zero (s0\<lparr>curenv := Some 0\<rparr>) 4 0 0x800000 7 0 0 = Some (out, con') \<and>
     kinv (outcome_state out) xs' fs' init_pend"
proof -
  obtain s where s: "env_alloc kinit 0 = Some (0, Some 0, s)" "kinv (s\<lparr>curenv := Some 0\<rparr>) [4, 5, 6, 7] [1..<NENV] init_pend"
    "0 \<in> live (s\<lparr>curenv := Some 0\<rparr>)" "curenv (s\<lparr>curenv := Some 0\<rparr>) = Some 0"
    by (rule kinit_running)
  have "args_ok (s\<lparr>curenv := Some 0\<rparr>) 0 4 0 0x800000 7 0 0"
    by (simp add: args_ok_def syscall_of_def syscall_numbers_def PTE_ADDR_def)
  then show ?thesis
    using syscall_keeps_invariant [OF s(2,4,3), of 4 0 "0x800000" 7 0 0 "[]" "[]" cons_zero] s(1) by blast
qed

end
