(* ===== verification/CMem.thy ===== *)
theory CMem
  imports Prelude
begin

text \<open>
  Byte-addressed memory as the C library sees it: addresses are 32-bit words that wrap around, a string is
  the bytes up to a zero byte. The string instructions of the x86 (\<open>rep stosb\<close>, \<open>rep stosl\<close>, \<open>rep movsb\<close> and
  \<open>rep movsl\<close> in both directions), which inc/string.h and x86.h reach through inline assembly, are
  defined here with their effect on memory.
\<close>

type_synonym bytes = "u32 \<Rightarrow> u8"

subsection \<open>Words in memory\<close>

definition load32 :: "bytes \<Rightarrow> u32 \<Rightarrow> u32" where
  "load32 m p = ucast (m p) OR push_bit 8 (ucast (m (p + 1))) OR push_bit 16 (ucast (m (p + 2))) OR push_bit 24 (ucast (m (p + 3)))"

definition byte_of :: "u32 \<Rightarrow> nat \<Rightarrow> u8" where
  "byte_of x i = ucast (drop_bit (8 * i) x)"

definition store32 :: "bytes \<Rightarrow> u32 \<Rightarrow> u32 \<Rightarrow> bytes" where
  "store32 m p x = m(p := byte_of x 0, p + 1 := byte_of x 1, p + 2 := byte_of x 2, p + 3 := byte_of x 3)"

lemma byte_of_load32:
  "byte_of (load32 m p) 0 = m p" "byte_of (load32 m p) 1 = m (p + 1)"
  "byte_of (load32 m p) 2 = m (p + 2)" "byte_of (load32 m p) 3 = m (p + 3)"
  unfolding byte_of_def load32_def
  by (rule bit_word_eqI, auto simp: bit_simps dest: bit_imp_le_length)+

lemma store_load32: "store32 m d (load32 m s) = m(d := m s, d + 1 := m (s + 1), d + 2 := m (s + 2), d + 3 := m (s + 3))"
  unfolding store32_def byte_of_load32 ..

subsection \<open>The string instructions\<close>

fun rep_stosb :: "bytes \<Rightarrow> u32 \<Rightarrow> u8 \<Rightarrow> nat \<Rightarrow> bytes" where
  "rep_stosb m d c 0 = m"
| "rep_stosb m d c (Suc n) = rep_stosb (m(d := c)) (d + 1) c n"

fun rep_stosl :: "bytes \<Rightarrow> u32 \<Rightarrow> u32 \<Rightarrow> nat \<Rightarrow> bytes" where
  "rep_stosl m d c 0 = m"
| "rep_stosl m d c (Suc n) = rep_stosl (store32 m d c) (d + 4) c n"

fun rep_movsb :: "bytes \<Rightarrow> u32 \<Rightarrow> u32 \<Rightarrow> nat \<Rightarrow> bytes" where
  "rep_movsb m d s 0 = m"
| "rep_movsb m d s (Suc n) = rep_movsb (m(d := m s)) (d + 1) (s + 1) n"

fun rep_movsl :: "bytes \<Rightarrow> u32 \<Rightarrow> u32 \<Rightarrow> nat \<Rightarrow> bytes" where
  "rep_movsl m d s 0 = m"
| "rep_movsl m d s (Suc n) = rep_movsl (store32 m d (load32 m s)) (d + 4) (s + 4) n"

fun rep_movsb_down :: "bytes \<Rightarrow> u32 \<Rightarrow> u32 \<Rightarrow> nat \<Rightarrow> bytes" where
  "rep_movsb_down m d s 0 = m"
| "rep_movsb_down m d s (Suc n) = rep_movsb_down (m(d := m s)) (d - 1) (s - 1) n"

fun rep_movsl_down :: "bytes \<Rightarrow> u32 \<Rightarrow> u32 \<Rightarrow> nat \<Rightarrow> bytes" where
  "rep_movsl_down m d s 0 = m"
| "rep_movsl_down m d s (Suc n) = rep_movsl_down (store32 m d (load32 m s)) (d - 4) (s - 4) n"

subsection \<open>Offsets\<close>

text \<open>Offsets from a base address, so that ranges may wrap around.\<close>

lemma off_less_Suc:
  fixes a d :: u32
  assumes "a \<noteq> d"
  shows "unat (a - (d + 1)) < n \<longleftrightarrow> unat (a - d) < Suc n"
proof -
  have "a - d \<noteq> 0" using assms by simp
  then have "0 < unat (a - d)" by (simp add: unat_gt_0)
  then have "unat (a - d - 1) = unat (a - d) - 1"
    by (metis One_nat_def Suc_leI unat_1 unat_sub word_le_nat_alt)
  then have "unat (a - (d + 1)) = unat (a - d) - 1" by (simp only: diff_diff_eq)
  then show ?thesis using \<open>0 < unat (a - d)\<close> by auto
qed

lemma off_below: "unat (d - (d + 1) :: u32) = 4294967295"
proof -
  have "d - (d + 1) = (-1 :: u32)" by simp
  then show ?thesis by (simp add: unsigned_minus_1_eq_mask mask_eq_exp_minus_1)
qed

lemma off_of_nat: "i < 4294967296 \<Longrightarrow> unat (of_nat i :: u32) = i"
  by (simp add: unat_of_nat)

lemma add_off: "s + of_nat (unat (a - d)) = s + (a - d)" for a d s :: u32
  by simp

subsection \<open>What the instructions do\<close>

lemma rep_stosb_eq:
  assumes "n \<le> 4294967296"
  shows "rep_stosb m d c n a = (if unat (a - d) < n then c else m a)"
  using assms
proof (induction n arbitrary: m d)
  case (Suc n)
  show ?case
  proof (cases "a = d")
    case True
    show ?thesis using off_below [of d] True Suc by simp
  next
    case False
    then show ?thesis using Suc off_less_Suc [OF False, of n] by simp
  qed
qed simp

lemma rep_stosb_add: "rep_stosb m d c (k + n) = rep_stosb (rep_stosb m d c k) (d + of_nat k) c n"
  by (induction k arbitrary: m d) (simp_all add: algebra_simps)

lemma rep_stosl_eq:
  assumes "\<And>i. i < 4 \<Longrightarrow> byte_of x i = c"
  shows "rep_stosl m d x n = rep_stosb m d c (4 * n)"
proof (induction n arbitrary: m d)
  case (Suc n)
  have "rep_stosb m d c (4 * Suc n) = rep_stosb (rep_stosb m d c 4) (d + 4) c (4 * n)"
    using rep_stosb_add [of m d c 4 "4 * n"] by simp
  also have "rep_stosb m d c 4 = store32 m d x"
    using assms [of 0] assms [of 1] assms [of 2] assms [of 3]
    by (simp add: store32_def eval_nat_numeral algebra_simps)
  finally show ?case using Suc by simp
qed simp

lemma rep_movsb_eq:
  assumes "n \<le> 4294967296" "\<And>i j. i < n \<Longrightarrow> j < i \<Longrightarrow> s + of_nat i \<noteq> d + of_nat j"
  shows "rep_movsb m d s n a = (if unat (a - d) < n then m (s + (a - d)) else m a)"
  using assms
proof (induction n arbitrary: m d s)
  case (Suc n)
  have sep: "s + 1 + of_nat i \<noteq> d + 1 + of_nat j" if "i < n" "j < i" for i j
    using Suc.prems(2) [of "Suc i" "Suc j"] that by (simp add: algebra_simps)
  have IH: "rep_movsb (m(d := m s)) (d + 1) (s + 1) n a =
      (if unat (a - (d + 1)) < n then (m(d := m s)) (s + 1 + (a - (d + 1))) else (m(d := m s)) a)"
    by (rule Suc.IH) (use Suc.prems(1) sep in simp_all)
  show ?case
  proof (cases "a = d")
    case True
    show ?thesis using off_below [of d] True Suc.prems(1) IH by simp
  next
    case False
    have "s + (a - d) \<noteq> d" if "unat (a - d) < Suc n"
      using Suc.prems(2) [of "unat (a - d)" 0] that False unat_gt_0 [of "a - d"] by simp
    then show ?thesis using IH False off_less_Suc [OF False, of n] by (auto simp: algebra_simps)
  qed
qed simp

lemma rep_movsb_down_eq:
  assumes "n \<le> 4294967296" "\<And>i j. j < n \<Longrightarrow> i < j \<Longrightarrow> s + of_nat i \<noteq> d + of_nat j"
  shows "rep_movsb_down m (d + of_nat n - 1) (s + of_nat n - 1) n a = (if unat (a - d) < n then m (s + (a - d)) else m a)"
  using assms
proof (induction n arbitrary: m)
  case (Suc n)
  have top: "d + of_nat (Suc n) - 1 = d + of_nat n" "s + of_nat (Suc n) - 1 = s + of_nat n" by simp_all
  let ?m = "m(d + of_nat n := m (s + of_nat n))"
  have "rep_movsb_down ?m (d + of_nat n - 1) (s + of_nat n - 1) n a = (if unat (a - d) < n then ?m (s + (a - d)) else ?m a)"
    by (rule Suc.IH) (use Suc.prems in simp_all)
  then have IH: "rep_movsb_down m (d + of_nat (Suc n) - 1) (s + of_nat (Suc n) - 1) (Suc n) a =
      (if unat (a - d) < n then ?m (s + (a - d)) else ?m a)"
    unfolding top rep_movsb_down.simps .
  have at: "a = d + of_nat n \<longleftrightarrow> unat (a - d) = n"
  proof
    assume "unat (a - d) = n"
    then have "of_nat n = a - d" by auto
    then show "a = d + of_nat n" by simp
  qed (use Suc.prems(1) in \<open>simp add: off_of_nat\<close>)
  consider "unat (a - d) < n" | "unat (a - d) = n" | "n < unat (a - d)" by linarith
  then show ?case
  proof cases
    case 1
    then have "s + (a - d) \<noteq> d + of_nat n"
      using Suc.prems(2) [of n "unat (a - d)"] by simp
    then show ?thesis using 1 IH by simp
  next
    case 2
    then show ?thesis using IH at by auto
  next
    case 3
    then show ?thesis using IH at by simp
  qed
qed simp

subsection \<open>Copying by words\<close>

lemma aligned4: "unat (s :: u32) mod 4 = 0 \<Longrightarrow> k < 4 \<Longrightarrow> unat (s + of_nat k) mod 4 = k"
proof -
  assume a: "unat s mod 4 = 0" and k: "k < 4"
  have "unat (s + of_nat k) = (unat s + k) mod 4294967296"
    using k by (simp add: unat_word_ariths off_of_nat)
  then have "unat (s + of_nat k) mod 4 = (unat s + k) mod 4"
    by (simp add: mod_mod_cancel)
  also have "\<dots> = k" using a k by (simp add: mod_add_left_eq [symmetric])
  finally show ?thesis .
qed

lemma aligned4_neq:
  assumes "unat (s :: u32) mod 4 = 0" "unat d mod 4 = 0" "i < 4" "j < 4" "i \<noteq> j"
  shows "s + of_nat i \<noteq> d + of_nat j"
  using aligned4 [OF assms(1,3)] aligned4 [OF assms(2,4)] assms(5) by metis

lemma aligned4_step: "unat (s :: u32) mod 4 = 0 \<Longrightarrow> unat (s + 4) mod 4 = 0" "unat s mod 4 = 0 \<Longrightarrow> unat (s - 4) mod 4 = 0"
proof -
  show "unat s mod 4 = 0 \<Longrightarrow> unat (s + 4) mod 4 = 0"
    by (simp add: unat_word_ariths mod_mod_cancel mod_add_self2)
  assume a: "unat s mod 4 = 0"
  have "unat (s + 4294967292) = (unat s + 4294967292) mod 4294967296"
    by (simp add: unat_word_ariths)
  then have "unat (s + 4294967292) mod 4 = (unat s + 4294967292) mod 4" by (simp add: mod_mod_cancel)
  also have "\<dots> = 0" using a by presburger
  finally have "unat (s + 4294967292) mod 4 = 0" .
  moreover have "s - 4 = s + 4294967292" by simp
  ultimately show "unat (s - 4) mod 4 = 0" by (simp only:)
qed

lemma word_copy_up:
  assumes "unat s mod 4 = 0" "unat d mod 4 = 0"
  shows "store32 m d (load32 m s) = rep_movsb m d s 4"
proof -
  note N = aligned4_neq [OF assms]
  show ?thesis
    using N [of 1 0] N [of 2 0] N [of 2 1] N [of 3 0] N [of 3 1] N [of 3 2]
    unfolding store_load32 by (simp add: eval_nat_numeral algebra_simps)
qed

lemma word_copy_down:
  assumes "unat s mod 4 = 0" "unat d mod 4 = 0"
  shows "store32 m d (load32 m s) = rep_movsb_down m (d + 3) (s + 3) 4"
proof -
  note N = aligned4_neq [OF assms]
  have d: "d \<noteq> d + 1" "d \<noteq> d + 2" "d \<noteq> d + 3" "d + 1 \<noteq> d + 2" "d + 1 \<noteq> d + 3" "d + 2 \<noteq> d + 3" by simp_all
  have r: "rep_movsb_down m (d + 3) (s + 3) 4 = m(d + 3 := m (s + 3), d + 2 := m (s + 2), d + 1 := m (s + 1), d := m s)"
    using N [of 0 1] N [of 0 2] N [of 0 3] N [of 1 2] N [of 1 3] N [of 2 3]
    by (simp add: eval_nat_numeral algebra_simps)
  show ?thesis
    unfolding r store_load32 using d by (auto simp: fun_eq_iff)
qed

lemma rep_movsb_add: "rep_movsb m d s (k + n) = rep_movsb (rep_movsb m d s k) (d + of_nat k) (s + of_nat k) n"
  by (induction k arbitrary: m d s) (simp_all add: algebra_simps)

lemma rep_movsb_down_add:
  "rep_movsb_down m d s (k + n) = rep_movsb_down (rep_movsb_down m d s k) (d - of_nat k) (s - of_nat k) n"
  by (induction k arbitrary: m d s) (simp_all add: algebra_simps)

lemma rep_movsl_eq:
  assumes "unat s mod 4 = 0" "unat d mod 4 = 0"
  shows "rep_movsl m d s n = rep_movsb m d s (4 * n)"
  using assms
proof (induction n arbitrary: m d s)
  case (Suc n)
  then show ?case
    using rep_movsb_add [of m d s 4 "4 * n"] by (simp add: word_copy_up aligned4_step(1))
qed simp

lemma rep_movsl_down_eq:
  assumes "unat s mod 4 = 0" "unat d mod 4 = 0"
  shows "rep_movsl_down m d s n = rep_movsb_down m (d + 3) (s + 3) (4 * n)"
  using assms
proof (induction n arbitrary: m d s)
  case (Suc n)
  have "d + 3 - 4 = d - 4 + 3" "s + 3 - 4 = s - 4 + 3" by simp_all
  then show ?case
    using Suc rep_movsb_down_add [of m "d + 3" "s + 3" 4 "4 * n"] by (simp add: word_copy_down aligned4_step(2))
qed simp

subsection \<open>Words after a store\<close>

lemma load_store32_same: "load32 (store32 m p x) p = x"
proof -
  have "load32 (store32 m p x) p = ucast (byte_of x 0) OR push_bit 8 (ucast (byte_of x 1)) OR
      push_bit 16 (ucast (byte_of x 2)) OR push_bit 24 (ucast (byte_of x 3))"
    by (simp add: load32_def store32_def)
  also have "\<dots> = x"
  proof (rule bit_word_eqI)
    fix n assume n: "n < LENGTH(32)"
    consider "n < 8" | "8 \<le> n" "n < 16" | "16 \<le> n" "n < 24" | "24 \<le> n" "n < 32" using n by force
    then show "bit (ucast (byte_of x 0) OR push_bit 8 (ucast (byte_of x 1)) OR
        push_bit 16 (ucast (byte_of x 2)) OR push_bit 24 (ucast (byte_of x 3)) :: u32) n = bit x n"
      by cases (auto simp: byte_of_def bit_simps)
  qed
  finally show ?thesis .
qed

lemma load_store32_other:
  assumes "unat p mod 4 = 0" "unat q mod 4 = 0" "p \<noteq> q"
  shows "load32 (store32 m p x) q = load32 m q"
proof -
  have e: "q + of_nat i \<noteq> p + of_nat j" if "i < 4" "j < 4" for i j
    using aligned4_neq [OF assms(2,1) that] assms(3) by (cases "i = j") auto
  show ?thesis
    using e [of 0 0] e [of 0 1] e [of 0 2] e [of 0 3] e [of 1 0] e [of 1 1] e [of 1 2] e [of 1 3]
      e [of 2 0] e [of 2 1] e [of 2 2] e [of 2 3] e [of 3 0] e [of 3 1] e [of 3 2] e [of 3 3]
    by (simp add: load32_def store32_def)
qed

subsection \<open>Strings\<close>

definition str_at :: "bytes \<Rightarrow> u32 \<Rightarrow> u8 list \<Rightarrow> bool" where
  "str_at m p xs \<longleftrightarrow> (\<forall>i < length xs. m (p + of_nat i) = xs ! i) \<and> 0 \<notin> set xs \<and> m (p + of_nat (length xs)) = 0"

lemma str_at_Nil [simp]: "str_at m p [] \<longleftrightarrow> m p = 0"
  by (simp add: str_at_def)

lemma str_at_Cons [simp]: "str_at m p (x # xs) \<longleftrightarrow> m p = x \<and> x \<noteq> 0 \<and> str_at m (p + 1) xs"
proof -
  have "(\<forall>i < length (x # xs). m (p + of_nat i) = (x # xs) ! i) \<longleftrightarrow>
      m p = x \<and> (\<forall>i < length xs. m (p + 1 + of_nat i) = xs ! i)"
    by (auto simp: less_Suc_eq_0_disj algebra_simps)
  then show ?thesis by (auto simp: str_at_def algebra_simps)
qed

lemma str_at_unique: "str_at m p xs \<Longrightarrow> str_at m p ys \<Longrightarrow> xs = ys"
  by (induction xs arbitrary: p ys) (case_tac ys, auto)+

lemma str_at_cong: "str_at m p xs \<Longrightarrow> (\<And>i. i \<le> length xs \<Longrightarrow> m' (p + of_nat i) = m (p + of_nat i)) \<Longrightarrow> str_at m' p xs"
  by (simp add: str_at_def)

end
