(* ===== verification/JosString.thy ===== *)
theory JosString
  imports CMem
begin

text \<open>
  The string routines of lib/string.c of JOS, which the kernel and the user programs share. Loops that only end
  at a zero byte are partial functions: \<open>None\<close> is a loop that never ends, because every byte of memory is
  non-zero. Counters and results of type \<open>int\<close> and \<open>long\<close> are 32-bit words.
\<close>

subsection \<open>The code\<close>

partial_function (option) strlen_loop :: "bytes \<Rightarrow> u32 \<Rightarrow> u32 \<Rightarrow> u32 option" where
  "strlen_loop m s n = (if m s \<noteq> 0 then strlen_loop m (s + 1) (n + 1) else Some n)"

definition strlen :: "bytes \<Rightarrow> u32 \<Rightarrow> u32 option" where
  "strlen m s = strlen_loop m s 0"

fun strnlen_loop :: "bytes \<Rightarrow> u32 \<Rightarrow> nat \<Rightarrow> u32 \<Rightarrow> u32" where
  "strnlen_loop m s 0 n = n"
| "strnlen_loop m s (Suc sz) n = (if m s \<noteq> 0 then strnlen_loop m (s + 1) sz (n + 1) else n)"

definition strnlen :: "bytes \<Rightarrow> u32 \<Rightarrow> u32 \<Rightarrow> u32" where
  "strnlen m s sz = strnlen_loop m s (unat sz) 0"

partial_function (option) strcpy_loop :: "bytes \<Rightarrow> u32 \<Rightarrow> u32 \<Rightarrow> bytes option" where
  "strcpy_loop m dst src =
     (let c = m src; m = m(dst := c)
      in if c \<noteq> 0 then strcpy_loop m (dst + 1) (src + 1) else Some m)"

definition strcpy :: "bytes \<Rightarrow> u32 \<Rightarrow> u32 \<Rightarrow> (u32 \<times> bytes) option" where
  "strcpy m dst src = do { m \<leftarrow> strcpy_loop m dst src; Some (dst, m) }"

definition strcat :: "bytes \<Rightarrow> u32 \<Rightarrow> u32 \<Rightarrow> (u32 \<times> bytes) option" where
  "strcat m dst src = do {
     len \<leftarrow> strlen m dst;
     (_, m) \<leftarrow> strcpy m (dst + len) src;
     Some (dst, m)
   }"

fun strncpy_loop :: "bytes \<Rightarrow> u32 \<Rightarrow> u32 \<Rightarrow> nat \<Rightarrow> bytes" where
  "strncpy_loop m dst src 0 = m"
| "strncpy_loop m dst src (Suc n) =
     (let m = m(dst := m src)
      in strncpy_loop m (dst + 1) (if m src \<noteq> 0 then src + 1 else src) n)"

definition strncpy :: "bytes \<Rightarrow> u32 \<Rightarrow> u32 \<Rightarrow> u32 \<Rightarrow> u32 \<times> bytes" where
  "strncpy m dst src sz = (dst, strncpy_loop m dst src (unat sz))"

text \<open>The loop of \<open>strlcpy\<close>; its last argument is \<open>size - 1\<close> on entry.\<close>

fun strlcpy_loop :: "bytes \<Rightarrow> u32 \<Rightarrow> u32 \<Rightarrow> nat \<Rightarrow> u32 \<times> bytes" where
  "strlcpy_loop m dst src 0 = (dst, m)"
| "strlcpy_loop m dst src (Suc sz) =
     (if m src \<noteq> 0 then strlcpy_loop (m(dst := m src)) (dst + 1) (src + 1) sz else (dst, m))"

definition strlcpy :: "bytes \<Rightarrow> u32 \<Rightarrow> u32 \<Rightarrow> u32 \<Rightarrow> u32 \<times> bytes" where
  "strlcpy m dst src sz =
     (if sz > 0
      then let (dst', m) = strlcpy_loop m dst src (unat (sz - 1)) in (dst' - dst, m(dst' := 0))
      else (0, m))"

definition byte_diff :: "u8 \<Rightarrow> u8 \<Rightarrow> int" where
  "byte_diff x y = uint x - uint y"

partial_function (option) strcmp :: "bytes \<Rightarrow> u32 \<Rightarrow> u32 \<Rightarrow> int option" where
  "strcmp m p q = (if m p \<noteq> 0 \<and> m p = m q then strcmp m (p + 1) (q + 1) else Some (byte_diff (m p) (m q)))"

fun strncmp_loop :: "bytes \<Rightarrow> u32 \<Rightarrow> u32 \<Rightarrow> nat \<Rightarrow> int" where
  "strncmp_loop m p q 0 = 0"
| "strncmp_loop m p q (Suc n) = (if m p \<noteq> 0 \<and> m p = m q then strncmp_loop m (p + 1) (q + 1) n else byte_diff (m p) (m q))"

definition strncmp :: "bytes \<Rightarrow> u32 \<Rightarrow> u32 \<Rightarrow> u32 \<Rightarrow> int" where
  "strncmp m p q n = strncmp_loop m p q (unat n)"

partial_function (option) strchr :: "bytes \<Rightarrow> u32 \<Rightarrow> u8 \<Rightarrow> u32 option" where
  "strchr m s c = (if m s \<noteq> 0 then if m s = c then Some s else strchr m (s + 1) c else Some 0)"

partial_function (option) strfind :: "bytes \<Rightarrow> u32 \<Rightarrow> u8 \<Rightarrow> u32 option" where
  "strfind m s c = (if m s \<noteq> 0 then if m s = c then Some s else strfind m (s + 1) c else Some s)"

text \<open>\<open>(int)v % 4 == 0\<close> holds exactly when the low two bits of the address are zero.\<close>

definition mult4 :: "u32 \<Rightarrow> bool" where
  "mult4 x \<longleftrightarrow> unat x mod 4 = 0"

definition memset :: "bytes \<Rightarrow> u32 \<Rightarrow> u32 \<Rightarrow> u32 \<Rightarrow> u32 \<times> bytes" where
  "memset m v c n =
     (if n = 0 then (v, m)
      else if mult4 v \<and> mult4 n
      then let c = c AND 0xFF; c = push_bit 24 c OR push_bit 16 c OR push_bit 8 c OR c
           in (v, rep_stosl m v c (unat (n div 4)))
      else (v, rep_stosb m v (ucast c) (unat n)))"

definition memmove :: "bytes \<Rightarrow> u32 \<Rightarrow> u32 \<Rightarrow> u32 \<Rightarrow> u32 \<times> bytes" where
  "memmove m dst src n =
     (if src < dst \<and> src + n > dst
      then let s = src + n; d = dst + n
           in if mult4 s \<and> mult4 d \<and> mult4 n then (dst, rep_movsl_down m (d - 4) (s - 4) (unat (n div 4)))
              else (dst, rep_movsb_down m (d - 1) (s - 1) (unat n))
      else if mult4 src \<and> mult4 dst \<and> mult4 n then (dst, rep_movsl m dst src (unat (n div 4)))
      else (dst, rep_movsb m dst src (unat n)))"

definition memcpy :: "bytes \<Rightarrow> u32 \<Rightarrow> u32 \<Rightarrow> u32 \<Rightarrow> u32 \<times> bytes" where
  "memcpy m dst src n = memmove m dst src n"

fun memcmp_loop :: "bytes \<Rightarrow> u32 \<Rightarrow> u32 \<Rightarrow> nat \<Rightarrow> int" where
  "memcmp_loop m s1 s2 0 = 0"
| "memcmp_loop m s1 s2 (Suc n) = (if m s1 \<noteq> m s2 then byte_diff (m s1) (m s2) else memcmp_loop m (s1 + 1) (s2 + 1) n)"

definition memcmp :: "bytes \<Rightarrow> u32 \<Rightarrow> u32 \<Rightarrow> u32 \<Rightarrow> int" where
  "memcmp m v1 v2 n = memcmp_loop m v1 v2 (unat n)"

text \<open>The loop of \<open>memfind\<close>; \<open>s\<close> grows to \<open>ends\<close>.\<close>

function memfind_loop :: "bytes \<Rightarrow> u32 \<Rightarrow> u32 \<Rightarrow> u8 \<Rightarrow> u32" where
  "memfind_loop m s ends c = (if s < ends then if m s = c then s else memfind_loop m (s + 1) ends c else s)"
  by pat_completeness auto

termination
proof (relation "measure (\<lambda>(m, s, ends, c). unat (ends - s))")
  fix m :: bytes and s ends :: u32 and c :: u8
  assume "s < ends"
  then have "unat (ends - s) = unat ends - unat s" "unat (ends - (s + 1)) = unat ends - Suc (unat s)" "unat s < unat ends"
    using unat_less_32 [of ends] by (auto simp: unat_sub word_le_nat_alt word_less_nat_alt unat_word_ariths)
  then show "((m, s + 1, ends, c), (m, s, ends, c)) \<in> measure (\<lambda>(m, s, ends, c). unat (ends - s))" by simp
qed simp

definition memfind :: "bytes \<Rightarrow> u32 \<Rightarrow> u32 \<Rightarrow> u32 \<Rightarrow> u32" where
  "memfind m s c n = memfind_loop m s (s + n) (ucast c)"

text \<open>\<open>strtol\<close>: white space, sign, prefix, digits. The result is the value and the end of the number.\<close>

partial_function (option) skip_blanks :: "bytes \<Rightarrow> u32 \<Rightarrow> u32 option" where
  "skip_blanks m s = (if m s = 0x20 \<or> m s = 0x09 then skip_blanks m (s + 1) else Some s)"

definition digit_value :: "u8 \<Rightarrow> int option" where
  "digit_value c =
     (if 0x30 \<le> c \<and> c \<le> 0x39 then Some (uint c - 0x30)
      else if 0x61 \<le> c \<and> c \<le> 0x7A then Some (uint c - 0x61 + 10)
      else if 0x41 \<le> c \<and> c \<le> 0x5A then Some (uint c - 0x41 + 10)
      else None)"

partial_function (option) strtol_digits :: "bytes \<Rightarrow> u32 \<Rightarrow> u32 \<Rightarrow> int \<Rightarrow> (u32 \<times> u32) option" where
  "strtol_digits m s val base =
     (case digit_value (m s) of
        None \<Rightarrow> Some (val, s)
      | Some dig \<Rightarrow> if dig \<ge> base then Some (val, s)
                    else strtol_digits m (s + 1) (val * word_of_int base + word_of_int dig) base)"

definition strtol :: "bytes \<Rightarrow> u32 \<Rightarrow> int \<Rightarrow> (u32 \<times> u32) option" where
  "strtol m s base = do {
     s \<leftarrow> skip_blanks m s;
     let (neg, s) = (if m s = 0x2B then (False, s + 1) else if m s = 0x2D then (True, s + 1) else (False, s));
     let (s, base) =
       (if (base = 0 \<or> base = 16) \<and> m s = 0x30 \<and> m (s + 1) = 0x78 then (s + 2, 16)
        else if base = 0 \<and> m s = 0x30 then (s + 1, 8)
        else if base = 0 then (s, 10)
        else (s, base));
     (val, s) \<leftarrow> strtol_digits m s 0 base;
     Some (if neg then - val else val, s)
   }"

subsection \<open>Block operations\<close>

definition copied :: "bytes \<Rightarrow> u32 \<Rightarrow> u32 \<Rightarrow> nat \<Rightarrow> bytes" where
  "copied m dst src n = (\<lambda>a. if unat (a - dst) < n then m (src + (a - dst)) else m a)"

lemma memset_bytes:
  fixes c :: u32
  defines "b \<equiv> c AND 0xFF"
  assumes "i < 4"
  shows "byte_of (push_bit 24 b OR push_bit 16 b OR push_bit 8 b OR b) i = ucast c"
proof -
  have b: "b = c AND mask 8" by (simp add: b_def mask_eq_decr_exp)
  have "i = 0 \<or> i = 1 \<or> i = 2 \<or> i = 3" using assms(2) by auto
  then show ?thesis
    unfolding byte_of_def b by (elim disjE; intro bit_word_eqI; auto simp: bit_simps dest: bit_imp_le_length)
qed

lemma unat_div4: "mult4 n \<Longrightarrow> 4 * unat (n div 4) = unat n"
  by (auto simp: mult4_def unat_div)

text \<open>
  \<open>memset\<close> sets exactly the \<open>n\<close> bytes from \<open>v\<close> on to the low byte of \<open>c\<close>, whether it stores bytes or
  words.
\<close>

theorem memset_correct:
  "memset m v c n = (v, \<lambda>a. if a - v < n then ucast c else m a)"
proof -
  have b: "rep_stosb m v (ucast c) (unat n) = (\<lambda>a. if a - v < n then ucast c else m a)"
    using unat_less_32 [of n] by (auto simp: fun_eq_iff rep_stosb_eq word_less_nat_alt)
  let ?x = "push_bit 24 (c AND 0xFF) OR push_bit 16 (c AND 0xFF) OR push_bit 8 (c AND 0xFF) OR c AND 0xFF"
  have "rep_stosl m v ?x (unat (n div 4)) = rep_stosb m v (ucast c) (unat n)" if "mult4 n"
    using rep_stosl_eq [of ?x "ucast c" m v "unat (n div 4)"] memset_bytes [of _ c] unat_div4 [OF that] by simp
  then show ?thesis
    using b by (simp add: memset_def Let_def)
qed

lemma no_wrap_eq:
  assumes "unat (s :: u32) + n \<le> 4294967296" "unat d + n \<le> 4294967296" "i < n" "j < n"
  shows "s + of_nat i = d + of_nat j \<longleftrightarrow> unat s + i = unat d + j"
proof -
  have "unat (s + of_nat i) = unat s + i" "unat (d + of_nat j) = unat d + j"
    using assms by (simp_all add: unat_word_ariths off_of_nat)
  then show ?thesis by (metis word_unat_eq_iff)
qed

lemma memmove_forward:
  fixes n :: u32
  assumes nw: "unat src + unat n \<le> 4294967296" "unat dst + unat n \<le> 4294967296"
    and f: "unat dst \<le> unat src \<or> unat src + unat n \<le> unat dst"
  shows "rep_movsb m dst src (unat n) = copied m dst src (unat n)"
proof -
  have "src + of_nat i \<noteq> dst + of_nat j" if "i < unat n" "j < i" for i j
    using no_wrap_eq [OF nw that(1), of j] that f by auto
  then show ?thesis
    using unat_less_32 [of n] by (auto simp: fun_eq_iff copied_def rep_movsb_eq)
qed

lemma memmove_backward:
  assumes nw: "unat src + unat n \<le> 4294967296" "unat dst + unat n \<le> 4294967296" and b: "unat src \<le> unat dst"
  shows "rep_movsb_down m (dst + n - 1) (src + n - 1) (unat n) = copied m dst src (unat n)"
proof -
  have "src + of_nat i \<noteq> dst + of_nat j" if "j < unat n" "i < j" for i j
    using no_wrap_eq [OF nw _ that(1), of i] that b by auto
  then have "rep_movsb_down m (dst + of_nat (unat n) - 1) (src + of_nat (unat n) - 1) (unat n) a = copied m dst src (unat n) a" for a
    unfolding copied_def using unat_less_32 [of n] by (intro rep_movsb_down_eq) auto
  then show ?thesis by (simp add: fun_eq_iff)
qed

lemma memmove_copied:
  assumes nw: "unat src + unat n < 4294967296" "unat dst + unat n \<le> 4294967296"
  shows "memmove m dst src n = (dst, copied m dst src (unat n))"
proof -
  have sum: "unat (src + n) = unat src + unat n" using nw(1) by (simp add: unat_word_ariths)
  show ?thesis
  proof (cases "src < dst \<and> src + n > dst")
    case True
    then have B: "rep_movsb_down m (dst + n - 1) (src + n - 1) (unat n) = copied m dst src (unat n)"
      using nw by (intro memmove_backward) (simp_all add: word_less_nat_alt)
    have "rep_movsl_down m (dst + n - 4) (src + n - 4) (unat (n div 4)) = copied m dst src (unat n)"
      if "mult4 (src + n)" "mult4 (dst + n)" "mult4 n"
    proof -
      have "rep_movsl_down m (dst + n - 4) (src + n - 4) (unat (n div 4)) =
          rep_movsb_down m (dst + n - 4 + 3) (src + n - 4 + 3) (4 * unat (n div 4))"
        using that by (intro rep_movsl_down_eq aligned4_step(2)) (simp_all add: mult4_def)
      then show ?thesis using B unat_div4 [OF that(3)] by (simp add: algebra_simps)
    qed
    then show ?thesis
      using True B by (simp add: memmove_def Let_def)
  next
    case False
    then have F: "rep_movsb m dst src (unat n) = copied m dst src (unat n)"
      using nw sum by (intro memmove_forward) (auto simp: word_less_nat_alt)
    have "rep_movsl m dst src (unat (n div 4)) = copied m dst src (unat n)" if "mult4 src" "mult4 dst" "mult4 n"
      using rep_movsl_eq [of src dst m "unat (n div 4)"] that F unat_div4 [OF that(3)] by (simp add: mult4_def)
    then show ?thesis
      using False F by (auto simp: memmove_def Let_def)
  qed
qed

text \<open>
  C33. \<open>memmove\<close> and \<open>memcpy\<close> on ranges that do not wrap around: the destination holds the bytes the source had
  before, also when the two overlap and whichever of its four loops runs, and no other byte changes.
\<close>

theorem memmove_correct:
  assumes "unat src + unat n < 4294967296" "unat dst + unat n \<le> 4294967296"
  shows "memmove m dst src n = (dst, \<lambda>a. if a - dst < n then m (src + (a - dst)) else m a) \<and>
     memcpy m dst src n = memmove m dst src n"
  using memmove_copied [OF assms, of m] by (simp add: copied_def memcpy_def word_less_nat_alt)

theorem memmove_correct_witness:
  "snd (memmove (\<lambda>a. ucast a) 0x102 0x100 8) 0x105 = 3"
  using memmove_correct [of "0x100" 8 "0x102" "\<lambda>a. ucast a"] by simp

subsection \<open>Strings\<close>

lemma strlen_loop_str: "str_at m p xs \<Longrightarrow> strlen_loop m p n = Some (n + of_nat (length xs))"
proof (induction xs arbitrary: p n)
  case Nil
  then show ?case by (subst strlen_loop.simps) simp
next
  case (Cons x xs)
  then show ?case by (subst strlen_loop.simps) (simp add: algebra_simps)
qed

lemma strlen_str: "str_at m p xs \<Longrightarrow> strlen m p = Some (of_nat (length xs))"
  by (simp add: strlen_def strlen_loop_str)

text \<open>No byte of the source is overwritten before it is read.\<close>

definition apart :: "u32 \<Rightarrow> u32 \<Rightarrow> nat \<Rightarrow> bool" where
  "apart dst src n \<longleftrightarrow> (\<forall>i j. i < n \<longrightarrow> j < i \<longrightarrow> src + of_nat i \<noteq> dst + of_nat j)"

lemma apart_tail: "apart dst src (Suc n) \<Longrightarrow> apart (dst + 1) (src + 1) n"
  unfolding apart_def
proof (intro allI impI)
  fix i j assume a: "\<forall>i j. i < Suc n \<longrightarrow> j < i \<longrightarrow> src + of_nat i \<noteq> dst + of_nat j" and ij: "i < n" "j < i"
  from a [rule_format, of "Suc i" "Suc j"] ij
  show "src + 1 + of_nat i \<noteq> dst + 1 + of_nat j" by (simp add: algebra_simps)
qed

lemma apart_head:
  assumes "apart dst src (Suc n)" "i < n"
  shows "src + 1 + of_nat i \<noteq> dst"
  using assms(1) [unfolded apart_def, rule_format, of "Suc i" 0] assms(2) by (simp add: algebra_simps)

lemma strcpy_loop_movsb:
  assumes "str_at m src xs" "apart dst src (Suc (length xs))"
  shows "strcpy_loop m dst src = Some (rep_movsb m dst src (Suc (length xs)))"
  using assms
proof (induction xs arbitrary: m dst src)
  case Nil
  then show ?case by (subst strcpy_loop.simps) simp
next
  case (Cons x xs)
  have "str_at (m(dst := x)) (src + 1) xs"
  proof (rule str_at_cong)
    show "str_at m (src + 1) xs" using Cons.prems(1) by simp
    show "(m(dst := x)) (src + 1 + of_nat i) = m (src + 1 + of_nat i)" if "i \<le> length xs" for i
      using apart_head [OF Cons.prems(2), of i] that by simp
  qed
  then have "strcpy_loop (m(dst := x)) (dst + 1) (src + 1) = Some (rep_movsb (m(dst := x)) (dst + 1) (src + 1) (Suc (length xs)))"
    by (rule Cons.IH) (use Cons.prems(2) in \<open>simp add: apart_tail\<close>)
  then show ?case
    using Cons.prems(1) by (subst strcpy_loop.simps) (simp add: Let_def)
qed

lemma strcpy_str:
  assumes "str_at m src xs" "apart dst src (Suc (length xs))" "length xs < 4294967296"
  shows "strcpy m dst src = Some (dst, copied m dst src (Suc (length xs)))"
proof -
  have "rep_movsb m dst src (Suc (length xs)) = copied m dst src (Suc (length xs))"
    unfolding copied_def using assms by (intro ext rep_movsb_eq) (auto simp: apart_def)
  then show ?thesis
    by (simp add: strcpy_def strcpy_loop_movsb [OF assms(1,2)] del: rep_movsb.simps)
qed

lemma copied_str:
  assumes "str_at m src xs" "length xs < 4294967296"
  shows "str_at (copied m dst src (Suc (length xs))) dst xs"
proof -
  have "copied m dst src (Suc (length xs)) (dst + of_nat i) = m (src + of_nat i)" if "i \<le> length xs" for i
    using that assms(2) by (simp add: copied_def off_of_nat)
  then show ?thesis using assms(1) by (simp add: str_at_def)
qed

lemma str_at_append:
  "str_at m p (xs @ ys) \<longleftrightarrow> (\<forall>i < length xs. m (p + of_nat i) = xs ! i \<and> xs ! i \<noteq> 0) \<and> str_at m (p + of_nat (length xs)) ys"
proof (induction xs arbitrary: p)
  case (Cons x xs)
  then show ?case by (auto simp: less_Suc_eq_0_disj algebra_simps)
qed simp

text \<open>
  \<open>strcat\<close> appends: if \<open>dst\<close> and \<open>src\<close> hold strings and the place behind the first does not overlap the
  second, \<open>dst\<close> then holds their concatenation and no byte outside the added part changes.
\<close>

theorem strcat_correct:
  assumes x: "str_at m dst xs" and y: "str_at m src ys" and len: "length xs + length ys < 4294967296"
    and ap: "apart (dst + of_nat (length xs)) src (Suc (length ys))"
  shows "\<exists>m'. strcat m dst src = Some (dst, m') \<and> str_at m' dst (xs @ ys) \<and>
     (\<forall>a. unat (a - (dst + of_nat (length xs))) > length ys \<longrightarrow> m' a = m a)"
proof -
  let ?d = "dst + of_nat (length xs)"
  let ?m = "copied m ?d src (Suc (length ys))"
  have "strcat m dst src = Some (dst, ?m)"
    using len by (simp add: strcat_def strlen_str [OF x] strcpy_str [OF y ap])
  moreover have "str_at ?m ?d ys" using copied_str [OF y, of ?d] len by simp
  moreover have "?m (dst + of_nat i) = m (dst + of_nat i)" if "i < length xs" for i
  proof -
    have "unat (dst + of_nat i - ?d) > length ys"
    proof (rule ccontr)
      assume k: "\<not> ?thesis"
      define k where "k = unat (dst + of_nat i - ?d)"
      have "of_nat k = dst + of_nat i - ?d" by (simp add: k_def)
      then have eq: "(of_nat i :: u32) = of_nat (length xs + k)" by (simp add: algebra_simps)
      have kl: "k \<le> length ys" using k by (simp add: k_def)
      have "unat (of_nat i :: u32) = i" by (rule off_of_nat) (use that len in simp)
      moreover have "unat (of_nat (length xs + k) :: u32) = length xs + k" by (rule off_of_nat) (use kl len in simp)
      ultimately have "i = length xs + k" unfolding eq by (rule trans [OF sym])
      then show False using that by simp
    qed
    then show ?thesis by (simp add: copied_def)
  qed
  moreover have "\<forall>i < length xs. m (dst + of_nat i) = xs ! i \<and> xs ! i \<noteq> 0"
    using x unfolding str_at_def by (metis nth_mem)
  ultimately have "str_at ?m dst (xs @ ys)"
    by (simp add: str_at_append)
  then show ?thesis
    using \<open>strcat m dst src = Some (dst, ?m)\<close> by (auto simp: copied_def)
qed

theorem strcat_correct_witness:
  "\<exists>m'. strcat ((\<lambda>_. 0)(0x100 := 0x61, 0x200 := 0x62, 0x201 := 0x63)) 0x100 0x200 = Some (0x100, m') \<and>
     str_at m' 0x100 [0x61, 0x62, 0x63]"
proof -
  let ?m = "(\<lambda>_. 0 :: u8)(0x100 := 0x61, 0x200 := 0x62, 0x201 := 0x63) :: bytes"
  have "apart (0x100 + of_nat (length [0x61 :: u8])) 0x200 (Suc (length [0x62, 0x63 :: u8]))"
    by (auto simp: apart_def less_Suc_eq)
  then have "\<exists>m'. strcat ?m 0x100 0x200 = Some (0x100, m') \<and> str_at m' 0x100 ([0x61] @ [0x62, 0x63]) \<and>
     (\<forall>a. unat (a - (0x100 + of_nat (length [0x61 :: u8]))) > length [0x62, 0x63 :: u8] \<longrightarrow> m' a = ?m a)"
    by (intro strcat_correct) simp_all
  then show ?thesis by auto
qed

lemma copied_prefix_str:
  assumes x: "str_at m src xs" and k: "k \<le> length xs" "k < 4294967296"
  shows "str_at ((copied m dst src k)(dst + of_nat k := 0)) dst (take k xs)"
proof -
  let ?m = "(copied m dst src k)(dst + of_nat k := 0)"
  have "?m (dst + of_nat i) = xs ! i" if "i < k" for i
  proof -
    have "unat (of_nat i :: u32) = i" "unat (of_nat k :: u32) = k" using that k by (intro off_of_nat; simp)+
    then have "dst + of_nat i \<noteq> dst + of_nat k" "unat (dst + of_nat i - dst) < k" using that by auto
    then show ?thesis using x that k(1) by (simp add: copied_def str_at_def)
  qed
  then show ?thesis
    using x k(1) by (auto simp: str_at_def min_def dest: in_set_takeD)
qed

lemma strlcpy_loop_str:
  assumes "str_at m src xs" "apart dst src (Suc (length xs))" "n \<le> 4294967296"
  shows "strlcpy_loop m dst src n = (dst + of_nat (min n (length xs)), rep_movsb m dst src (min n (length xs)))"
  using assms
proof (induction n arbitrary: m dst src xs)
  case (Suc n)
  show ?case
  proof (cases xs)
    case Nil
    then show ?thesis using Suc.prems(1) by simp
  next
    case (Cons x ys)
    have "str_at (m(dst := x)) (src + 1) ys"
    proof (rule str_at_cong)
      show "str_at m (src + 1) ys" using Suc.prems(1) Cons by simp
      show "(m(dst := x)) (src + 1 + of_nat i) = m (src + 1 + of_nat i)" if "i \<le> length ys" for i
        using apart_head [OF Suc.prems(2) [unfolded Cons], of i] that by simp
    qed
    then have "strlcpy_loop (m(dst := x)) (dst + 1) (src + 1) n =
        (dst + 1 + of_nat (min n (length ys)), rep_movsb (m(dst := x)) (dst + 1) (src + 1) (min n (length ys)))"
      by (rule Suc.IH) (use Suc.prems(2,3) Cons in \<open>simp_all add: apart_tail\<close>)
    then show ?thesis
      using Suc.prems(1) Cons by (simp add: algebra_simps)
  qed
qed simp

text \<open>
  \<open>strlcpy\<close> never writes outside \<open>size\<close> bytes of the destination and always leaves a string there: the longest
  prefix of the source that fits, of the length it returns. (Source and destination must not overlap.)
\<close>

theorem strlcpy_correct:
  assumes x: "str_at m src xs" and ap: "apart dst src (Suc (length xs))" and sz: "0 < sz" and len: "length xs < 4294967296"
  shows "\<exists>m'. strlcpy m dst src sz = (of_nat (min (unat sz - 1) (length xs)), m') \<and>
     str_at m' dst (take (unat sz - 1) xs) \<and> (\<forall>a. sz \<le> a - dst \<longrightarrow> m' a = m a)"
proof -
  let ?k = "min (unat sz - 1) (length xs)"
  have s: "unat (sz - 1) = unat sz - 1" "0 < unat sz"
    using sz by (simp_all add: unat_minus_one unat_gt_0 word_greater_zero_iff)
  have k: "?k < 4294967296" "?k < unat sz" "?k \<le> length xs" using len s(2) by auto
  have "rep_movsb m dst src ?k = copied m dst src ?k"
    unfolding copied_def using k(1,3) ap by (intro ext rep_movsb_eq) (auto simp: apart_def)
  then have run: "strlcpy m dst src sz = (of_nat ?k, (copied m dst src ?k)(dst + of_nat ?k := 0))"
    using sz s k strlcpy_loop_str [OF x ap, of "unat sz - 1"] unat_less_32 [of sz] by (simp add: strlcpy_def Let_def)
  let ?m = "(copied m dst src ?k)(dst + of_nat ?k := 0)"
  have "str_at ?m dst (take ?k xs)"
    using x k(3,1) by (rule copied_prefix_str)
  moreover have "take ?k xs = take (unat sz - 1) xs" by (simp add: min_def)
  moreover have "?m a = m a" if "sz \<le> a - dst" for a
  proof -
    have "unat sz \<le> unat (a - dst)" using that by (simp add: word_le_nat_alt)
    moreover have "unat (of_nat ?k :: u32) = ?k" using k(1) by (rule off_of_nat)
    then have "unat (dst + of_nat ?k - dst) = ?k" by simp
    ultimately show ?thesis using k(2) by (auto simp: copied_def)
  qed
  ultimately show ?thesis using run by auto
qed

theorem strlcpy_correct_witness:
  "\<exists>m'. strlcpy ((\<lambda>_. 0)(0x200 := 0x61, 0x201 := 0x62, 0x202 := 0x63)) 0x100 0x200 3 = (2, m') \<and> str_at m' 0x100 [0x61, 0x62]"
proof -
  let ?m = "(\<lambda>_. 0 :: u8)(0x200 := 0x61, 0x201 := 0x62, 0x202 := 0x63) :: bytes" and ?xs = "[0x61, 0x62, 0x63 :: u8]"
  have "apart 0x100 0x200 (Suc (length ?xs))"
    by (auto simp: apart_def less_Suc_eq)
  then have "\<exists>m'. strlcpy ?m 0x100 0x200 3 = (of_nat (min (unat (3 :: u32) - 1) (length ?xs)), m') \<and>
     str_at m' 0x100 (take (unat (3 :: u32) - 1) ?xs) \<and> (\<forall>a. 3 \<le> a - 0x100 \<longrightarrow> m' a = ?m a)"
    by (intro strlcpy_correct) simp_all
  moreover have "min (unat (3 :: u32) - 1) (length ?xs) = 2" "take (unat (3 :: u32) - 1) ?xs = [0x61, 0x62]" by simp_all
  ultimately show ?thesis by auto
qed

subsection \<open>Comparing strings\<close>

fun str_diff :: "u8 list \<Rightarrow> u8 list \<Rightarrow> int" where
  "str_diff [] [] = 0"
| "str_diff [] (y # ys) = - uint y"
| "str_diff (x # xs) [] = uint x"
| "str_diff (x # xs) (y # ys) = (if x = y then str_diff xs ys else byte_diff x y)"

lemma strcmp_str: "str_at m p xs \<Longrightarrow> str_at m q ys \<Longrightarrow> strcmp m p q = Some (str_diff xs ys)"
proof (induction xs ys arbitrary: p q rule: str_diff.induct)
  case 1
  then show ?case by (subst strcmp.simps) (simp add: byte_diff_def)
next
  case (2 y ys)
  then show ?case by (subst strcmp.simps) (simp add: byte_diff_def)
next
  case (3 x xs)
  then show ?case by (subst strcmp.simps) (auto simp: byte_diff_def)
next
  case (4 x xs y ys)
  then show ?case by (subst strcmp.simps) auto
qed

lemma byte_diff_sign: "byte_diff x y = 0 \<longleftrightarrow> x = y" "byte_diff x y < 0 \<longleftrightarrow> x < y"
  by (simp_all add: byte_diff_def word_less_def word_uint_eq_iff)

lemma str_diff_sign:
  assumes "0 \<notin> set xs" "0 \<notin> set ys"
  shows "str_diff xs ys = 0 \<longleftrightarrow> xs = ys" "str_diff xs ys < 0 \<longleftrightarrow> (xs, ys) \<in> lexord {(a, b). a < b}"
  using assms
proof (induction xs ys rule: str_diff.induct)
  case (2 y ys)
  { case 1 then show ?case by (auto simp: word_uint_eq_iff) }
  { case 2 then have "0 < uint y" by (metis list.set_intros(1) order_le_less uint_0_iff uint_ge_0) then show ?case by simp }
next
  case (3 x xs)
  { case 1 then show ?case by (auto simp: word_uint_eq_iff) }
  { case 2 then show ?case using uint_ge_0 [of x] by simp }
next
  case (4 x xs y ys)
  { case 1 then show ?case using 4 by (auto simp: byte_diff_sign) }
  { case 2 then show ?case using 4 by (auto simp: byte_diff_sign) }
qed simp_all

text \<open>
  \<open>strcmp\<close> of two strings returns, with the sign of its result, their lexicographic order as sequences of unsigned
  bytes.
\<close>

theorem strcmp_correct:
  assumes "str_at m p xs" "str_at m q ys"
  shows "\<exists>r. strcmp m p q = Some r \<and> (r = 0 \<longleftrightarrow> xs = ys) \<and> (r < 0 \<longleftrightarrow> (xs, ys) \<in> lexord {(a, b). a < b})"
  using strcmp_str [OF assms] str_diff_sign [of xs ys] assms by (auto simp: str_at_def)

theorem strcmp_correct_witness:
  "\<exists>r. strcmp ((\<lambda>_. 0)(0x100 := 0x61, 0x200 := 0x61, 0x201 := 0xE9)) 0x100 0x200 = Some r \<and> r < 0"
proof -
  let ?m = "(\<lambda>_. 0 :: u8)(0x100 := 0x61, 0x200 := 0x61, 0x201 := 0xE9) :: bytes"
  have "str_at ?m 0x100 [0x61]" "str_at ?m 0x200 [0x61, 0xE9]" by simp_all
  from strcmp_correct [OF this] show ?thesis by auto
qed

subsection \<open>Reading numbers\<close>

text \<open>The decimal numeral of a number, most significant digit first.\<close>

fun decimal :: "nat \<Rightarrow> u8 list" where
  "decimal n = (if n < 10 then [of_nat (48 + n)] else decimal (n div 10) @ [of_nat (48 + n mod 10)])"

declare decimal.simps [simp del]

lemma digit_value_decimal: "d < 10 \<Longrightarrow> digit_value (of_nat (48 + d)) = Some (int d)"
proof -
  assume d: "d < 10"
  have "uint (of_nat (48 + d) :: u8) = int (48 + d)" using d by (simp add: uint_nat unat_of_nat del: of_nat_add)
  then show ?thesis using d by (simp add: digit_value_def word_le_def del: of_nat_add)
qed

fun digits_value :: "u32 \<Rightarrow> u8 list \<Rightarrow> u32" where
  "digits_value v [] = v"
| "digits_value v (c # cs) = digits_value (v * 10 + word_of_int (the (digit_value c))) cs"

lemma digits_value_append: "digits_value v (xs @ ys) = digits_value (digits_value v xs) ys"
  by (induction xs arbitrary: v) simp_all

lemma strtol_digits_str:
  assumes "str_at m p xs" "\<forall>c \<in> set xs. \<exists>d < 10. digit_value c = Some d"
  shows "strtol_digits m p v 10 = Some (digits_value v xs, p + of_nat (length xs))"
  using assms
proof (induction xs arbitrary: p v)
  case Nil
  then show ?case by (subst strtol_digits.simps) (simp add: digit_value_def)
next
  case (Cons x xs)
  then obtain d where d: "digit_value x = Some d" "d < 10" by auto
  show ?case
    using Cons d by (subst strtol_digits.simps) (simp add: algebra_simps)
qed

lemma decimal_digits: "\<forall>c \<in> set (decimal n). \<exists>d < 10. digit_value c = Some d"
proof (induction n rule: decimal.induct)
  case (1 n)
  then show ?case
    using digit_value_decimal [of n] digit_value_decimal [of "n mod 10"]
    by (subst decimal.simps) (auto simp: algebra_simps)
qed

lemma decimal_value: "digits_value 0 (decimal n) = of_nat n"
proof (induction n rule: decimal.induct)
  case (1 n)
  show ?case
  proof (cases "n < 10")
    case True
    then show ?thesis using digit_value_decimal [of n] by (subst decimal.simps) (simp del: of_nat_add)
  next
    case False
    have "digits_value 0 (decimal n) = of_nat (n div 10) * 10 + word_of_int (int (n mod 10))"
      using False 1 digit_value_decimal [of "n mod 10"]
      by (subst decimal.simps) (simp add: digits_value_append del: of_nat_add)
    also have "\<dots> = of_nat (n div 10 * 10 + n mod 10)" by (simp only: of_nat_add of_nat_mult of_int_of_nat_eq of_nat_numeral)
    finally show ?thesis by (simp only: div_mult_mod_eq)
  qed
qed

lemma decimal_head: "\<exists>c cs. decimal n = c # cs \<and> (\<exists>d < 10. digit_value c = Some d)"
  using decimal_digits [of n] by (cases "decimal n") (auto simp: decimal.simps [of n] split: if_splits)

lemma strtol_spec:
  assumes "str_at m p (replicate k 0x20 @ (if neg then [0x2D] else []) @ decimal n)" "n < 2147483648"
  shows "strtol m p 10 = Some (if neg then - of_nat n else of_nat n,
     p + of_nat (k + (if neg then 1 else 0) + length (decimal n)))"
  using assms(1)
proof (induction k arbitrary: p)
  case 0
  obtain c cs d where c: "decimal n = c # cs" "digit_value c = Some d" "d < 10" using decimal_head by blast
  have nb: "c \<noteq> 0x20" "c \<noteq> 0x09" "c \<noteq> 0x2B" "c \<noteq> 0x2D" using c(2) by (auto simp: digit_value_def)
  have ws: "skip_blanks m p = Some p"
    using 0 c(1) nb by (subst skip_blanks.simps) (auto split: if_splits)
  have D: "str_at m q (decimal n) \<Longrightarrow> strtol_digits m q 0 10 = Some (of_nat n, q + of_nat (length (decimal n)))" for q
    using strtol_digits_str [OF _ decimal_digits, of m q n 0] by (simp add: decimal_value)
  show ?case
  proof (cases neg)
    case True
    then show ?thesis using 0 D [of "p + 1"] by (simp add: strtol_def ws algebra_simps)
  next
    case False
    then have "m p = c" using 0 c(1) by simp
    with False show ?thesis using 0 D [of p] nb by (simp add: strtol_def ws)
  qed
next
  case (Suc k)
  then have b: "m p = 0x20" "str_at m (p + 1) (replicate k 0x20 @ (if neg then [0x2D] else []) @ decimal n)" by simp_all
  have "skip_blanks m p = skip_blanks m (p + 1)" using b(1) by (subst skip_blanks.simps) simp
  then have "strtol m p 10 = strtol m (p + 1) 10" by (simp add: strtol_def)
  then show ?case using Suc.IH [OF b(2)] by (simp add: algebra_simps)
qed

text \<open>
  \<open>strtol\<close> reads back every decimal numeral that fits a \<open>long\<close>, with an optional minus sign and leading blanks,
  and reports the end of the numeral.
\<close>

theorem strtol_decimal:
  assumes "str_at m p (replicate k 0x20 @ (if neg then [0x2D] else []) @ decimal n)" "n < 2147483648"
  shows "strtol m p 10 = Some (if neg then - of_nat n else of_nat n,
     p + of_nat (k + (if neg then 1 else 0) + length (decimal n)))"
  using assms by (rule strtol_spec)

theorem strtol_decimal_witness:
  "strtol ((\<lambda>_. 0)(0x100 := 0x20, 0x101 := 0x2D, 0x102 := 0x34, 0x103 := 0x32)) 0x100 10 = Some (- 42, 0x104)"
proof -
  have "decimal 42 = [0x34, 0x32]" by (simp add: decimal.simps)
  then show ?thesis
    using strtol_decimal [of "(\<lambda>_. 0)(0x100 := 0x20, 0x101 := 0x2D, 0x102 := 0x34, 0x103 := 0x32)" "0x100" 1 True 42] by simp
qed

end
