(* ===== verification/JosPrintfmt.thy ===== *)
theory JosPrintfmt
  imports JosString JosState
begin

text \<open>
  The formatted output of lib/printfmt.c. The state \<open>'s\<close> is whatever the character sink \<open>putch\<close> changes; \<open>rd\<close>
  reads memory in it, so that a sink that writes memory while the format is read is modelled as it is. A
  \<open>va_list\<close> is the list of 32-bit words on the stack; a missing argument, a division by the base zero and a loop
  that never ends are \<open>None\<close>.
\<close>

type_synonym u64 = "64 word"
type_synonym va_list = "u32 list"

subsection \<open>The code\<close>

definition chars :: "string \<Rightarrow> u32 list" where
  "chars = map of_char"

definition MAXERROR :: nat where "MAXERROR = 16"

definition error_string :: "nat \<Rightarrow> string option" where
  "error_string err =
     (if err = 1 then Some ''unspecified error''
      else if err = 2 then Some ''bad environment''
      else if err = 3 then Some ''invalid parameter''
      else if err = 4 then Some ''out of memory''
      else if err = 5 then Some ''out of environments''
      else if err = 6 then Some ''segmentation fault''
      else if err = 7 then Some ''env is not recving''
      else if err = 8 then Some ''unexpected end of file''
      else if err = 9 then Some ''no free space on disk''
      else if err = 10 then Some ''too many files are open''
      else if err = 11 then Some ''file or block not found''
      else if err = 12 then Some ''invalid path''
      else if err = 13 then Some ''file already exists''
      else if err = 14 then Some ''file is not a valid executable''
      else if err = 15 then Some ''operation not supported''
      else None)"

definition putchars :: "(u32 \<Rightarrow> 's \<Rightarrow> 's) \<Rightarrow> u32 list \<Rightarrow> 's \<Rightarrow> 's" where
  "putchars putch cs st = fold putch cs st"

text \<open>\<open>printnum\<close>; the decrement of the smallest \<open>int\<close> is an overflow, which is undefined: \<open>None\<close>. So is one in \<open>read_width\<close>.\<close>

partial_function (option) printnum :: "(u32 \<Rightarrow> 's \<Rightarrow> 's) \<Rightarrow> u64 \<Rightarrow> u64 \<Rightarrow> int \<Rightarrow> u32 \<Rightarrow> 's \<Rightarrow> 's option" where
  "printnum putch num base width padc st =
     (if base = 0 \<or> width \<le> - 2147483648 then None
      else do {
        st \<leftarrow> (if num \<ge> base then printnum putch (num div base) base (width - 1) padc st
               else Some (putchars putch (replicate (nat (width - 1)) padc) st));
        Some (putch (chars ''0123456789abcdef'' ! unat (num mod base)) st)
      })"

definition getuint :: "va_list \<Rightarrow> nat \<Rightarrow> (u64 \<times> va_list) option" where
  "getuint ap lflag =
     (if lflag \<ge> 2 then (case ap of lo # hi # ap \<Rightarrow> Some (ucast lo OR push_bit 32 (ucast hi), ap) | _ \<Rightarrow> None)
      else case ap of x # ap \<Rightarrow> Some (ucast x, ap) | _ \<Rightarrow> None)"

definition getint :: "va_list \<Rightarrow> nat \<Rightarrow> (u64 \<times> va_list) option" where
  "getint ap lflag =
     (if lflag \<ge> 2 then (case ap of lo # hi # ap \<Rightarrow> Some (ucast lo OR push_bit 32 (ucast hi), ap) | _ \<Rightarrow> None)
      else case ap of x # ap \<Rightarrow> Some (scast x, ap) | _ \<Rightarrow> None)"

definition va_arg :: "va_list \<Rightarrow> (u32 \<times> va_list) option" where
  "va_arg ap = (case ap of x # ap \<Rightarrow> Some (x, ap) | [] \<Rightarrow> None)"

text \<open>\<open>%d\<close>: the sign and the magnitude of a signed number.\<close>

definition print_signed :: "(u32 \<Rightarrow> 's \<Rightarrow> 's) \<Rightarrow> u64 \<Rightarrow> int \<Rightarrow> u32 \<Rightarrow> 's \<Rightarrow> 's option" where
  "print_signed putch num width padc st =
     (if sint num < 0 then printnum putch (- num) 10 width padc (putch (of_char CHR ''-'') st)
      else printnum putch num 10 width padc st)"

text \<open>\<open>%e\<close>: \<open>printfmt\<close> with the formats \<open>"error %d"\<close> and \<open>"%s"\<close>. \<open>error_string[err]\<close> with a negative index
  (for the one number whose negation overflows) is out of bounds.\<close>

definition print_error :: "(u32 \<Rightarrow> 's \<Rightarrow> 's) \<Rightarrow> u32 \<Rightarrow> 's \<Rightarrow> 's option" where
  "print_error putch err st =
     (let err = (if sint err < 0 then - err else err)
      in if sint err < 0 then None
         else if sint err \<ge> int MAXERROR then print_signed putch (scast err) (-1) (of_char CHR '' '') (putchars putch (chars ''error '') st)
         else case error_string (unat err) of
             None \<Rightarrow> print_signed putch (scast err) (-1) (of_char CHR '' '') (putchars putch (chars ''error '') st)
           | Some p \<Rightarrow> Some (putchars putch (chars p) st))"

record spec =
  sp_padc :: u32
  sp_width :: int
  sp_precision :: int
  sp_lflag :: nat
  sp_altflag :: bool

definition spec0 :: spec where
  "spec0 = \<lparr>sp_padc = of_char CHR '' '', sp_width = -1, sp_precision = -1, sp_lflag = 0, sp_altflag = False\<rparr>"

text \<open>The loop that reads a decimal width; \<open>ch\<close> is the current digit, \<open>fmt\<close> points behind it.\<close>

partial_function (option) read_width :: "bytes \<Rightarrow> u32 \<Rightarrow> u8 \<Rightarrow> int \<Rightarrow> (int \<times> u32) option" where
  "read_width m fmt ch precision =
     (let precision = precision * 10 + uint ch - 48; ch = m fmt
      in if precision > 2147483647 then None
         else if ch < 48 \<or> ch > 57 then Some (precision, fmt) else read_width m (fmt + 1) ch precision)"

definition process_precision :: "spec \<Rightarrow> int \<Rightarrow> spec" where
  "process_precision sp p =
     (if sp_width sp < 0 then sp\<lparr>sp_width := p, sp_precision := -1\<rparr> else sp\<lparr>sp_precision := p\<rparr>)"

text \<open>The middle loop of \<open>%s\<close>: it returns the remaining width.\<close>

partial_function (option) print_str ::
    "('s \<Rightarrow> bytes) \<Rightarrow> (u32 \<Rightarrow> 's \<Rightarrow> 's) \<Rightarrow> bool \<Rightarrow> u32 \<Rightarrow> int \<Rightarrow> int \<Rightarrow> 's \<Rightarrow> (int \<times> 's) option" where
  "print_str rd putch altflag p precision width st =
     (let ch = scast (rd st p) :: u32
      in if ch \<noteq> 0 \<and> (precision < 0 \<or> precision - 1 \<ge> 0)
         then print_str rd putch altflag (p + 1) (if precision < 0 then precision else precision - 1) (width - 1)
           (if altflag \<and> (sint ch < 32 \<or> sint ch > 126) then putch (of_char CHR ''?'') st else putch ch st)
         else Some (width, st))"

text \<open>A null pointer prints as the constant \<open>"(null)"\<close>: reading it is reading a memory that has this constant at 0.\<close>

definition null_string :: bytes where
  "null_string a = (if unat a < 6 then of_char (''(null)'' ! unat a) else 0)"

definition print_string :: "('s \<Rightarrow> bytes) \<Rightarrow> (u32 \<Rightarrow> 's \<Rightarrow> 's) \<Rightarrow> spec \<Rightarrow> u32 \<Rightarrow> 's \<Rightarrow> 's option" where
  "print_string rd putch sp p st = do {
     let rd = (if p = 0 then (\<lambda>_. null_string) else rd);
     let (w, st) = (if sp_width sp > 0 \<and> sp_padc sp \<noteq> of_char CHR ''-''
       then let w = sp_width sp - sint (strnlen (rd st) p (word_of_int (sp_precision sp)))
            in (min w 0, putchars putch (replicate (nat w) (sp_padc sp)) st)
       else (sp_width sp, st));
     (w, st) \<leftarrow> print_str rd putch (sp_altflag sp) p (sp_precision sp) w st;
     Some (putchars putch (replicate (nat w) (of_char CHR '' '')) st)
   }"

text \<open>The loop of the default case, which goes back behind the last percent sign.\<close>

partial_function (option) back_to_percent :: "bytes \<Rightarrow> u32 \<Rightarrow> u32 option" where
  "back_to_percent m fmt = (if m (fmt - 1) \<noteq> 37 then back_to_percent m (fmt - 1) else Some fmt)"

text \<open>The conversions that end a directive.\<close>

definition directive ::
    "('s \<Rightarrow> bytes) \<Rightarrow> (u32 \<Rightarrow> 's \<Rightarrow> 's) \<Rightarrow> u8 \<Rightarrow> spec \<Rightarrow> u32 \<Rightarrow> va_list \<Rightarrow> 's \<Rightarrow> (u32 \<times> va_list \<times> 's) option" where
  "directive rd putch ch sp fmt ap st =
     (if ch = 99 then do { (x, ap) \<leftarrow> va_arg ap; Some (fmt, ap, putch x st) }
      else if ch = 101 then do { (err, ap) \<leftarrow> va_arg ap; st \<leftarrow> print_error putch err st; Some (fmt, ap, st) }
      else if ch = 115 then do { (p, ap) \<leftarrow> va_arg ap; st \<leftarrow> print_string rd putch sp p st; Some (fmt, ap, st) }
      else if ch = 100 then do {
        (num, ap) \<leftarrow> getint ap (sp_lflag sp);
        st \<leftarrow> print_signed putch num (sp_width sp) (sp_padc sp) st;
        Some (fmt, ap, st)
      }
      else if ch = 117 then do {
        (num, ap) \<leftarrow> getuint ap (sp_lflag sp);
        st \<leftarrow> printnum putch num 10 (sp_width sp) (sp_padc sp) st;
        Some (fmt, ap, st)
      }
      else if ch = 111 then do {
        (num, ap) \<leftarrow> getuint ap (sp_lflag sp);
        st \<leftarrow> printnum putch num 8 (sp_width sp) (sp_padc sp) st;
        Some (fmt, ap, st)
      }
      else if ch = 112 then do {
        (x, ap) \<leftarrow> va_arg ap;
        st \<leftarrow> printnum putch (ucast x) 16 (sp_width sp) (sp_padc sp) (putchars putch (chars ''0x'') st);
        Some (fmt, ap, st)
      }
      else if ch = 120 then do {
        (num, ap) \<leftarrow> getuint ap (sp_lflag sp);
        st \<leftarrow> printnum putch num 16 (sp_width sp) (sp_padc sp) st;
        Some (fmt, ap, st)
      }
      else if ch = 37 then Some (fmt, ap, putch (ucast ch) st)
      else do {
        let st = putch 37 st;
        fmt \<leftarrow> back_to_percent (rd st) (fmt - 1);
        Some (fmt, ap, st)
      })"

text \<open>From the label \<open>reswitch\<close>: flags, width and precision up to the conversion character.\<close>

partial_function (option) read_spec :: "bytes \<Rightarrow> spec \<Rightarrow> u32 \<Rightarrow> va_list \<Rightarrow> (u8 \<times> spec \<times> u32 \<times> va_list) option" where
  "read_spec m sp fmt ap =
     (if m fmt = 45 then read_spec m (sp\<lparr>sp_padc := 45\<rparr>) (fmt + 1) ap
      else if m fmt = 48 then read_spec m (sp\<lparr>sp_padc := 48\<rparr>) (fmt + 1) ap
      else if 49 \<le> m fmt \<and> m fmt \<le> 57 then do {
        (p, fmt) \<leftarrow> read_width m (fmt + 1) (m fmt) 0;
        read_spec m (process_precision sp p) fmt ap
      }
      else if m fmt = 42 then do {
        (x, ap) \<leftarrow> va_arg ap;
        read_spec m (process_precision sp (sint x)) (fmt + 1) ap
      }
      else if m fmt = 46 then read_spec m (if sp_width sp < 0 then sp\<lparr>sp_width := 0\<rparr> else sp) (fmt + 1) ap
      else if m fmt = 35 then read_spec m (sp\<lparr>sp_altflag := True\<rparr>) (fmt + 1) ap
      else if m fmt = 108 then read_spec m (sp\<lparr>sp_lflag := sp_lflag sp + 1\<rparr>) (fmt + 1) ap
      else Some (m fmt, sp, fmt + 1, ap))"

partial_function (option) vprintfmt ::
    "('s \<Rightarrow> bytes) \<Rightarrow> (u32 \<Rightarrow> 's \<Rightarrow> 's) \<Rightarrow> u32 \<Rightarrow> va_list \<Rightarrow> 's \<Rightarrow> 's option" where
  "vprintfmt rd putch fmt ap st =
     (if rd st fmt \<noteq> 37
      then if rd st fmt = 0 then Some st else vprintfmt rd putch (fmt + 1) ap (putch (ucast (rd st fmt)) st)
      else do {
        (ch, sp, fmt, ap) \<leftarrow> read_spec (rd st) spec0 (fmt + 1) ap;
        (fmt, ap, st) \<leftarrow> directive rd putch ch sp fmt ap st;
        vprintfmt rd putch fmt ap st
      })"

subsection \<open>Printing to a buffer and to the console\<close>

record sprintbuf =
  sb_buf :: u32
  sb_ebuf :: u32
  sb_cnt :: u32

definition sprintputch :: "u32 \<Rightarrow> bytes \<times> sprintbuf \<Rightarrow> bytes \<times> sprintbuf" where
  "sprintputch ch = (\<lambda>(m, b).
     let b = b\<lparr>sb_cnt := sb_cnt b + 1\<rparr>
     in if sb_buf b < sb_ebuf b then (m(sb_buf b := ucast ch), b\<lparr>sb_buf := sb_buf b + 1\<rparr>) else (m, b))"

definition vsnprintf :: "bytes \<Rightarrow> u32 \<Rightarrow> u32 \<Rightarrow> u32 \<Rightarrow> va_list \<Rightarrow> (int \<times> bytes) option" where
  "vsnprintf m buf n fmt ap =
     (if buf = 0 \<or> sint n < 1 then Some (- E_INVAL, m)
      else do {
        (m, b) \<leftarrow> vprintfmt fst sprintputch fmt ap (m, \<lparr>sb_buf = buf, sb_ebuf = buf + n - 1, sb_cnt = 0\<rparr>);
        Some (sint (sb_cnt b), m(sb_buf b := 0))
      })"

text \<open>
  \<open>putch\<close> and \<open>vcprintf\<close> of kern/printf.c. The statement \<open>*cnt++\<close> advances the local pointer, not the counter
  it points to. The console is the list of characters given to \<open>cputchar\<close>.
\<close>

definition kputch :: "u32 \<Rightarrow> u32 list \<times> int \<Rightarrow> u32 list \<times> int" where
  "kputch ch = (\<lambda>(out, cnt). (out @ [ch], cnt))"

definition vcprintf :: "bytes \<Rightarrow> u32 \<Rightarrow> va_list \<Rightarrow> (int \<times> u32 list) option" where
  "vcprintf m fmt ap = do {
     (out, cnt) \<leftarrow> vprintfmt (\<lambda>_. m) kputch fmt ap ([], 0);
     Some (cnt, out)
   }"

text \<open>\<open>putch\<close> and \<open>vcprintf\<close> of lib/printf.c, with the list of the strings given to \<open>sys_cputs\<close>.\<close>

record printbuf =
  pb_idx :: nat
  pb_cnt :: u32
  pb_buf :: "u8 list"

definition uputch :: "u32 \<Rightarrow> printbuf \<times> u8 list list \<Rightarrow> printbuf \<times> u8 list list" where
  "uputch ch = (\<lambda>(b, calls).
     let b = b\<lparr>pb_buf := (pb_buf b)[pb_idx b := ucast ch], pb_idx := pb_idx b + 1\<rparr>;
         (b, calls) = (if pb_idx b = 256 - 1 then (b\<lparr>pb_idx := 0\<rparr>, calls @ [take (pb_idx b) (pb_buf b)]) else (b, calls))
     in (b\<lparr>pb_cnt := pb_cnt b + 1\<rparr>, calls))"

definition uvcprintf :: "bytes \<Rightarrow> u8 list \<Rightarrow> u32 \<Rightarrow> va_list \<Rightarrow> (u32 \<times> u8 list list) option" where
  "uvcprintf m junk fmt ap = do {
     (b, calls) \<leftarrow> vprintfmt (\<lambda>_. m) uputch fmt ap (\<lparr>pb_idx = 0, pb_cnt = 0, pb_buf = junk\<rparr>, []);
     Some (pb_cnt b, calls @ [take (pb_idx b) (pb_buf b)])
   }"

subsection \<open>Numbers\<close>

definition digit :: "nat \<Rightarrow> u32" where
  "digit d = chars ''0123456789abcdef'' ! d"

fun numeral_of :: "nat \<Rightarrow> nat \<Rightarrow> u32 list" where
  "numeral_of b n = (if n < b \<or> b < 2 then [digit n] else numeral_of b (n div b) @ [digit (n mod b)])"

declare numeral_of.simps [simp del]

lemma putchars_append: "putchars putch (xs @ ys) st = putchars putch ys (putchars putch xs st)"
  by (simp add: putchars_def)

lemma putchars_single [simp]: "putchars putch [c] st = putch c st" "putchars putch [] st = st"
  by (simp_all add: putchars_def)

lemma numeral_of_length:
  assumes "2 \<le> b" "n < b ^ Suc k"
  shows "length (numeral_of b n) \<le> Suc k"
  using assms(2)
proof (induction k arbitrary: n)
  case 0
  then show ?case by (subst numeral_of.simps) simp
next
  case (Suc k)
  have "n div b < b ^ Suc k" using Suc.prems assms(1) by (simp add: div_less_iff_less_mult mult.commute)
  from Suc.IH [OF this] show ?case by (subst numeral_of.simps) simp
qed

text \<open>A decimal numeral of a 64-bit number has at most 20 digits.\<close>

lemma decimal_length: "length (numeral_of 10 (unat (n :: u64))) \<le> 20"
proof -
  have "unat n < 10 ^ Suc 19" using unsigned_less [where 'a = nat, of n] by simp
  then show ?thesis using numeral_of_length [of 10 "unat n" 19] by simp
qed

lemma printnum_numeral:
  assumes "2 \<le> unat base" "int (length (numeral_of (unat base) (unat num))) \<le> width + 2147483648"
  shows "printnum putch num base width padc st =
     Some (putchars putch (replicate (nat (width - int (length (numeral_of (unat base) (unat num))))) padc @
       numeral_of (unat base) (unat num)) st)"
  using assms(2)
proof (induction "unat num" arbitrary: num width rule: less_induct)
  case less
  have b: "base \<noteq> 0" using assms(1) by auto
  show ?case
  proof (cases "num \<ge> base")
    case False
    then have "unat num < unat base" by (simp add: word_le_nat_alt not_le)
    moreover from this have "unat (num mod base) = unat num" by (simp add: unat_mod)
    moreover from calculation have "\<not> width \<le> - 2147483648" using less.prems by (subst (asm) numeral_of.simps) simp
    ultimately show ?thesis
      using b False by (subst printnum.simps, subst (1 2) numeral_of.simps) (simp add: putchars_append digit_def)
  next
    case True
    then have le: "unat base \<le> unat num" by (simp add: word_le_nat_alt)
    then have "unat num div unat base < unat num" using assms(1) by (intro div_less_dividend) auto
    then have "unat (num div base) < unat num" by (simp add: unat_div)
    note IH = less.hyps [OF this, of "width - 1"]
    have n: "numeral_of (unat base) (unat num) = numeral_of (unat base) (unat (num div base)) @ [digit (unat (num mod base))]"
      using le assms(1) by (subst numeral_of.simps) (simp add: unat_div unat_mod)
    moreover have "\<not> width \<le> - 2147483648" using less.prems n by simp
    moreover have "int (length (numeral_of (unat base) (unat (num div base)))) \<le> width - 1 + 2147483648" using less.prems n by simp
    ultimately show ?thesis
      using b True by (subst printnum.simps) (simp add: IH n putchars_append digit_def algebra_simps)
  qed
qed

lemma digit_decimal: "d < 10 \<Longrightarrow> ucast (digit d) = (of_nat (48 + d) :: u8)"
proof -
  assume "d < 10"
  then have "d = 0 \<or> d = 1 \<or> d = 2 \<or> d = 3 \<or> d = 4 \<or> d = 5 \<or> d = 6 \<or> d = 7 \<or> d = 8 \<or> d = 9" by arith
  then show ?thesis
    by (elim disjE) (simp_all add: digit_def chars_def of_char_def)
qed

lemma numeral_decimal: "map ucast (numeral_of 10 n) = decimal n"
proof (induction n rule: decimal.induct)
  case (1 n)
  then show ?case
    using digit_decimal [of n] digit_decimal [of "n mod 10"]
    by (subst numeral_of.simps, subst decimal.simps) (simp del: of_nat_add)
qed

text \<open>
  What \<open>printnum\<close> prints for a number in decimal, put in memory as a string, is read back by \<open>strtol\<close> as the
  same number; and \<open>printnum\<close> pads on the left up to the width, never cutting digits.
\<close>

theorem printnum_strtol:
  assumes "n < 2147483648" "- 2147483628 \<le> width"
  shows "\<exists>out pad. printnum (\<lambda>c out. out @ [c]) (of_nat n) 10 width padc [] = Some (pad @ out) \<and>
     pad = replicate (nat width - length out) padc \<and>
     (\<forall>m p. str_at m p (map ucast out) \<longrightarrow> strtol m p 10 = Some (of_nat n, p + of_nat (length out)))"
proof -
  have u: "unat (of_nat n :: u64) = n" "unat (10 :: u64) = 10"
    using assms(1) by (simp_all add: unat_of_nat)
  let ?out = "numeral_of 10 n"
  have snoc: "putchars (\<lambda>c out. out @ [c]) cs st = st @ cs" for cs st :: "u32 list"
    unfolding putchars_def by (induction cs arbitrary: st) simp_all
  have "nat (width - int (length ?out)) = nat width - length ?out" by simp
  then have "printnum (\<lambda>c out. out @ [c]) (of_nat n) 10 width padc [] = Some (replicate (nat width - length ?out) padc @ ?out)"
    using printnum_numeral [of "10 :: u64" "of_nat n" width "\<lambda>c out. out @ [c]" padc "[]"] u decimal_length [of "of_nat n"] assms(2) by (simp add: snoc)
  moreover have "strtol m p 10 = Some (of_nat n, p + of_nat (length ?out))" if "str_at m p (map ucast ?out)" for m p
  proof -
    have "length ?out = length (decimal n)" by (simp flip: numeral_decimal)
    moreover have "str_at m p (replicate 0 0x20 @ (if False then [0x2D] else []) @ decimal n)"
      using that by (simp add: numeral_decimal)
    ultimately show ?thesis
      using strtol_spec [of m p 0 False n] assms(1) by simp
  qed
  ultimately show ?thesis by blast
qed

theorem printnum_strtol_witness:
  "\<exists>out pad. printnum (\<lambda>c out. out @ [c]) 42 10 5 0x20 [] = Some (pad @ out) \<and> pad = replicate (5 - length out) 0x20"
  using printnum_strtol [of 42 5 "0x20"] by auto

text \<open>\<open>cprintf("%d", x)\<close> of the kernel.\<close>

lemma vprintfmt_d:
  assumes "str_at m fmt [37, 100]"
  shows "vprintfmt (\<lambda>_. m) putch fmt [x] st = print_signed putch (scast x) (-1) (of_char CHR '' '') st"
proof -
  define a where "a = fmt + 1"
  define b where "b = a + 1"
  have m: "m fmt = 37" "m a = 100" "m b = 0" using assms by (simp_all add: a_def b_def)
  have sp: "read_spec m spec0 a [x] = Some (100, spec0, b, [x])"
    by (subst read_spec.simps) (simp add: m(2) b_def)
  have e: "vprintfmt (\<lambda>_. m) putch b [] s = Some s" for s
    by (subst vprintfmt.simps) (simp add: m(3))
  have d: "directive (\<lambda>_. m) putch 100 spec0 b [x] st =
      map_option (\<lambda>st. (b, [], st)) (print_signed putch (scast x) (-1) (of_char CHR '' '') st)"
    by (cases "print_signed putch (scast x) (-1) (of_char CHR '' '') st") (simp_all add: directive_def getint_def spec0_def)
  have "vprintfmt (\<lambda>_. m) putch fmt [x] st = do { (fmt, ap, st) \<leftarrow> directive (\<lambda>_. m) putch 100 spec0 b [x] st; vprintfmt (\<lambda>_. m) putch fmt ap st }"
    by (subst vprintfmt.simps) (simp add: m(1) sp flip: a_def)
  then show ?thesis
    unfolding d by (cases "print_signed putch (scast x) (-1) (of_char CHR '' '') st") (simp_all add: e)
qed

text \<open>
  The kernel's \<open>cprintf("%d", x)\<close> prints a minus sign for a negative argument and the decimal numeral of its
  magnitude, for every 32-bit argument, the smallest one included. It returns 0 instead of the number of characters printed.
\<close>

theorem vcprintf_decimal:
  assumes "str_at m fmt [37, 100]"
  shows "vcprintf m fmt [x] = Some (0, (if sint x < 0 then [45] else []) @ numeral_of 10 (nat \<bar>sint x\<bar>))"
proof -
  have u: "unat (10 :: u64) = 10" by simp
  have out: "putchars kputch cs (out, c) = (out @ cs, c)" for cs out c
    unfolding putchars_def by (induction cs arbitrary: out) (simp_all add: kputch_def)
  define k where "k = sint x"
  have x: "scast x = (word_of_int k :: u64)" unfolding k_def by (rule scast_eq)
  have r: "- 2147483648 \<le> k" "k < 2147483648"
    unfolding k_def using sint_greater_eq [of x] sint_less [of x] by simp_all
  have s: "sint (scast x :: u64) = k"
    unfolding x int_word_sint using r by simp
  have pos: "unat (scast x :: u64) = nat k" if "0 \<le> k"
    unfolding x using r that by (simp add: unsigned_of_int take_bit_int_eq_self)
  have neg: "unat (- scast x :: u64) = nat (- k)" if "k < 0"
  proof -
    have "- scast x = (word_of_int (- k) :: u64)" unfolding x by simp
    then have "unat (- scast x :: u64) = unat (word_of_int (- k) :: u64)" by (simp only:)
    also have "\<dots> = nat (- k)" using r that by (simp add: unsigned_of_int take_bit_int_eq_self del: of_int_minus)
    finally show ?thesis .
  qed
  have P: "printnum kputch n 10 (-1) c (out, 0) = Some (out @ numeral_of 10 (unat n), 0)" for n c out
    using printnum_numeral [of "10 :: u64" n "-1" kputch c "(out, 0)"] decimal_length [of n] by (simp add: out)
  have v: "vcprintf m fmt [x] = do { (out, cnt) \<leftarrow> print_signed kputch (scast x) (-1) (of_char CHR '' '') ([], 0); Some (cnt, out) }"
    unfolding vcprintf_def vprintfmt_d [OF assms] ..
  show ?thesis
  proof (cases "k < 0")
    case True
    have "print_signed kputch (scast x) (-1) (of_char CHR '' '') ([], 0) = Some ([45] @ numeral_of 10 (nat (- k)), 0)"
      unfolding print_signed_def s if_P [OF True] using P [of _ _ "[45]"] neg [OF True] by (simp add: kputch_def)
    then show ?thesis using True by (simp add: v flip: k_def)
  next
    case False
    then have "print_signed kputch (scast x) (-1) (of_char CHR '' '') ([], 0) = Some ([] @ numeral_of 10 (nat k), 0)"
      unfolding print_signed_def s if_not_P [OF False] using P [of _ _ "[]"] pos by simp
    then show ?thesis using False by (simp add: v flip: k_def)
  qed
qed

theorem vcprintf_decimal_witness:
  "vcprintf ((\<lambda>_. 0)(0x100 := 37, 0x101 := 100)) 0x100 [- 12] = Some (0, [45] @ numeral_of 10 12)"
proof -
  have "str_at ((\<lambda>_. 0)(0x100 := 37, 0x101 := 100)) 0x100 [37, 100]" by simp
  from vcprintf_decimal [OF this, of "- 12"] show ?thesis by simp
qed

subsection \<open>Buffered output prints the same characters\<close>

definition ubuf :: "u8 list \<Rightarrow> printbuf \<times> u8 list list" where
  "ubuf junk = (\<lparr>pb_idx = 0, pb_cnt = 0, pb_buf = junk\<rparr>, [])"

text \<open>
  The buffer of the user library's \<open>cprintf\<close>: whatever characters \<open>vprintfmt\<close> sends to \<open>putch\<close>, the index stays
  inside the 256 bytes, every full buffer of 255 characters goes to \<open>sys_cputs\<close> at once, and the strings given to
  \<open>sys_cputs\<close>, including the final flush, are together exactly the characters in order; the counter is their number.
\<close>

theorem uputch_buffers:
  assumes "length junk = 256" "fold uputch cs (ubuf junk) = (b, calls)"
  shows "concat (calls @ [take (pb_idx b) (pb_buf b)]) = map ucast cs \<and> (\<forall>c \<in> set calls. length c = 255) \<and>
     pb_idx b < 255 \<and> length (pb_buf b) = 256 \<and> pb_cnt b = of_nat (length cs)"
  using assms(2)
proof (induction cs arbitrary: b calls rule: rev_induct)
  case Nil
  then show ?case using assms(1) by (auto simp: ubuf_def)
next
  case (snoc c cs)
  obtain b0 calls0 where b0: "fold uputch cs (ubuf junk) = (b0, calls0)" by fastforce
  note IH = snoc.IH [OF b0]
  let ?buf = "(pb_buf b0)[pb_idx b0 := ucast c]"
  have t: "take (Suc (pb_idx b0)) ?buf = take (pb_idx b0) (pb_buf b0) @ [ucast c]"
    using IH by (simp add: take_Suc_conv_app_nth)
  have "uputch c (b0, calls0) = (b, calls)" using snoc.prems b0 by simp
  then show ?case
    using IH t by (auto simp: uputch_def Let_def split: if_splits)
qed

theorem uputch_buffers_witness:
  "\<exists>b calls. fold uputch [72, 105] (ubuf (replicate 256 0)) = (b, calls) \<and> calls = [] \<and> take (pb_idx b) (pb_buf b) = [72, 105]"
proof -
  obtain b calls where f: "fold uputch [72, 105] (ubuf (replicate 256 0)) = (b, calls)" by fastforce
  have "calls = []" using f by (auto simp: uputch_def ubuf_def Let_def)
  then show ?thesis using uputch_buffers [OF _ f] f by simp
qed

end
