(* ===== verification/X6Bio.thy ===== *)
theory X6Bio
  imports CMem
begin

text \<open>
  The buffer cache of xv6: bio.c over the disk driver ide.c, with the sleep locks of sleeplock.c. The doubly linked
  list of buffers through \<open>prev\<close> and \<open>next\<close> is the list \<open>mru\<close> of buffer indices from \<open>head.next\<close> to
  \<open>head.prev\<close>. The model follows one process: a disk request is finished by its interrupt before
  \<open>iderw\<close> returns, and \<open>None\<close> is a panic or a wait for a lock that somebody else holds. \<open>dwrites\<close> records the
  blocks written to the disk in order; a crash keeps the disk as some prefix of them left it. \<open>io_error\<close> says for which
  blocks the disk reports an error (\<open>idewait(1)\<close> is negative) when they are read; the driver then leaves the buffer as
  it is and still marks it valid. The properties are those of a disk without such errors (\<open>disk_ready\<close>).
\<close>

subsection \<open>The code\<close>

definition NBUF :: nat where "NBUF = 30"
definition FSSIZE :: u32 where "FSSIZE = 1000"
definition BSIZE :: u32 where "BSIZE = 512"
definition ROOTDEV :: u32 where "ROOTDEV = 1"

record sleeplock =
  sl_locked :: bool
  sl_pid :: int

record buf =
  b_valid :: bool
  b_dirty :: bool
  b_dev :: u32
  b_blockno :: u32
  b_lock :: sleeplock
  b_refcnt :: u32
  b_data :: bytes

type_synonym blk = "u32 \<times> u32"

record bcache =
  bufs :: "buf list"
  mru :: "nat list"
  disk :: "blk \<Rightarrow> bytes"
  dwrites :: "(blk \<times> bytes) list"
  havedisk1 :: bool
  io_error :: "blk \<Rightarrow> bool"
  mypid :: int

definition upd_buf :: "'a bcache_scheme \<Rightarrow> nat \<Rightarrow> (buf \<Rightarrow> buf) \<Rightarrow> 'a bcache_scheme" where
  "upd_buf s i f = s\<lparr>bufs := (bufs s)[i := f (bufs s ! i)]\<rparr>"

definition initsleeplock :: sleeplock where
  "initsleeplock = \<lparr>sl_locked = False, sl_pid = 0\<rparr>"

definition acquiresleep :: "int \<Rightarrow> sleeplock \<Rightarrow> sleeplock option" where
  "acquiresleep pid lk = (if sl_locked lk then None else Some \<lparr>sl_locked = True, sl_pid = pid\<rparr>)"

definition releasesleep :: "sleeplock \<Rightarrow> sleeplock" where
  "releasesleep lk = \<lparr>sl_locked = False, sl_pid = 0\<rparr>"

definition holdingsleep :: "int \<Rightarrow> sleeplock \<Rightarrow> bool" where
  "holdingsleep pid lk \<longleftrightarrow> sl_locked lk \<and> sl_pid lk = pid"

text \<open>\<open>memmove\<close>, \<open>insl\<close> and \<open>outsl\<close> between two block buffers transfer the first \<open>BSIZE\<close> bytes.\<close>

definition block_copy :: "bytes \<Rightarrow> bytes \<Rightarrow> bytes" where
  "block_copy dst src = (\<lambda>a. if a < BSIZE then src a else dst a)"

text \<open>\<open>binit\<close> puts every buffer in front of the list. The buffers themselves are zero at boot.\<close>

definition zero_buf :: buf where
  "zero_buf = \<lparr>b_valid = False, b_dirty = False, b_dev = 0, b_blockno = 0, b_lock = initsleeplock, b_refcnt = 0, b_data = (\<lambda>_. 0)\<rparr>"

definition binit :: "'a bcache_scheme \<Rightarrow> 'a bcache_scheme" where
  "binit s = fold (\<lambda>b s. upd_buf (s\<lparr>mru := b # mru s\<rparr>) b (\<lambda>v. v\<lparr>b_lock := initsleeplock\<rparr>)) [0..<NBUF] (s\<lparr>mru := []\<rparr>)"

text \<open>\<open>iderw\<close> with \<open>idestart\<close> and \<open>ideintr\<close>: the request, its start, and the interrupt that ends it.\<close>

definition sector :: "buf \<Rightarrow> blk" where
  "sector b = (and (b_dev b) 1, b_blockno b)"

definition iderw :: "'a bcache_scheme \<Rightarrow> nat \<Rightarrow> 'a bcache_scheme option" where
  "iderw s i =
     (let b = bufs s ! i; x = sector b
      in if \<not> holdingsleep (mypid s) (b_lock b) then None
         else if b_valid b \<and> \<not> b_dirty b then None
         else if b_dev b \<noteq> 0 \<and> \<not> havedisk1 s then None
         else if b_blockno b \<ge> FSSIZE then None
         else if b_dirty b
         then let d = block_copy (disk s x) (b_data b)
              in Some (upd_buf (s\<lparr>disk := (disk s)(x := d), dwrites := dwrites s @ [(x, d)]\<rparr>) i
                   (\<lambda>b. b\<lparr>b_valid := True, b_dirty := False\<rparr>))
         else Some (upd_buf s i (\<lambda>b. b\<lparr>b_data := (if io_error s x then b_data b else block_copy (b_data b) (disk s x)),
           b_valid := True, b_dirty := False\<rparr>)))"

definition bget :: "'a bcache_scheme \<Rightarrow> u32 \<Rightarrow> u32 \<Rightarrow> (nat \<times> 'a bcache_scheme) option" where
  "bget s dev blockno =
     (case find (\<lambda>i. b_dev (bufs s ! i) = dev \<and> b_blockno (bufs s ! i) = blockno) (mru s) of
        Some i \<Rightarrow> do {
          lk \<leftarrow> acquiresleep (mypid s) (b_lock (bufs s ! i));
          Some (i, upd_buf s i (\<lambda>b. b\<lparr>b_refcnt := b_refcnt b + 1, b_lock := lk\<rparr>))
        }
      | None \<Rightarrow>
          (case find (\<lambda>i. b_refcnt (bufs s ! i) = 0 \<and> \<not> b_dirty (bufs s ! i)) (rev (mru s)) of
             Some i \<Rightarrow> do {
               lk \<leftarrow> acquiresleep (mypid s) (b_lock (bufs s ! i));
               Some (i, upd_buf s i (\<lambda>b. b\<lparr>b_dev := dev, b_blockno := blockno, b_valid := False, b_dirty := False,
                 b_refcnt := 1, b_lock := lk\<rparr>))
             }
           | None \<Rightarrow> None))"

definition bread :: "'a bcache_scheme \<Rightarrow> u32 \<Rightarrow> u32 \<Rightarrow> (nat \<times> 'a bcache_scheme) option" where
  "bread s dev blockno = do {
     (i, s) \<leftarrow> bget s dev blockno;
     s \<leftarrow> (if \<not> b_valid (bufs s ! i) then iderw s i else Some s);
     Some (i, s)
   }"

definition bwrite :: "'a bcache_scheme \<Rightarrow> nat \<Rightarrow> 'a bcache_scheme option" where
  "bwrite s i =
     (if \<not> holdingsleep (mypid s) (b_lock (bufs s ! i)) then None
      else iderw (upd_buf s i (\<lambda>b. b\<lparr>b_dirty := True\<rparr>)) i)"

definition brelse :: "'a bcache_scheme \<Rightarrow> nat \<Rightarrow> 'a bcache_scheme option" where
  "brelse s i =
     (if \<not> holdingsleep (mypid s) (b_lock (bufs s ! i)) then None
      else let s = upd_buf s i (\<lambda>b. b\<lparr>b_lock := releasesleep (b_lock b), b_refcnt := b_refcnt b - 1\<rparr>)
           in Some (if b_refcnt (bufs s ! i) = 0 then s\<lparr>mru := i # remove1 i (mru s)\<rparr> else s))"

subsection \<open>The cache invariant\<close>

text \<open>
  Every buffer is on the list once; a buffer is either still unused or holds a block of the root device, no two the
  same block; a valid clean buffer agrees with the disk; a dirty buffer is valid. \<open>H\<close> is the set of buffers the
  process holds: these are locked by it and referenced once, all others are free.
\<close>

definition wf_block :: "bytes \<Rightarrow> bool" where
  "wf_block d \<longleftrightarrow> (\<forall>a \<ge> BSIZE. d a = 0)"

definition buf_ok :: "(blk \<Rightarrow> bytes) \<Rightarrow> buf \<Rightarrow> bool" where
  "buf_ok d b \<longleftrightarrow> (b_dev b = 0 \<and> \<not> b_valid b \<or> b_dev b = ROOTDEV) \<and> (b_dirty b \<longrightarrow> b_valid b) \<and>
     (b_valid b \<and> \<not> b_dirty b \<longrightarrow> b_data b = d (ROOTDEV, b_blockno b)) \<and> wf_block (b_data b) \<and> (b_valid b \<longrightarrow> b_blockno b < FSSIZE)"

definition lock_ok :: "int \<Rightarrow> bool \<Rightarrow> buf \<Rightarrow> bool" where
  "lock_ok pid h b \<longleftrightarrow> sl_locked (b_lock b) = h \<and> (h \<longrightarrow> sl_pid (b_lock b) = pid) \<and> b_refcnt b = (if h then 1 else 0) \<and> (h \<longrightarrow> b_valid b)"

definition holds_block :: "'a bcache_scheme \<Rightarrow> nat \<Rightarrow> u32 \<Rightarrow> bool" where
  "holds_block s i n \<longleftrightarrow> i < NBUF \<and> b_dev (bufs s ! i) = ROOTDEV \<and> b_blockno (bufs s ! i) = n"

definition disk_ready :: "'a bcache_scheme \<Rightarrow> bool" where
  "disk_ready s \<longleftrightarrow> havedisk1 s \<and> (\<forall>x. \<not> io_error s x)"

definition cst :: "'a bcache_scheme \<Rightarrow> nat set \<Rightarrow> bool" where
  "cst s H \<longleftrightarrow> length (bufs s) = NBUF \<and> distinct (mru s) \<and> set (mru s) = {..<NBUF} \<and> disk_ready s \<and> H \<subseteq> {..<NBUF} \<and>
     (\<forall>n. wf_block (disk s (ROOTDEV, n))) \<and>
     (\<forall>i < NBUF. buf_ok (disk s) (bufs s ! i) \<and> lock_ok (mypid s) (i \<in> H) (bufs s ! i)) \<and>
     (\<forall>i j n. holds_block s i n \<longrightarrow> holds_block s j n \<longrightarrow> i = j)"

text \<open>
  The abstract state of the cache: what the disk holds, what a read returns (the cached copy if there is one, the
  disk otherwise), and which blocks are pinned because their cached copy is newer.
\<close>

definition rdisk :: "'a bcache_scheme \<Rightarrow> u32 \<Rightarrow> bytes" where
  "rdisk s n = disk s (ROOTDEV, n)"

definition rview :: "'a bcache_scheme \<Rightarrow> u32 \<Rightarrow> bytes" where
  "rview s n =
     (case find (\<lambda>i. b_dev (bufs s ! i) = ROOTDEV \<and> b_blockno (bufs s ! i) = n \<and> b_valid (bufs s ! i)) [0..<NBUF] of
        Some i \<Rightarrow> b_data (bufs s ! i)
      | None \<Rightarrow> disk s (ROOTDEV, n))"

definition pinned :: "'a bcache_scheme \<Rightarrow> nat set" where
  "pinned s = {i. i < NBUF \<and> b_dirty (bufs s ! i)}"

definition rdirty :: "'a bcache_scheme \<Rightarrow> u32 set" where
  "rdirty s = (\<lambda>i. b_blockno (bufs s ! i)) ` pinned s"

definition bframe :: "'a bcache_scheme \<Rightarrow> 'a bcache_scheme \<Rightarrow> bool" where
  "bframe s s' \<longleftrightarrow> s' = s\<lparr>bufs := bufs s', mru := mru s', disk := disk s', dwrites := dwrites s'\<rparr>"

named_theorems bio_simps

lemmas cst_defs = cst_def buf_ok_def lock_ok_def

lemma upd_buf_simps [simp]:
  "bufs (upd_buf s i f) = (bufs s)[i := f (bufs s ! i)]" "mru (upd_buf s i f) = mru s" "disk (upd_buf s i f) = disk s"
  "dwrites (upd_buf s i f) = dwrites s" "havedisk1 (upd_buf s i f) = havedisk1 s" "mypid (upd_buf s i f) = mypid s"
  "io_error (upd_buf s i f) = io_error s" "disk_ready (upd_buf s i f) = disk_ready s" "bcache.more (upd_buf s i f) = bcache.more s"
  by (simp_all add: upd_buf_def disk_ready_def)

lemma disk_ready_upd [simp]: "disk_ready (s\<lparr>bufs := x\<rparr>) = disk_ready s" "disk_ready (s\<lparr>mru := y\<rparr>) = disk_ready s" "disk_ready (s\<lparr>disk := d\<rparr>) = disk_ready s"
  "disk_ready (s\<lparr>dwrites := w\<rparr>) = disk_ready s"
  by (simp_all add: disk_ready_def)

lemma bframeI: "havedisk1 s' = havedisk1 s \<Longrightarrow> io_error s' = io_error s \<Longrightarrow> mypid s' = mypid s \<Longrightarrow> bcache.more s' = bcache.more s \<Longrightarrow> bframe s s'"
  by (simp add: bframe_def)

lemma bframeD: "bframe s s' \<Longrightarrow> havedisk1 s' = havedisk1 s \<and> io_error s' = io_error s \<and> disk_ready s' = disk_ready s \<and> mypid s' = mypid s \<and> bcache.more s' = bcache.more s"
  by (auto simp: bframe_def disk_ready_def dest: arg_cong [of _ _ havedisk1] arg_cong [of _ _ io_error] arg_cong [of _ _ mypid] arg_cong [of _ _ bcache.more])

lemma bframe_refl [simp]: "bframe s s"
  by (simp add: bframe_def)

lemma bframe_trans [trans]: "bframe s t \<Longrightarrow> bframe t u \<Longrightarrow> bframe s u"
  by (rule bframeI) (auto dest!: bframeD)

lemma block_copy_wf: "wf_block dst \<Longrightarrow> wf_block src \<Longrightarrow> block_copy dst src = src"
  by (auto simp: block_copy_def wf_block_def fun_eq_iff)

lemma root_and_1 [simp]: "and ROOTDEV 1 = ROOTDEV" "ROOTDEV \<noteq> 0"
  by (simp_all add: ROOTDEV_def)

lemma rview_cached:
  assumes "cst s H" "holds_block s i n"
  shows "rview s n = (if b_valid (bufs s ! i) then b_data (bufs s ! i) else rdisk s n)"
proof -
  have u: "j = i" if "j < NBUF" "b_dev (bufs s ! j) = ROOTDEV" "b_blockno (bufs s ! j) = n" for j
    using that assms by (auto simp: cst_def holds_block_def)
  show ?thesis
  proof (cases "find (\<lambda>i. b_dev (bufs s ! i) = ROOTDEV \<and> b_blockno (bufs s ! i) = n \<and> b_valid (bufs s ! i)) [0..<NBUF]")
    case None
    then have "\<not> b_valid (bufs s ! i)" using assms(2) by (auto simp: find_None_iff holds_block_def)
    with None show ?thesis by (simp add: rview_def rdisk_def)
  next
    case (Some j)
    then have "j < NBUF" "b_dev (bufs s ! j) = ROOTDEV" "b_blockno (bufs s ! j) = n" "b_valid (bufs s ! j)"
      by (auto simp: find_Some_iff)
    with u [of j] Some show ?thesis by (simp add: rview_def)
  qed
qed

lemma rview_uncached:
  assumes "\<And>i. \<not> holds_block s i n"
  shows "rview s n = rdisk s n"
proof -
  have "find (\<lambda>i. b_dev (bufs s ! i) = ROOTDEV \<and> b_blockno (bufs s ! i) = n \<and> b_valid (bufs s ! i)) [0..<NBUF] = None"
    using assms by (auto simp: find_None_iff holds_block_def)
  then show ?thesis by (simp add: rview_def rdisk_def)
qed

lemma rview_wf: "cst s H \<Longrightarrow> wf_block (rview s n)"
proof (cases "\<exists>i. holds_block s i n")
  case True
  assume c: "cst s H"
  from True obtain i where i: "holds_block s i n" ..
  with c show ?thesis by (auto simp: rview_cached [OF c i] rdisk_def cst_defs holds_block_def)
next
  case False
  assume "cst s H"
  with False show ?thesis by (auto simp: rview_uncached rdisk_def cst_def)
qed

text \<open>Taking hold of a buffer for a block changes neither what reads return nor the disk.\<close>

definition takes :: "'a bcache_scheme \<Rightarrow> nat set \<Rightarrow> u32 \<Rightarrow> nat \<Rightarrow> 'a bcache_scheme \<Rightarrow> bool" where
  "takes s H n i s' \<longleftrightarrow> i < NBUF \<and> i \<notin> H \<and> cst s' (insert i H) \<and> holds_block s' i n \<and> b_data (bufs s' ! i) = rview s n \<and>
     bframe s s' \<and> disk s' = disk s \<and> dwrites s' = dwrites s \<and> rview s' = rview s \<and> rdirty s' = rdirty s \<and>
     pinned s' = pinned s \<and> (\<forall>j. j \<noteq> i \<longrightarrow> bufs s' ! j = bufs s ! j)"

lemma takesI:
  fixes s :: "'a bcache_scheme"
  assumes c: "cst s H" and i: "i < NBUF" "i \<notin> H" and n: "n < FSSIZE"
    and b: "b_dev b = ROOTDEV" "b_blockno b = n" "b_valid b" "b_data b = rview s n" "b_dirty b = b_dirty (bufs s ! i)"
      "b_refcnt b = 1" "b_lock b = \<lparr>sl_locked = True, sl_pid = mypid s\<rparr>"
    and o: "holds_block s i n \<or> (\<forall>j. \<not> holds_block s j n) \<and> \<not> b_dirty (bufs s ! i)"
    and s': "bufs s' = (bufs s)[i := b]" "mru s' = mru s" "disk s' = disk s" "dwrites s' = dwrites s" "bframe s s'"
  shows "takes s H n i s'"
proof -
  have l: "length (bufs s) = NBUF" "length (bufs s') = NBUF" using c s' by (auto simp: cst_def)
  have hb: "holds_block s' j m \<longleftrightarrow> (if j = i then m = n else holds_block s j m)" for j m
    using i b l by (auto simp: holds_block_def s' nth_list_update)
  have uniq: "holds_block s j m \<Longrightarrow> holds_block s k m \<Longrightarrow> j = k" for j k m using c by (auto simp: cst_def)
  have di: "b_data b = rdisk s n" if "\<not> b_dirty b"
    using o
  proof
    assume "holds_block s i n"
    then show ?thesis using c that b i rview_cached [OF c, of i n]
      by (auto simp: cst_defs rdisk_def holds_block_def split: if_splits)
  next
    assume "(\<forall>j. \<not> holds_block s j n) \<and> \<not> b_dirty (bufs s ! i)"
    then show ?thesis using b rview_uncached by metis
  qed
  have cst': "cst s' (insert i H)"
    unfolding cst_def
  proof (intro conjI allI impI)
    fix j assume j: "j < NBUF"
    show "buf_ok (disk s') (bufs s' ! j)"
      using c i j b n di rview_wf [OF c] by (cases "j = i") (auto simp: cst_defs s' rdisk_def)
    show "lock_ok (mypid s') (j \<in> insert i H) (bufs s' ! j)"
      using c i j b bframeD [OF s'(5)] by (cases "j = i") (auto simp: cst_defs s')
  next
    fix j k m assume "holds_block s' j m" "holds_block s' k m"
    then show "j = k" using o uniq by (auto simp: hb split: if_splits)
  qed (use c i l s' bframeD [OF s'(5)] in \<open>auto simp: cst_def\<close>)
  have pin: "pinned s' = pinned s" using i l b by (auto simp: pinned_def s' nth_list_update)
  have rv: "rview s' m = rview s m" for m
  proof (cases "m = n")
    case True
    then show ?thesis using rview_cached [OF cst', of i n] i l b hb by (simp add: s')
  next
    case False
    show ?thesis
    proof (cases "\<exists>j. holds_block s' j m")
      case True
      then obtain j where j: "holds_block s' j m" by blast
      with False have "j \<noteq> i" "holds_block s j m" using hb by (auto split: if_splits)
      then show ?thesis using rview_cached [OF cst' j] rview_cached [OF c, of j m] by (simp add: s' rdisk_def)
    next
      case none: False
      show ?thesis
      proof (cases "holds_block s i m")
        case True
        with False o have "\<not> b_dirty (bufs s ! i)" by (auto simp: holds_block_def)
        then have "rview s m = rdisk s m" using rview_cached [OF c True] c i True by (auto simp: cst_defs rdisk_def holds_block_def)
        then show ?thesis using none rview_uncached [of s' m] by (simp add: rdisk_def s')
      next
        case False
        then have "\<not> holds_block s j m" for j using none hb by metis
        then show ?thesis using none rview_uncached [of s' m] rview_uncached [of s m] by (simp add: rdisk_def s')
      qed
    qed
  qed
  have "b_blockno (bufs s' ! j) = b_blockno (bufs s ! j)" if "j \<in> pinned s" for j
    using that o b i l by (cases "j = i") (auto simp: pinned_def s' holds_block_def)
  then have "rdirty s' = rdirty s" by (simp add: rdirty_def pin cong: image_cong)
  then show ?thesis using i cst' hb b l s' pin rv by (simp add: takes_def fun_eq_iff)
qed

lemma find_mru:
  assumes "cst s H"
  shows "(\<exists>i. find P (mru s) = Some i \<and> i < NBUF \<and> P i) \<or> find P (mru s) = None \<and> (\<forall>i < NBUF. \<not> P i)"
    and "(\<exists>i. find P (rev (mru s)) = Some i \<and> i < NBUF \<and> P i) \<or> find P (rev (mru s)) = None \<and> (\<forall>i < NBUF. \<not> P i)"
proof -
  have m: "set (mru s) = {..<NBUF}" using assms by (simp add: cst_def)
  have f: "(\<exists>i. find P xs = Some i \<and> i < NBUF \<and> P i) \<or> find P xs = None \<and> (\<forall>i < NBUF. \<not> P i)" if "set xs = {..<NBUF}" for xs
  proof (cases "find P xs")
    case None
    then show ?thesis using that by (auto simp: find_None_iff)
  next
    case (Some i)
    then have "i \<in> set xs" "P i" by (auto simp: find_Some_iff)
    with Some that show ?thesis by auto
  qed
  show "(\<exists>i. find P (mru s) = Some i \<and> i < NBUF \<and> P i) \<or> find P (mru s) = None \<and> (\<forall>i < NBUF. \<not> P i)"
    and "(\<exists>i. find P (rev (mru s)) = Some i \<and> i < NBUF \<and> P i) \<or> find P (rev (mru s)) = None \<and> (\<forall>i < NBUF. \<not> P i)"
    using f [of "mru s"] f [of "rev (mru s)"] m by auto
qed

lemma bread_cached:
  fixes s :: "'a bcache_scheme"
  assumes c: "cst s H" and n: "n < FSSIZE" and f: "\<And>i. i \<in> H \<Longrightarrow> \<not> holds_block s i n" and i: "holds_block s i n"
  shows "\<exists>i s'. bread s ROOTDEV n = Some (i, s') \<and> takes s H n i s'"
proof -
  have iN: "i < NBUF" "i \<notin> H" using i f by (auto simp: holds_block_def)
  have u: "j = i" if "j < NBUF" "b_dev (bufs s ! j) = ROOTDEV" "b_blockno (bufs s ! j) = n" for j
    using that c i unfolding cst_def holds_block_def by blast
  have fi: "find (\<lambda>i. b_dev (bufs s ! i) = ROOTDEV \<and> b_blockno (bufs s ! i) = n) (mru s) = Some i"
    using find_mru(1) [OF c, of "\<lambda>i. b_dev (bufs s ! i) = ROOTDEV \<and> b_blockno (bufs s ! i) = n"] u i by (auto simp: holds_block_def)
  have ok: "buf_ok (disk s) (bufs s ! i)" "lock_ok (mypid s) False (bufs s ! i)" "length (bufs s) = NBUF" "havedisk1 s" "\<And>x. \<not> io_error s x"
    "wf_block (disk s (ROOTDEV, n))"
    using c iN by (auto simp: cst_def disk_ready_def)
  let ?lk = "\<lparr>sl_locked = True, sl_pid = mypid s\<rparr>"
  define s1 where "s1 = upd_buf s i (\<lambda>b. b\<lparr>b_refcnt := b_refcnt b + 1, b_lock := ?lk\<rparr>)"
  have g: "bget s ROOTDEV n = Some (i, s1)" using fi ok by (simp add: bget_def acquiresleep_def lock_ok_def s1_def)
  have rv: "rview s n = (if b_valid (bufs s ! i) then b_data (bufs s ! i) else disk s (ROOTDEV, n))"
    using rview_cached [OF c i] by (simp add: rdisk_def)
  show ?thesis
  proof (cases "b_valid (bufs s ! i)")
    case True
    have "takes s H n i s1"
      by (rule takesI [OF c iN n, where b = "(bufs s ! i)\<lparr>b_refcnt := b_refcnt (bufs s ! i) + 1, b_lock := ?lk\<rparr>"])
         (use ok True i rv in \<open>auto simp: s1_def lock_ok_def holds_block_def intro: bframeI\<close>)
    with g True iN ok show ?thesis by (simp add: bread_def s1_def)
  next
    case False
    then have nd: "\<not> b_dirty (bufs s ! i)" using ok by (auto simp: buf_ok_def)
    define s2 where "s2 = upd_buf s1 i (\<lambda>b. b\<lparr>b_data := block_copy (b_data b) (disk s (ROOTDEV, n)), b_valid := True, b_dirty := False\<rparr>)"
    have "iderw s1 i = Some s2"
      using ok i iN False nd n by (simp add: iderw_def s1_def s2_def holdingsleep_def sector_def holds_block_def Let_def not_le)
    moreover have "takes s H n i s2"
      by (rule takesI [OF c iN n, where b = "(bufs s ! i)\<lparr>b_refcnt := b_refcnt (bufs s ! i) + 1, b_lock := ?lk,
            b_data := disk s (ROOTDEV, n), b_valid := True, b_dirty := False\<rparr>"])
         (use ok False i iN rv nd in \<open>auto simp: s1_def s2_def lock_ok_def buf_ok_def holds_block_def block_copy_wf intro: bframeI\<close>)
    ultimately show ?thesis using g False iN ok by (simp add: bread_def s1_def)
  qed
qed

lemma bread_fresh:
  fixes s :: "'a bcache_scheme"
  assumes c: "cst s H" and n: "n < FSSIZE" and f: "\<And>i. \<not> holds_block s i n" and room: "card (H \<union> pinned s) < NBUF"
  shows "\<exists>i s'. bread s ROOTDEV n = Some (i, s') \<and> takes s H n i s'"
proof -
  let ?P = "\<lambda>i. b_refcnt (bufs s ! i) = 0 \<and> \<not> b_dirty (bufs s ! i)"
  have fn: "find (\<lambda>i. b_dev (bufs s ! i) = ROOTDEV \<and> b_blockno (bufs s ! i) = n) (mru s) = None"
    using find_mru(1) [OF c, of "\<lambda>i. b_dev (bufs s ! i) = ROOTDEV \<and> b_blockno (bufs s ! i) = n"] f by (auto simp: holds_block_def)
  have "\<exists>i < NBUF. i \<notin> H \<union> pinned s"
  proof (rule ccontr)
    assume "\<not> ?thesis"
    then have "{..<NBUF} \<subseteq> H \<union> pinned s" by auto
    moreover have "finite (H \<union> pinned s)" using c by (auto simp: cst_def pinned_def intro: finite_subset)
    ultimately have "NBUF \<le> card (H \<union> pinned s)" using card_mono [of "H \<union> pinned s" "{..<NBUF}"] by simp
    with room show False by simp
  qed
  then have ex: "\<exists>i < NBUF. ?P i" using c by (auto simp: cst_defs pinned_def)
  then obtain i where i: "find ?P (rev (mru s)) = Some i" "i < NBUF" "?P i" using find_mru(2) [OF c, of ?P] by blast
  have iH: "i \<notin> H" using c i by (auto simp: cst_defs)
  have ok: "buf_ok (disk s) (bufs s ! i)" "lock_ok (mypid s) False (bufs s ! i)" "length (bufs s) = NBUF" "havedisk1 s" "\<And>x. \<not> io_error s x"
    "wf_block (disk s (ROOTDEV, n))"
    using c i iH by (auto simp: cst_def disk_ready_def)
  let ?lk = "\<lparr>sl_locked = True, sl_pid = mypid s\<rparr>"
  let ?b = "(bufs s ! i)\<lparr>b_dev := ROOTDEV, b_blockno := n, b_valid := False, b_dirty := False, b_refcnt := 1, b_lock := ?lk\<rparr>"
  define s1 where "s1 = upd_buf s i (\<lambda>b. b\<lparr>b_dev := ROOTDEV, b_blockno := n, b_valid := False, b_dirty := False, b_refcnt := 1, b_lock := ?lk\<rparr>)"
  define s2 where "s2 = upd_buf s1 i (\<lambda>b. b\<lparr>b_data := block_copy (b_data b) (disk s (ROOTDEV, n)), b_valid := True, b_dirty := False\<rparr>)"
  have g: "bget s ROOTDEV n = Some (i, s1)" using fn i ok by (simp add: bget_def acquiresleep_def lock_ok_def s1_def)
  have r: "iderw s1 i = Some s2"
    using ok i n by (simp add: iderw_def s1_def s2_def holdingsleep_def sector_def Let_def not_le)
  have "takes s H n i s2"
    by (rule takesI [OF c i(2) iH n, where b = "?b\<lparr>b_data := disk s (ROOTDEV, n), b_valid := True, b_dirty := False\<rparr>"])
       (use ok i f rview_uncached [OF f] in \<open>auto simp: s1_def s2_def buf_ok_def block_copy_wf rdisk_def intro: bframeI\<close>)
  with g r i ok show ?thesis by (simp add: bread_def s1_def)
qed

text \<open>A block is in a buffer or there is a buffer to recycle.\<close>

lemma bread_spec:
  fixes s :: "'a bcache_scheme"
  assumes c: "cst s H" and n: "n < FSSIZE" and f: "\<And>i. i \<in> H \<Longrightarrow> \<not> holds_block s i n"
    and room: "n \<in> rdirty s \<or> card (H \<union> pinned s) < NBUF"
  obtains i s' where "bread s ROOTDEV n = Some (i, s')" "takes s H n i s'"
proof (cases "\<exists>i. holds_block s i n")
  case True
  then show ?thesis using bread_cached [OF c n f] that by blast
next
  case False
  have "n \<notin> rdirty s"
  proof
    assume "n \<in> rdirty s"
    then obtain i where "i < NBUF" "b_dirty (bufs s ! i)" "n = b_blockno (bufs s ! i)" by (auto simp: rdirty_def pinned_def)
    with c have "holds_block s i n" by (auto simp: cst_defs holds_block_def)
    with False show False by blast
  qed
  with False room show ?thesis using bread_fresh [OF c n] that by blast
qed

text \<open>New contents for a held buffer, either written through or pinned in the cache.\<close>

definition puts :: "'a bcache_scheme \<Rightarrow> nat set \<Rightarrow> nat \<Rightarrow> u32 \<Rightarrow> bytes \<Rightarrow> bool \<Rightarrow> 'a bcache_scheme \<Rightarrow> bool" where
  "puts s H i n d q s' \<longleftrightarrow> cst s' H \<and> bframe s s' \<and> rview s' = (rview s)(n := d) \<and>
     rdisk s' = (if q then rdisk s else (rdisk s)(n := d)) \<and>
     rdirty s' = (if q then insert n (rdirty s) else rdirty s - {n}) \<and>
     pinned s' = (if q then insert i (pinned s) else pinned s - {i}) \<and>
     dwrites s' = dwrites s @ (if q then [] else [((ROOTDEV, n), d)]) \<and>
     b_data (bufs s' ! i) = d \<and> (\<forall>j. j \<noteq> i \<longrightarrow> bufs s' ! j = bufs s ! j) \<and> (\<forall>j m. holds_block s' j m = holds_block s j m)"

lemma putsI:
  fixes s :: "'a bcache_scheme"
  assumes c: "cst s H" and i: "i \<in> H" and hi: "holds_block s i n" and d: "wf_block d" and v: "b_valid b"
    and b: "b_dev b = ROOTDEV" "b_blockno b = n" "b_data b = d" "b_dirty b = q" "b_refcnt b = 1" "b_lock b = b_lock (bufs s ! i)"
    and s': "bufs s' = (bufs s)[i := b]" "mru s' = mru s" "disk s' = (if q then disk s else (disk s)((ROOTDEV, n) := d))"
      "dwrites s' = dwrites s @ (if q then [] else [((ROOTDEV, n), d)])" "bframe s s'"
  shows "puts s H i n d q s'"
proof -
  have l: "length (bufs s) = NBUF" "i < NBUF" using c hi by (auto simp: cst_def holds_block_def)
  have hb: "holds_block s' j m = holds_block s j m" for j m
    using l b hi by (auto simp: holds_block_def s' nth_list_update)
  have uniq: "holds_block s j m \<Longrightarrow> holds_block s k m \<Longrightarrow> j = k" for j k m using c by (auto simp: cst_def)
  have ni: "n < FSSIZE" using c i hi l by (auto simp: cst_defs holds_block_def)
  have cst': "cst s' H"
    unfolding cst_def
  proof (intro conjI allI impI)
    fix j assume j: "j < NBUF"
    have "b_blockno (bufs s ! j) \<noteq> n" if "j \<noteq> i" "b_valid (bufs s ! j)"
      using that uniq [of j n i] hi c j by (auto simp: holds_block_def cst_defs)
    then show "buf_ok (disk s') (bufs s' ! j)"
      using c l j b d v ni by (cases "j = i") (auto simp: cst_defs s')
    show "lock_ok (mypid s') (j \<in> H) (bufs s' ! j)"
      using c l i j b v bframeD [OF s'(5)] by (cases "j = i") (auto simp: cst_defs s')
  next
    fix j k m assume "holds_block s' j m" "holds_block s' k m"
    then show "j = k" using uniq hb by auto
  qed (use c d l s' bframeD [OF s'(5)] in \<open>auto simp: cst_def\<close>)
  have pin: "pinned s' = (if q then insert i (pinned s) else pinned s - {i})" using l b by (auto simp: pinned_def s' nth_list_update)
  have bn: "b_blockno (bufs s' ! j) = b_blockno (bufs s ! j)" for j
    using b hi l by (cases "j = i") (auto simp: s' holds_block_def)
  have ino: "(\<lambda>j. b_blockno (bufs s ! j)) ` (pinned s - {i}) = rdirty s - {n}"
  proof -
    have "b_blockno (bufs s ! j) \<noteq> n" if "j \<in> pinned s" "j \<noteq> i" for j
      using that uniq [of j n i] hi c by (auto simp: pinned_def holds_block_def cst_defs)
    then show ?thesis using hi by (auto simp: rdirty_def holds_block_def)
  qed
  have dirty: "rdirty s' = (if q then insert n (rdirty s) else rdirty s - {n})"
    using hi by (simp add: rdirty_def [of s'] pin bn ino) (simp add: rdirty_def holds_block_def)
  have rv: "rview s' m = ((rview s)(n := d)) m" for m
  proof (cases "\<exists>j. holds_block s j m")
    case True
    then obtain j where j: "holds_block s j m" ..
    then have "j = i \<longleftrightarrow> m = n" using hi uniq by (auto simp: holds_block_def)
    then show ?thesis using rview_cached [OF cst', of j m] rview_cached [OF c j] j hb l b v by (auto simp: s' rdisk_def)
  next
    case False
    then have "m \<noteq> n" using hi by blast
    then show ?thesis using False rview_uncached [of s' m] rview_uncached [of s m] hb by (auto simp: s' rdisk_def)
  qed
  show ?thesis unfolding puts_def using cst' hb b l s' pin dirty rv by (auto simp: fun_eq_iff rdisk_def)
qed

lemma put_pinned:
  assumes c: "cst s H" and i: "i \<in> H" "holds_block s i n" and d: "wf_block d"
  shows "puts s H i n d True (upd_buf s i (\<lambda>b. b\<lparr>b_data := d, b_dirty := True\<rparr>))"
  by (rule putsI [OF c i d, where b = "(bufs s ! i)\<lparr>b_data := d, b_dirty := True\<rparr>"])
     (use c i in \<open>auto simp: holds_block_def cst_defs intro: bframeI\<close>)

lemma put_bwrite:
  fixes s :: "'a bcache_scheme"
  assumes c: "cst s H" and i: "i \<in> H" "holds_block s i n" and d: "wf_block d"
  obtains s' where "bwrite (upd_buf s i (\<lambda>b. b\<lparr>b_data := d\<rparr>)) i = Some s'" "puts s H i n d False s'"
proof -
  have l: "length (bufs s) = NBUF" "i < NBUF" using c i by (auto simp: cst_def holds_block_def)
  have ok: "buf_ok (disk s) (bufs s ! i)" "lock_ok (mypid s) True (bufs s ! i)" "havedisk1 s" "wf_block (disk s (ROOTDEV, n))"
    using c i l by (auto simp: cst_def disk_ready_def)
  let ?b = "(bufs s ! i)\<lparr>b_data := d, b_dirty := True, b_valid := True, b_dirty := False\<rparr>"
  let ?s = "s\<lparr>bufs := (bufs s)[i := ?b], disk := (disk s)((ROOTDEV, n) := d), dwrites := dwrites s @ [((ROOTDEV, n), d)]\<rparr>"
  have "bwrite (upd_buf s i (\<lambda>b. b\<lparr>b_data := d\<rparr>)) i = Some ?s"
    using ok l i d
    by (auto simp: bwrite_def iderw_def lock_ok_def buf_ok_def holds_block_def holdingsleep_def sector_def upd_buf_def Let_def
        not_le block_copy_wf)
  moreover have "puts s H i n d False ?s"
    by (rule putsI [OF c i d, where b = ?b]) (use c i ok in \<open>auto simp: holds_block_def lock_ok_def intro: bframeI\<close>)
  ultimately show ?thesis by (rule that)
qed

definition drops :: "'a bcache_scheme \<Rightarrow> nat set \<Rightarrow> nat \<Rightarrow> 'a bcache_scheme \<Rightarrow> bool" where
  "drops s H i s' \<longleftrightarrow> cst s' (H - {i}) \<and> bframe s s' \<and> disk s' = disk s \<and> dwrites s' = dwrites s \<and> rview s' = rview s \<and>
     rdirty s' = rdirty s \<and> pinned s' = pinned s \<and> (\<forall>j. j \<noteq> i \<longrightarrow> bufs s' ! j = bufs s ! j) \<and>
     (\<forall>j m. holds_block s' j m = holds_block s j m)"

lemma brelse_spec:
  fixes s :: "'a bcache_scheme"
  assumes c: "cst s H" and i: "i \<in> H"
  obtains s' where "brelse s i = Some s'" "drops s H i s'"
proof -
  have l: "length (bufs s) = NBUF" "i < NBUF" using c i by (auto simp: cst_def)
  have ok: "lock_ok (mypid s) True (bufs s ! i)" using c i l by (auto simp: cst_def)
  let ?b = "(bufs s ! i)\<lparr>b_lock := releasesleep (b_lock (bufs s ! i)), b_refcnt := b_refcnt (bufs s ! i) - 1\<rparr>"
  let ?s = "s\<lparr>bufs := (bufs s)[i := ?b], mru := i # remove1 i (mru s)\<rparr>"
  have r: "brelse s i = Some ?s" using ok l by (simp add: brelse_def lock_ok_def holdingsleep_def upd_buf_def Let_def)
  have nb: "b_dev (bufs ?s ! j) = b_dev (bufs s ! j)" "b_blockno (bufs ?s ! j) = b_blockno (bufs s ! j)"
    "b_valid (bufs ?s ! j) = b_valid (bufs s ! j)" "b_data (bufs ?s ! j) = b_data (bufs s ! j)"
    "b_dirty (bufs ?s ! j) = b_dirty (bufs s ! j)" for j
    using l by (cases "j = i"; simp)+
  have dk: "disk ?s = disk s" by simp
  have hb: "holds_block ?s j m = holds_block s j m" for j m by (simp only: holds_block_def nb)
  have p: "pinned ?s = pinned s" by (simp only: pinned_def nb)
  have rd: "rdirty ?s = rdirty s" by (simp only: rdirty_def nb p)
  have rv: "rview ?s = rview s" by (rule ext) (simp only: rview_def nb dk)
  have cst': "cst ?s (H - {i})"
    unfolding cst_def
  proof (intro conjI allI impI)
    fix j assume j: "j < NBUF"
    show "buf_ok (disk ?s) (bufs ?s ! j)" using c j unfolding buf_ok_def nb by (auto simp: cst_defs)
    show "lock_ok (mypid ?s) (j \<in> H - {i}) (bufs ?s ! j)"
      using c l i j by (cases "j = i") (auto simp: cst_defs releasesleep_def)
  next
    fix j k m assume "holds_block ?s j m" "holds_block ?s k m"
    then show "j = k" unfolding hb using c by (auto simp: cst_def)
  qed (use c l in \<open>auto simp: cst_def\<close>)
  have "drops s H i ?s" unfolding drops_def using cst' p rd rv hb by (auto intro: bframeI)
  with r show ?thesis by (rule that)
qed

text \<open>After boot the cache is empty.\<close>

definition boot_cache :: "'a bcache_scheme \<Rightarrow> 'a bcache_scheme" where
  "boot_cache s = binit (s\<lparr>bufs := replicate NBUF zero_buf, dwrites := []\<rparr>)"

lemma binit_fold:
  "fold (\<lambda>b s. upd_buf (s\<lparr>mru := b # mru s\<rparr>) b (\<lambda>v. v\<lparr>b_lock := initsleeplock\<rparr>)) xs s =
     s\<lparr>mru := rev xs @ mru s, bufs := fold (\<lambda>b bs. bs[b := (bs ! b)\<lparr>b_lock := initsleeplock\<rparr>]) xs (bufs s)\<rparr>"
  by (induction xs arbitrary: s) (simp_all add: upd_buf_def)

lemma fold_zero: "set xs \<subseteq> {..<NBUF} \<Longrightarrow>
    fold (\<lambda>b bs. bs[b := (bs ! b)\<lparr>b_lock := initsleeplock\<rparr>]) xs (replicate NBUF zero_buf) = replicate NBUF zero_buf"
proof (induction xs)
  case (Cons x xs)
  then have "(replicate NBUF zero_buf)[x := (replicate NBUF zero_buf ! x)\<lparr>b_lock := initsleeplock\<rparr>] = replicate NBUF zero_buf"
    by (intro nth_equalityI) (auto simp: zero_buf_def nth_list_update)
  with Cons show ?case by simp
qed simp

lemma boot_cache_eq:
  "boot_cache s = s\<lparr>bufs := replicate NBUF zero_buf, mru := rev [0..<NBUF], dwrites := []\<rparr>"
proof -
  have "fold (\<lambda>b bs. bs[b := (bs ! b)\<lparr>b_lock := initsleeplock\<rparr>]) [0..<NBUF] (replicate NBUF zero_buf) = replicate NBUF zero_buf"
    by (rule fold_zero) auto
  then show ?thesis by (simp add: boot_cache_def binit_def binit_fold)
qed

lemma boot_cache_ok:
  assumes "disk_ready s" "\<And>n. wf_block (disk s (ROOTDEV, n))"
  shows "cst (boot_cache s) {}" "rview (boot_cache s) = rdisk s" "rdirty (boot_cache s) = {}" "pinned (boot_cache s) = {}"
proof -
  have nh: "\<not> holds_block (boot_cache s) i n" for i n by (auto simp: boot_cache_eq holds_block_def zero_buf_def ROOTDEV_def)
  show "cst (boot_cache s) {}"
    using assms nh unfolding cst_def
    by (auto simp: boot_cache_eq buf_ok_def lock_ok_def zero_buf_def wf_block_def initsleeplock_def)
  show "rview (boot_cache s) = rdisk s"
    using rview_uncached [of "boot_cache s"] nh by (auto simp: rdisk_def boot_cache_eq)
  show "pinned (boot_cache s) = {}" by (auto simp: pinned_def boot_cache_eq zero_buf_def)
  then show "rdirty (boot_cache s) = {}" by (simp add: rdirty_def)
qed

end
