(* ===== verification/X6Log.thy ===== *)
theory X6Log
  imports X6Bio
begin

text \<open>
  The write-ahead log of xv6 (log.c) over the buffer cache, and the superblock reader it starts from (\<open>readsb\<close> of
  fs.c). The state extends that of the cache by \<open>struct log\<close>. A wait in \<open>begin_op\<close> is the value \<open>None\<close>. The header
  of the log is the first block of the log area, an integer \<open>n\<close> followed by \<open>n\<close> block numbers.
\<close>

subsection \<open>The code\<close>

definition MAXOPBLOCKS :: int where "MAXOPBLOCKS = 10"
definition LOGSIZE :: int where "LOGSIZE = MAXOPBLOCKS * 3"

record logst = bcache +
  l_start :: u32
  l_size :: int
  outstanding :: int
  committing :: bool
  l_dev :: u32
  lh_n :: int
  lh_block :: "u32 list"

record superblock =
  sb_size :: u32
  sb_nblocks :: u32
  sb_ninodes :: u32
  sb_nlog :: u32
  sb_logstart :: u32
  sb_inodestart :: u32
  sb_bmapstart :: u32

definition superblock_of :: "bytes \<Rightarrow> superblock" where
  "superblock_of d = \<lparr>sb_size = load32 d 0, sb_nblocks = load32 d 4, sb_ninodes = load32 d 8, sb_nlog = load32 d 12,
     sb_logstart = load32 d 16, sb_inodestart = load32 d 20, sb_bmapstart = load32 d 24\<rparr>"

definition readsb :: "'a bcache_scheme \<Rightarrow> u32 \<Rightarrow> (superblock \<times> 'a bcache_scheme) option" where
  "readsb s dev = do {
     (i, s) \<leftarrow> bread s dev 1;
     s' \<leftarrow> brelse s i;
     Some (superblock_of (b_data (bufs s ! i)), s')
   }"

definition install_step :: "nat \<Rightarrow> 'a logst_scheme \<Rightarrow> 'a logst_scheme option" where
  "install_step tail s = do {
     (l, s) \<leftarrow> bread s (l_dev s) (l_start s + of_nat tail + 1);
     (d, s) \<leftarrow> bread s (l_dev s) (lh_block s ! tail);
     s \<leftarrow> bwrite (upd_buf s d (\<lambda>b. b\<lparr>b_data := block_copy (b_data b) (b_data (bufs s ! l))\<rparr>)) d;
     s \<leftarrow> brelse s l;
     brelse s d
   }"

definition install_trans :: "'a logst_scheme \<Rightarrow> 'a logst_scheme option" where
  "install_trans s = fold_opt install_step [0..<nat (lh_n s)] s"

text \<open>A header that counts more than \<open>LOGSIZE\<close> blocks would be copied past the end of \<open>log.lh.block\<close>.\<close>

definition read_head :: "'a logst_scheme \<Rightarrow> 'a logst_scheme option" where
  "read_head s = do {
     (i, s) \<leftarrow> bread s (l_dev s) (l_start s);
     let lh = b_data (bufs s ! i);
     let n = sint (load32 lh 0);
     s \<leftarrow> (if n > LOGSIZE then None
            else Some (s\<lparr>lh_n := n, lh_block := fold (\<lambda>i bs. bs[i := load32 lh (4 + 4 * of_nat i)]) [0..<nat n] (lh_block s)\<rparr>));
     brelse s i
   }"

definition head_put :: "bytes \<Rightarrow> int \<Rightarrow> u32 list \<Rightarrow> bytes" where
  "head_put hb n bs = fold (\<lambda>i hb. store32 hb (4 + 4 * of_nat i) (bs ! i)) [0..<nat n] (store32 hb 0 (word_of_int n))"

definition write_head :: "'a logst_scheme \<Rightarrow> 'a logst_scheme option" where
  "write_head s = do {
     (i, s) \<leftarrow> bread s (l_dev s) (l_start s);
     s \<leftarrow> bwrite (upd_buf s i (\<lambda>b. b\<lparr>b_data := head_put (b_data b) (lh_n s) (lh_block s)\<rparr>)) i;
     brelse s i
   }"

definition recover_from_log :: "'a logst_scheme \<Rightarrow> 'a logst_scheme option" where
  "recover_from_log s = do {
     s \<leftarrow> read_head s;
     s \<leftarrow> install_trans s;
     write_head (s\<lparr>lh_n := 0\<rparr>)
   }"

definition initlog :: "'a logst_scheme \<Rightarrow> u32 \<Rightarrow> 'a logst_scheme option" where
  "initlog s dev =
     (if 4 * (1 + LOGSIZE) \<ge> uint BSIZE then None
      else do {
        (sb, s) \<leftarrow> readsb s dev;
        recover_from_log (s\<lparr>l_start := sb_logstart sb, l_size := sint (sb_nlog sb), l_dev := dev\<rparr>)
      })"

definition begin_op :: "'a logst_scheme \<Rightarrow> 'a logst_scheme option" where
  "begin_op s =
     (if committing s then None
      else if lh_n s + (outstanding s + 1) * MAXOPBLOCKS > LOGSIZE then None
      else Some (s\<lparr>outstanding := outstanding s + 1\<rparr>))"

definition write_log_step :: "nat \<Rightarrow> 'a logst_scheme \<Rightarrow> 'a logst_scheme option" where
  "write_log_step tail s = do {
     (t, s) \<leftarrow> bread s (l_dev s) (l_start s + of_nat tail + 1);
     (f, s) \<leftarrow> bread s (l_dev s) (lh_block s ! tail);
     s \<leftarrow> bwrite (upd_buf s t (\<lambda>b. b\<lparr>b_data := block_copy (b_data b) (b_data (bufs s ! f))\<rparr>)) t;
     s \<leftarrow> brelse s f;
     brelse s t
   }"

definition write_log :: "'a logst_scheme \<Rightarrow> 'a logst_scheme option" where
  "write_log s = fold_opt write_log_step [0..<nat (lh_n s)] s"

definition commit :: "'a logst_scheme \<Rightarrow> 'a logst_scheme option" where
  "commit s =
     (if lh_n s > 0
      then do {
        s \<leftarrow> write_log s;
        s \<leftarrow> write_head s;
        s \<leftarrow> install_trans s;
        write_head (s\<lparr>lh_n := 0\<rparr>)
      }
      else Some s)"

definition end_op :: "'a logst_scheme \<Rightarrow> 'a logst_scheme option" where
  "end_op s =
     (let s = s\<lparr>outstanding := outstanding s - 1\<rparr>
      in if committing s then None
         else if outstanding s = 0
         then do {
           s \<leftarrow> commit (s\<lparr>committing := True\<rparr>);
           Some (s\<lparr>committing := False\<rparr>)
         }
         else Some s)"

definition log_write :: "'a logst_scheme \<Rightarrow> nat \<Rightarrow> 'a logst_scheme option" where
  "log_write s b =
     (if lh_n s \<ge> LOGSIZE \<or> lh_n s \<ge> l_size s - 1 then None
      else if outstanding s < 1 then None
      else
        let n = b_blockno (bufs s ! b);
            i = length (takeWhile (\<lambda>x. x \<noteq> n) (take (nat (lh_n s)) (lh_block s)));
            s = s\<lparr>lh_block := (lh_block s)[i := n], lh_n := (if int i = lh_n s then lh_n s + 1 else lh_n s)\<rparr>
        in Some (upd_buf s b (\<lambda>b. b\<lparr>b_dirty := True\<rparr>)))"

subsection \<open>Writes through the cache\<close>

lemma bframe_log:
  fixes s :: "'a logst_scheme"
  assumes "bframe s s'"
  shows "l_start s' = l_start s" "l_size s' = l_size s" "outstanding s' = outstanding s" "committing s' = committing s"
    "l_dev s' = l_dev s" "lh_n s' = lh_n s" "lh_block s' = lh_block s"
proof -
  have e: "s' = s\<lparr>bufs := bufs s', mru := mru s', disk := disk s', dwrites := dwrites s'\<rparr>" using assms by (simp add: bframe_def)
  show "l_start s' = l_start s" "l_size s' = l_size s" "outstanding s' = outstanding s" "committing s' = committing s"
    "l_dev s' = l_dev s" "lh_n s' = lh_n s" "lh_block s' = lh_block s"
    by (subst e, simp)+
qed

text \<open>The disk after a list of block writes.\<close>

definition writes :: "(u32 \<times> bytes) list \<Rightarrow> (u32 \<Rightarrow> bytes) \<Rightarrow> u32 \<Rightarrow> bytes" where
  "writes ws d = fold (\<lambda>(n, b) d. d(n := b)) ws d"

lemma writes_simps [simp]: "writes [] d = d" "writes (w # ws) d = writes ws (d(fst w := snd w))" "writes (xs @ ys) d = writes ys (writes xs d)"
  by (simp_all add: writes_def case_prod_unfold)

lemma writes_other: "n \<notin> fst ` set ws \<Longrightarrow> writes ws d n = d n"
  by (induction ws arbitrary: d) auto

lemma writes_map:
  assumes "inj_on f (set ts)" "t \<in> set ts"
  shows "writes (map (\<lambda>t. (f t, g t)) ts) d (f t) = g t"
  using assms
proof (induction ts arbitrary: d)
  case (Cons x ts)
  show ?case
  proof (cases "t \<in> set ts")
    case True
    with Cons show ?thesis by simp
  next
    case False
    with Cons.prems have "f t \<notin> f ` set ts" "t = x" by (auto simp: inj_on_def)
    then show ?thesis using writes_other [of "f t" "map (\<lambda>t. (f t, g t)) ts"] by (simp add: image_image)
  qed
qed simp

text \<open>From one idle cache to another, by writing blocks through to the disk.\<close>

definition wrote :: "'a bcache_scheme \<Rightarrow> (u32 \<times> bytes) list \<Rightarrow> 'a bcache_scheme \<Rightarrow> bool" where
  "wrote s ws s' \<longleftrightarrow> cst s' {} \<and> bframe s s' \<and> rdisk s' = writes ws (rdisk s) \<and> rview s' = writes ws (rview s) \<and>
     rdirty s' = rdirty s - fst ` set ws \<and> pinned s' \<subseteq> pinned s \<and>
     dwrites s' = dwrites s @ map (\<lambda>(n, d). ((ROOTDEV, n), d)) ws"

lemma wrote_refl: "cst s {} \<Longrightarrow> wrote s [] s"
  by (simp add: wrote_def)

lemma wrote_trans: "wrote s us t \<Longrightarrow> wrote t vs u \<Longrightarrow> wrote s (us @ vs) u"
  unfolding wrote_def by (auto intro: bframe_trans)

lemma card_pinned_wrote: "wrote s ws s' \<Longrightarrow> card (pinned s') \<le> card (pinned s)"
  by (intro card_mono) (auto simp: wrote_def pinned_def)

lemma two_reads:
  fixes s :: "'a bcache_scheme"
  assumes c: "cst s {}" and a: "a < FSSIZE" and b: "b < FSSIZE" "a \<noteq> b" and room: "card (pinned s) < NBUF"
    and r2: "b \<in> rdirty s \<or> Suc (card (pinned s)) < NBUF"
  obtains i j s1 s2 where "bread s ROOTDEV a = Some (i, s1)" "bread s1 ROOTDEV b = Some (j, s2)" "bframe s s1" "i \<noteq> j" "cst s2 {i, j}"
    "holds_block s2 i a" "holds_block s2 j b" "b_data (bufs s2 ! i) = rview s a" "b_data (bufs s2 ! j) = rview s b" "bframe s s2"
    "disk s2 = disk s" "dwrites s2 = dwrites s" "rview s2 = rview s" "rdirty s2 = rdirty s" "pinned s2 = pinned s"
proof -
  obtain i s1 where r1: "bread s ROOTDEV a = Some (i, s1)" and t1: "takes s {} a i s1"
    using bread_spec [OF c a] room by auto
  have fin: "finite (pinned s)" by (simp add: pinned_def)
  have "card ({i} \<union> pinned s) \<le> Suc (card (pinned s))" using fin by (simp add: card_insert_if)
  then have "b \<in> rdirty s1 \<or> card ({i} \<union> pinned s1) < NBUF" using t1 r2 by (auto simp: takes_def)
  moreover have "\<not> holds_block s1 k b" if "k \<in> {i}" for k using that t1 b by (auto simp: takes_def holds_block_def)
  ultimately obtain j s2 where r2: "bread s1 ROOTDEV b = Some (j, s2)" and t2: "takes s1 {i} b j s2"
    using bread_spec [of s1 "{i}" b] t1 b by (auto simp: takes_def)
  have ij: "i \<noteq> j" "bufs s2 ! i = bufs s1 ! i" using t2 by (auto simp: takes_def)
  show thesis
    by (rule that [OF r1 r2])
       (use t1 t2 ij in \<open>auto simp: takes_def holds_block_def insert_commute intro: bframe_trans\<close>)
qed

text \<open>Both block copies of the log: read a log block and a home block, write one of them, release both.\<close>

lemma write_and_release:
  fixes s :: "'a bcache_scheme"
  assumes c: "cst s {i, j}" and ij: "i \<noteq> j" and h: "holds_block s i n" and d: "wf_block d"
  obtains s1 s2 s3 where "bwrite (upd_buf s i (\<lambda>b. b\<lparr>b_data := d\<rparr>)) i = Some s1" "brelse s1 j = Some s2" "brelse s2 i = Some s3"
    "wrote s [(n, d)] s3"
proof -
  obtain s1 where s1: "bwrite (upd_buf s i (\<lambda>b. b\<lparr>b_data := d\<rparr>)) i = Some s1" and p: "puts s {i, j} i n d False s1"
    using put_bwrite [OF c _ h d] by blast
  obtain s2 where s2: "brelse s1 j = Some s2" and d2: "drops s1 {i, j} j s2"
    using brelse_spec [of s1 "{i, j}" j] p by (auto simp: puts_def)
  have "cst s2 {i}" using d2 ij by (simp add: drops_def insert_Diff_if)
  then obtain s3 where s3: "brelse s2 i = Some s3" and d3: "drops s2 {i} i s3"
    using brelse_spec [of s2 "{i}" i] by auto
  have "wrote s [(n, d)] s3"
    using p d2 d3 unfolding puts_def drops_def wrote_def by (auto simp: rdisk_def fun_eq_iff intro: bframe_trans)
  with s1 s2 s3 show ?thesis by (rule that)
qed

lemma write_one:
  fixes s :: "'a bcache_scheme"
  assumes c: "cst s {i}" and h: "holds_block s i n" and d: "wf_block d"
  obtains s1 s2 where "bwrite (upd_buf s i (\<lambda>b. b\<lparr>b_data := d\<rparr>)) i = Some s1" "brelse s1 i = Some s2" "wrote s [(n, d)] s2"
proof -
  obtain s1 where s1: "bwrite (upd_buf s i (\<lambda>b. b\<lparr>b_data := d\<rparr>)) i = Some s1" and p: "puts s {i} i n d False s1"
    using put_bwrite [OF c _ h d] by blast
  obtain s2 where s2: "brelse s1 i = Some s2" and d2: "drops s1 {i} i s2"
    using brelse_spec [of s1 "{i}" i] p by (auto simp: puts_def)
  have "wrote s [(n, d)] s2"
    using p d2 unfolding puts_def drops_def wrote_def by (auto simp: rdisk_def fun_eq_iff intro: bframe_trans)
  with s1 s2 show ?thesis by (rule that)
qed

lemma wrote_after:
  "wrote t ws s' \<Longrightarrow> bframe s t \<Longrightarrow> disk t = disk s \<Longrightarrow> dwrites t = dwrites s \<Longrightarrow> rview t = rview s \<Longrightarrow> rdirty t = rdirty s \<Longrightarrow>
     pinned t = pinned s \<Longrightarrow> wrote s ws s'"
  unfolding wrote_def by (auto simp: rdisk_def [abs_def] intro: bframe_trans)

subsection \<open>The log steps\<close>

abbreviation log_blk :: "'a logst_scheme \<Rightarrow> nat \<Rightarrow> u32" where
  "log_blk s t \<equiv> l_start s + of_nat t + 1"

lemma install_step_spec:
  fixes s :: "'a logst_scheme"
  assumes c: "cst s {}" and dev: "l_dev s = ROOTDEV" and a: "log_blk s t < FSSIZE" and b: "lh_block s ! t < FSSIZE" "log_blk s t \<noteq> lh_block s ! t"
    and room: "card (pinned s) < NBUF" "lh_block s ! t \<in> rdirty s \<or> Suc (card (pinned s)) < NBUF"
  shows "\<exists>s'. install_step t s = Some s' \<and> wrote s [(lh_block s ! t, rview s (log_blk s t))] s'"
proof -
  obtain i j s1 s2 where r: "bread s ROOTDEV (log_blk s t) = Some (i, s1)" "bread s1 ROOTDEV (lh_block s ! t) = Some (j, s2)"
    and f: "bframe s s1" "i \<noteq> j" "cst s2 {i, j}" "holds_block s2 i (log_blk s t)" "holds_block s2 j (lh_block s ! t)"
    "b_data (bufs s2 ! i) = rview s (log_blk s t)" "b_data (bufs s2 ! j) = rview s (lh_block s ! t)"
    and g: "bframe s s2" "disk s2 = disk s" "dwrites s2 = dwrites s" "rview s2 = rview s" "rdirty s2 = rdirty s" "pinned s2 = pinned s"
    using two_reads [OF c a b room] by metis
  have w: "wf_block (rview s n)" for n by (rule rview_wf [OF c])
  have "cst s2 {j, i}" using f by (simp add: insert_commute)
  then obtain s3 s4 s5 where w5: "bwrite (upd_buf s2 j (\<lambda>b. b\<lparr>b_data := rview s (log_blk s t)\<rparr>)) j = Some s3" "brelse s3 i = Some s4"
    "brelse s4 j = Some s5" "wrote s2 [(lh_block s ! t, rview s (log_blk s t))] s5"
    using write_and_release [of s2 j i] f w by metis
  have u: "upd_buf s2 j (\<lambda>b. b\<lparr>b_data := block_copy (b_data b) (b_data (bufs s2 ! i))\<rparr>) =
      upd_buf s2 j (\<lambda>b. b\<lparr>b_data := rview s (log_blk s t)\<rparr>)"
    using f w by (simp add: upd_buf_def block_copy_wf)
  have "install_step t s = Some s5" using r w5 bframe_log [OF f(1)] by (simp add: install_step_def dev u)
  moreover have "wrote s [(lh_block s ! t, rview s (log_blk s t))] s5" using w5(4) g by (rule wrote_after)
  ultimately show ?thesis by blast
qed

lemma write_log_step_spec:
  fixes s :: "'a logst_scheme"
  assumes c: "cst s {}" and dev: "l_dev s = ROOTDEV" and a: "log_blk s t < FSSIZE" and b: "lh_block s ! t < FSSIZE" "log_blk s t \<noteq> lh_block s ! t"
    and room: "card (pinned s) < NBUF" "lh_block s ! t \<in> rdirty s \<or> Suc (card (pinned s)) < NBUF"
  shows "\<exists>s'. write_log_step t s = Some s' \<and> wrote s [(log_blk s t, rview s (lh_block s ! t))] s'"
proof -
  obtain i j s1 s2 where r: "bread s ROOTDEV (log_blk s t) = Some (i, s1)" "bread s1 ROOTDEV (lh_block s ! t) = Some (j, s2)"
    and f: "bframe s s1" "i \<noteq> j" "cst s2 {i, j}" "holds_block s2 i (log_blk s t)" "holds_block s2 j (lh_block s ! t)"
    "b_data (bufs s2 ! i) = rview s (log_blk s t)" "b_data (bufs s2 ! j) = rview s (lh_block s ! t)"
    and g: "bframe s s2" "disk s2 = disk s" "dwrites s2 = dwrites s" "rview s2 = rview s" "rdirty s2 = rdirty s" "pinned s2 = pinned s"
    using two_reads [OF c a b room] by metis
  have w: "wf_block (rview s n)" for n by (rule rview_wf [OF c])
  obtain s3 s4 s5 where w5: "bwrite (upd_buf s2 i (\<lambda>b. b\<lparr>b_data := rview s (lh_block s ! t)\<rparr>)) i = Some s3" "brelse s3 j = Some s4"
    "brelse s4 i = Some s5" "wrote s2 [(log_blk s t, rview s (lh_block s ! t))] s5"
    using write_and_release [of s2 i j] f w by metis
  have u: "upd_buf s2 i (\<lambda>b. b\<lparr>b_data := block_copy (b_data b) (b_data (bufs s2 ! j))\<rparr>) =
      upd_buf s2 i (\<lambda>b. b\<lparr>b_data := rview s (lh_block s ! t)\<rparr>)"
    using f w by (simp add: upd_buf_def block_copy_wf)
  have "write_log_step t s = Some s5" using r w5 bframe_log [OF f(1)] by (simp add: write_log_step_def dev u)
  moreover have "wrote s [(log_blk s t, rview s (lh_block s ! t))] s5" using w5(4) g by (rule wrote_after)
  ultimately show ?thesis by blast
qed

subsection \<open>The in-memory log is not part of the cache\<close>

lemmas cache_defs = fun_eq_iff cst_def disk_ready_def holds_block_def rdisk_def rview_def pinned_def rdirty_def

lemma lh_n_cache [simp]:
  fixes s :: "'a logst_scheme"
  shows "holds_block (s\<lparr>lh_n := x\<rparr>) = holds_block s" "cst (s\<lparr>lh_n := x\<rparr>) = cst s" "rdisk (s\<lparr>lh_n := x\<rparr>) = rdisk s" "rview (s\<lparr>lh_n := x\<rparr>) = rview s"
    "pinned (s\<lparr>lh_n := x\<rparr>) = pinned s" "rdirty (s\<lparr>lh_n := x\<rparr>) = rdirty s"
  by (simp_all add: cache_defs cong: option.case_cong)

lemma lh_block_cache [simp]:
  fixes s :: "'a logst_scheme"
  shows "holds_block (s\<lparr>lh_block := x\<rparr>) = holds_block s" "cst (s\<lparr>lh_block := x\<rparr>) = cst s" "rdisk (s\<lparr>lh_block := x\<rparr>) = rdisk s" "rview (s\<lparr>lh_block := x\<rparr>) = rview s"
    "pinned (s\<lparr>lh_block := x\<rparr>) = pinned s" "rdirty (s\<lparr>lh_block := x\<rparr>) = rdirty s"
  by (simp_all add: cache_defs cong: option.case_cong)

lemma outstanding_cache [simp]:
  fixes s :: "'a logst_scheme"
  shows "holds_block (s\<lparr>outstanding := x\<rparr>) = holds_block s" "cst (s\<lparr>outstanding := x\<rparr>) = cst s" "rdisk (s\<lparr>outstanding := x\<rparr>) = rdisk s" "rview (s\<lparr>outstanding := x\<rparr>) = rview s"
    "pinned (s\<lparr>outstanding := x\<rparr>) = pinned s" "rdirty (s\<lparr>outstanding := x\<rparr>) = rdirty s"
  by (simp_all add: cache_defs cong: option.case_cong)

lemma committing_cache [simp]:
  fixes s :: "'a logst_scheme"
  shows "holds_block (s\<lparr>committing := x\<rparr>) = holds_block s" "cst (s\<lparr>committing := x\<rparr>) = cst s" "rdisk (s\<lparr>committing := x\<rparr>) = rdisk s" "rview (s\<lparr>committing := x\<rparr>) = rview s"
    "pinned (s\<lparr>committing := x\<rparr>) = pinned s" "rdirty (s\<lparr>committing := x\<rparr>) = rdirty s"
  by (simp_all add: cache_defs cong: option.case_cong)

lemma l_start_cache [simp]:
  fixes s :: "'a logst_scheme"
  shows "holds_block (s\<lparr>l_start := x\<rparr>) = holds_block s" "cst (s\<lparr>l_start := x\<rparr>) = cst s" "rdisk (s\<lparr>l_start := x\<rparr>) = rdisk s" "rview (s\<lparr>l_start := x\<rparr>) = rview s"
    "pinned (s\<lparr>l_start := x\<rparr>) = pinned s" "rdirty (s\<lparr>l_start := x\<rparr>) = rdirty s"
  by (simp_all add: cache_defs cong: option.case_cong)

lemma l_size_cache [simp]:
  fixes s :: "'a logst_scheme"
  shows "holds_block (s\<lparr>l_size := x\<rparr>) = holds_block s" "cst (s\<lparr>l_size := x\<rparr>) = cst s" "rdisk (s\<lparr>l_size := x\<rparr>) = rdisk s" "rview (s\<lparr>l_size := x\<rparr>) = rview s"
    "pinned (s\<lparr>l_size := x\<rparr>) = pinned s" "rdirty (s\<lparr>l_size := x\<rparr>) = rdirty s"
  by (simp_all add: cache_defs cong: option.case_cong)

lemma l_dev_cache [simp]:
  fixes s :: "'a logst_scheme"
  shows "holds_block (s\<lparr>l_dev := x\<rparr>) = holds_block s" "cst (s\<lparr>l_dev := x\<rparr>) = cst s" "rdisk (s\<lparr>l_dev := x\<rparr>) = rdisk s" "rview (s\<lparr>l_dev := x\<rparr>) = rview s"
    "pinned (s\<lparr>l_dev := x\<rparr>) = pinned s" "rdirty (s\<lparr>l_dev := x\<rparr>) = rdirty s"
  by (simp_all add: cache_defs cong: option.case_cong)

subsection \<open>The header block\<close>

lemma head_off: "i < 120 \<Longrightarrow> unat (4 + 4 * of_nat i :: u32) = 4 + 4 * i"
proof -
  assume "i < 120"
  moreover have "unat (4 * of_nat i :: u32) = 4 * i" using calculation by (simp add: unat_word_ariths off_of_nat)
  ultimately show ?thesis by (simp add: unat_word_ariths)
qed

lemma store32_wf:
  assumes "wf_block d" "unat p + 3 < 512"
  shows "wf_block (store32 d p x)"
proof -
  have "unat (p + of_nat k) = unat p + k" if "k < 4" for k
    using assms(2) that by (simp add: unat_word_ariths off_of_nat)
  from this [of 1] this [of 2] this [of 3] have "p < BSIZE" "p + 1 < BSIZE" "p + 2 < BSIZE" "p + 3 < BSIZE"
    using assms(2) by (simp_all add: word_less_nat_alt BSIZE_def)
  then show ?thesis using assms(1) by (auto simp: wf_block_def store32_def)
qed

lemma fold_store_wf: "wf_block d \<Longrightarrow> set is \<subseteq> {..<120} \<Longrightarrow> wf_block (fold (\<lambda>i hb. store32 hb (4 + 4 * of_nat i) (bs ! i)) is d)"
proof (induction "is" arbitrary: d)
  case (Cons i "is")
  then have "wf_block (store32 d (4 + 4 * of_nat i) (bs ! i))" by (intro store32_wf) (auto simp: head_off)
  with Cons show ?case by simp
qed simp

lemma head_put_wf: "wf_block d \<Longrightarrow> n \<le> 30 \<Longrightarrow> wf_block (head_put d n bs)"
  unfolding head_put_def by (rule fold_store_wf) (auto intro: store32_wf)

lemma fold_store_other:
  "unat q mod 4 = 0 \<Longrightarrow> set is \<subseteq> {..<120} \<Longrightarrow> (\<And>i. i \<in> set is \<Longrightarrow> q \<noteq> 4 + 4 * of_nat i) \<Longrightarrow>
     load32 (fold (\<lambda>i hb. store32 hb (4 + 4 * of_nat i) (bs ! i)) is d) q = load32 d q"
proof (induction "is" arbitrary: d)
  case (Cons i "is")
  then have "unat (4 + 4 * of_nat i :: u32) mod 4 = 0" by (subst head_off) auto
  then have "load32 (store32 d (4 + 4 * of_nat i) (bs ! i)) q = load32 d q"
    using Cons.prems by (intro load_store32_other) auto
  with Cons show ?case by simp
qed simp

lemma head_off_eq: "i < 120 \<Longrightarrow> j < 120 \<Longrightarrow> (4 + 4 * of_nat i :: u32) = 4 + 4 * of_nat j \<longleftrightarrow> i = j"
  using head_off [of i] head_off [of j] by (metis add_left_cancel mult_cancel1 zero_neq_numeral)

lemma fold_store_get:
  "t \<in> set is \<Longrightarrow> distinct is \<Longrightarrow> set is \<subseteq> {..<120} \<Longrightarrow>
     load32 (fold (\<lambda>i hb. store32 hb (4 + 4 * of_nat i) (bs ! i)) is d) (4 + 4 * of_nat t) = bs ! t"
proof (induction "is" arbitrary: d)
  case (Cons i "is")
  show ?case
  proof (cases "t = i")
    case True
    with Cons.prems have "4 + 4 * of_nat t \<noteq> (4 + 4 * of_nat j :: u32)" if "j \<in> set is" for j
      using that by (subst head_off_eq) auto
    moreover have "unat (4 + 4 * of_nat t :: u32) mod 4 = 0" using Cons.prems by (subst head_off) auto
    ultimately show ?thesis
      using fold_store_other [of "4 + 4 * of_nat t" "is" bs] Cons.prems True by (simp add: load_store32_same)
  next
    case False
    with Cons show ?thesis by simp
  qed
qed simp

lemma head_put_n:
  assumes "0 \<le> n" "n \<le> 30"
  shows "sint (load32 (head_put d n bs) 0) = n"
proof -
  have z: "(0 :: u32) \<noteq> 4 + 4 * of_nat i" if "i < 120" for i
    using head_off [OF that] by (metis add_is_0 unat_0 zero_neq_numeral)
  have "load32 (head_put d n bs) 0 = word_of_int n"
    unfolding head_put_def using assms z
    by (subst fold_store_other) (auto simp: load_store32_same)
  moreover have "sint (word_of_int n :: u32) = n" using assms by (simp add: sint_sbintrunc' signed_take_bit_int_eq_self)
  ultimately show ?thesis by simp
qed

lemma head_put_block:
  assumes "t < nat n" "n \<le> 30"
  shows "load32 (head_put d n bs) (4 + 4 * of_nat t) = bs ! t"
  unfolding head_put_def using assms by (intro fold_store_get) auto

subsection \<open>The log area and the logged blocks\<close>

definition log_area :: "'a logst_scheme \<Rightarrow> u32 set" where
  "log_area s = {b. unat (l_start s) \<le> unat b \<and> unat b < unat (l_start s) + nat (l_size s)}"

definition logged :: "'a logst_scheme \<Rightarrow> u32 list" where
  "logged s = take (nat (lh_n s)) (lh_block s)"

definition log_geo :: "'a logst_scheme \<Rightarrow> bool" where
  "log_geo s \<longleftrightarrow> l_dev s = ROOTDEV \<and> 1 < unat (l_start s) \<and> unat (l_start s) + nat (l_size s) \<le> 1000 \<and> 0 < l_size s \<and>
     l_size s \<le> LOGSIZE \<and> length (lh_block s) = nat LOGSIZE"

definition data_block :: "'a logst_scheme \<Rightarrow> u32 \<Rightarrow> bool" where
  "data_block s b \<longleftrightarrow> b < FSSIZE \<and> b \<notin> log_area s \<and> b \<noteq> 1"

definition homes_ok :: "'a logst_scheme \<Rightarrow> bool" where
  "homes_ok s \<longleftrightarrow> 0 \<le> lh_n s \<and> lh_n s < l_size s \<and> distinct (logged s) \<and> (\<forall>b \<in> set (logged s). data_block s b)"

lemma LOGSIZE_30: "LOGSIZE = 30" by (simp add: LOGSIZE_def MAXOPBLOCKS_def)

lemma log_blk_unat:
  assumes "log_geo s" "int t + 1 < l_size s"
  shows "unat (log_blk s t) = unat (l_start s) + t + 1"
proof -
  have b: "unat (l_start s) + t + 1 < 1000" using assms by (auto simp: log_geo_def)
  then have "unat (l_start s + of_nat t) = unat (l_start s) + t" by (simp add: unat_word_ariths off_of_nat)
  with b show ?thesis by (simp add: unat_word_ariths)
qed

lemma log_blk_area:
  assumes "log_geo s" "int t + 1 < l_size s"
  shows "log_blk s t \<in> log_area s" "log_blk s t < FSSIZE" "log_blk s t \<noteq> l_start s"
proof -
  have u: "unat (log_blk s t) = unat (l_start s) + t + 1" by (rule log_blk_unat [OF assms])
  show "log_blk s t \<in> log_area s" using u assms by (auto simp: log_area_def)
  show "log_blk s t < FSSIZE" using u assms by (auto simp: log_geo_def FSSIZE_def word_less_nat_alt)
  show "log_blk s t \<noteq> l_start s"
  proof
    assume "log_blk s t = l_start s"
    then have "unat (log_blk s t) = unat (l_start s)" by (rule arg_cong)
    with u show False by simp
  qed
qed

lemma start_area: "log_geo s \<Longrightarrow> l_start s \<in> log_area s" "log_geo s \<Longrightarrow> l_start s < FSSIZE" "log_geo s \<Longrightarrow> 1 \<notin> log_area s"
  by (auto simp: log_geo_def log_area_def FSSIZE_def word_less_nat_alt)

lemma log_blk_inj:
  assumes "log_geo s" "int t + 1 < l_size s" "int u + 1 < l_size s" "log_blk s t = log_blk s u"
  shows "t = u"
proof -
  have "unat (log_blk s t) = unat (log_blk s u)" using assms(4) by (rule arg_cong)
  then show ?thesis unfolding log_blk_unat [OF assms(1,2)] log_blk_unat [OF assms(1,3)] by linarith
qed

lemma length_logged: "log_geo s \<Longrightarrow> homes_ok s \<Longrightarrow> length (logged s) = nat (lh_n s)"
  by (auto simp: log_geo_def homes_ok_def logged_def)

lemma home_at:
  assumes "log_geo s" "homes_ok s" "t < nat (lh_n s)"
  shows "lh_block s ! t = logged s ! t" "lh_block s ! t \<in> set (logged s)" "data_block s (lh_block s ! t)" "int t + 1 < l_size s"
proof -
  show e: "lh_block s ! t = logged s ! t" using assms by (simp add: logged_def)
  show m: "lh_block s ! t \<in> set (logged s)" using e length_logged [OF assms(1,2)] assms(3) by simp
  show "data_block s (lh_block s ! t)" using m assms by (auto simp: homes_ok_def)
  show "int t + 1 < l_size s" using assms by (auto simp: homes_ok_def)
qed

lemma home_inj:
  assumes "log_geo s" "homes_ok s" "t < nat (lh_n s)" "u < nat (lh_n s)" "lh_block s ! t = lh_block s ! u"
  shows "t = u"
  using assms home_at(1) [OF assms(1-3)] home_at(1) [OF assms(1,2,4)] length_logged [OF assms(1,2)]
  by (simp add: homes_ok_def nth_eq_iff_index_eq)

lemma bframe_geo:
  assumes "bframe s s'"
  shows "log_geo s' = log_geo s" "homes_ok s' = homes_ok s" "log_blk s' t = log_blk s t" "log_area s' = log_area s" "logged s' = logged s"
  using bframe_log [OF assms] by (simp_all add: log_geo_def homes_ok_def data_block_def log_area_def logged_def)

subsection \<open>The loops\<close>

definition room :: "'a logst_scheme \<Rightarrow> nat list \<Rightarrow> bool" where
  "room s ts \<longleftrightarrow> card (pinned s) < NBUF \<and> ((\<forall>t \<in> set ts. lh_block s ! t \<in> rdirty s) \<or> Suc (card (pinned s)) < NBUF)"

lemma install_loop:
  fixes s :: "'a logst_scheme"
  assumes "cst s {}" "log_geo s" "homes_ok s" "distinct ts" "set ts \<subseteq> {..<nat (lh_n s)}" "room s ts"
  shows "\<exists>s'. fold_opt install_step ts s = Some s' \<and> wrote s (map (\<lambda>t. (lh_block s ! t, rview s (log_blk s t))) ts) s'"
  using assms
proof (induction ts arbitrary: s)
  case Nil
  then show ?case by (auto intro: wrote_refl)
next
  case (Cons t ts)
  have t: "t < nat (lh_n s)" using Cons.prems by auto
  note h = home_at [OF Cons.prems(2,3) t]
  note la = log_blk_area [OF Cons.prems(2) h(4)]
  have "log_blk s t \<noteq> lh_block s ! t" using h la by (auto simp: data_block_def)
  then obtain s1 where s1: "install_step t s = Some s1" "wrote s [(lh_block s ! t, rview s (log_blk s t))] s1"
    using install_step_spec [OF Cons.prems(1), of t] Cons.prems h la by (auto simp: log_geo_def data_block_def room_def)
  then have f: "bframe s s1" by (simp add: wrote_def)
  note g = bframe_geo [OF f] bframe_log [OF f]
  have "lh_block s ! u \<noteq> lh_block s ! t" if "u \<in> set ts" for u
    using home_inj [OF Cons.prems(2,3), of u t] that Cons.prems t by auto
  then have "room s1 ts"
    using Cons.prems(6) s1(2) card_pinned_wrote [OF s1(2)] g by (auto simp: room_def wrote_def)
  then obtain s' where s': "fold_opt install_step ts s1 = Some s'"
    "wrote s1 (map (\<lambda>t. (lh_block s1 ! t, rview s1 (log_blk s1 t))) ts) s'"
    using Cons.IH [of s1] Cons.prems s1 g by (auto simp: wrote_def)
  have "rview s1 (log_blk s u) = rview s (log_blk s u)" if "u \<in> set ts" for u
    using home_at [OF Cons.prems(2,3), of u] log_blk_area [OF Cons.prems(2), of u] that Cons.prems s1(2) h(3)
    by (auto simp: wrote_def data_block_def)
  then have "map (\<lambda>t. (lh_block s1 ! t, rview s1 (log_blk s1 t))) ts = map (\<lambda>t. (lh_block s ! t, rview s (log_blk s t))) ts"
    using g by simp
  with s' wrote_trans [OF s1(2) s'(2)] s1(1) show ?case by auto
qed

lemma write_log_loop:
  fixes s :: "'a logst_scheme"
  assumes "cst s {}" "log_geo s" "homes_ok s" "distinct ts" "set ts \<subseteq> {..<nat (lh_n s)}" "room s ts"
  shows "\<exists>s'. fold_opt write_log_step ts s = Some s' \<and> wrote s (map (\<lambda>t. (log_blk s t, rview s (lh_block s ! t))) ts) s'"
  using assms
proof (induction ts arbitrary: s)
  case Nil
  then show ?case by (auto intro: wrote_refl)
next
  case (Cons t ts)
  have t: "t < nat (lh_n s)" using Cons.prems by auto
  note h = home_at [OF Cons.prems(2,3) t]
  note la = log_blk_area [OF Cons.prems(2) h(4)]
  have "log_blk s t \<noteq> lh_block s ! t" using h la by (auto simp: data_block_def)
  then obtain s1 where s1: "write_log_step t s = Some s1" "wrote s [(log_blk s t, rview s (lh_block s ! t))] s1"
    using write_log_step_spec [OF Cons.prems(1), of t] Cons.prems h la by (auto simp: log_geo_def data_block_def room_def)
  then have f: "bframe s s1" by (simp add: wrote_def)
  note g = bframe_geo [OF f] bframe_log [OF f]
  have hu: "lh_block s ! u \<noteq> log_blk s t" if "u \<in> set ts" for u
    using home_at(3) [OF Cons.prems(2,3), of u] that Cons.prems la by (auto simp: data_block_def)
  then have "room s1 ts"
    using Cons.prems(6) s1(2) card_pinned_wrote [OF s1(2)] g by (auto simp: room_def wrote_def)
  then obtain s' where s': "fold_opt write_log_step ts s1 = Some s'"
    "wrote s1 (map (\<lambda>t. (log_blk s1 t, rview s1 (lh_block s1 ! t))) ts) s'"
    using Cons.IH [of s1] Cons.prems s1 g by (auto simp: wrote_def)
  have "map (\<lambda>t. (log_blk s1 t, rview s1 (lh_block s1 ! t))) ts = map (\<lambda>t. (log_blk s t, rview s (lh_block s ! t))) ts"
    using g hu s1(2) by (simp add: wrote_def)
  with s' wrote_trans [OF s1(2) s'(2)] s1(1) show ?case by auto
qed

lemma write_head_spec:
  fixes s :: "'a logst_scheme"
  assumes c: "cst s {}" and g: "log_geo s" "lh_n s \<le> 30" and r: "card (pinned s) < NBUF"
  shows "\<exists>s'. write_head s = Some s' \<and> wrote s [(l_start s, head_put (rview s (l_start s)) (lh_n s) (lh_block s))] s'"
proof -
  obtain i s1 where b: "bread s ROOTDEV (l_start s) = Some (i, s1)" and t: "takes s {} (l_start s) i s1"
    using bread_spec [OF c start_area(2) [OF g(1)]] r by auto
  then have f: "bframe s s1" "cst s1 {i}" "holds_block s1 i (l_start s)" "b_data (bufs s1 ! i) = rview s (l_start s)" by (auto simp: takes_def)
  let ?d = "head_put (rview s (l_start s)) (lh_n s) (lh_block s)"
  have "wf_block ?d" using head_put_wf [OF rview_wf [OF c]] g by simp
  then obtain s2 s3 where w: "bwrite (upd_buf s1 i (\<lambda>b. b\<lparr>b_data := ?d\<rparr>)) i = Some s2" "brelse s2 i = Some s3" "wrote s1 [(l_start s, ?d)] s3"
    using write_one [OF f(2,3)] by blast
  have "upd_buf s1 i (\<lambda>b. b\<lparr>b_data := head_put (b_data b) (lh_n s1) (lh_block s1)\<rparr>) = upd_buf s1 i (\<lambda>b. b\<lparr>b_data := ?d\<rparr>)"
    using f bframe_log [OF f(1)] by (simp add: upd_buf_def)
  then have "write_head s = Some s3" using b w g by (simp add: write_head_def log_geo_def)
  moreover have "wrote s [(l_start s, ?d)] s3" using w(3) by (rule wrote_after) (use t in \<open>auto simp: takes_def\<close>)
  ultimately show ?thesis by blast
qed

subsection \<open>Commit and recovery\<close>

definition log_inv :: "'a logst_scheme \<Rightarrow> bool" where
  "log_inv s \<longleftrightarrow> cst s {} \<and> log_geo s \<and> homes_ok s \<and> rdirty s = set (logged s)"

definition home_writes :: "'a logst_scheme \<Rightarrow> (u32 \<times> bytes) list" where
  "home_writes s = map (\<lambda>t. (lh_block s ! t, rview s (lh_block s ! t))) [0..<nat (lh_n s)]"

definition log_writes :: "'a logst_scheme \<Rightarrow> (u32 \<times> bytes) list" where
  "log_writes s = map (\<lambda>t. (log_blk s t, rview s (lh_block s ! t))) [0..<nat (lh_n s)]"

definition full_head :: "'a logst_scheme \<Rightarrow> bytes" where
  "full_head s = head_put (rview s (l_start s)) (lh_n s) (lh_block s)"

definition commit_writes :: "'a logst_scheme \<Rightarrow> (u32 \<times> bytes) list" where
  "commit_writes s = log_writes s @ [(l_start s, full_head s)] @ home_writes s @ [(l_start s, head_put (full_head s) 0 (lh_block s))]"

lemma upt_below: "set [0..<n] \<subseteq> {..<n}"
  by auto

lemma card_pinned:
  assumes "cst s H"
  shows "card (pinned s) = card (rdirty s)"
proof -
  have h: "holds_block s i (b_blockno (bufs s ! i))" if "i \<in> pinned s" for i
    using that assms by (auto simp: pinned_def cst_defs holds_block_def)
  have "inj_on (\<lambda>i. b_blockno (bufs s ! i)) (pinned s)"
  proof (rule inj_onI)
    fix i j assume ij: "i \<in> pinned s" "j \<in> pinned s" "b_blockno (bufs s ! i) = b_blockno (bufs s ! j)"
    then have "holds_block s i (b_blockno (bufs s ! i))" "holds_block s j (b_blockno (bufs s ! i))" using h [of i] h [of j] by simp_all
    then show "i = j" using assms unfolding cst_def by blast
  qed
  then show ?thesis by (simp add: rdirty_def card_image)
qed

lemma log_inv_room:
  assumes "log_inv s"
  shows "room s [0..<nat (lh_n s)]"
proof -
  have i: "cst s {}" "log_geo s" "homes_ok s" "rdirty s = set (logged s)" using assms by (auto simp: log_inv_def)
  have "card (pinned s) \<le> nat (lh_n s)" using card_pinned [OF i(1)] i(4) card_length [of "logged s"] length_logged [OF i(2,3)] by simp
  moreover have "nat (lh_n s) < NBUF" using i by (auto simp: homes_ok_def log_geo_def LOGSIZE_30 NBUF_def)
  ultimately show ?thesis using home_at(2) [OF i(2,3)] i(4) by (auto simp: room_def)
qed

lemma homes_outside_log:
  assumes "log_geo s" "homes_ok s"
  shows "fst ` set (log_writes s) \<subseteq> log_area s" "fst ` set (home_writes s) = set (logged s)" "set (logged s) \<inter> log_area s = {}"
    "l_start s \<notin> fst ` set (log_writes s)"
proof -
  show "fst ` set (log_writes s) \<subseteq> log_area s" "l_start s \<notin> fst ` set (log_writes s)"
    using log_blk_area [OF assms(1)] home_at(4) [OF assms] by (fastforce simp: log_writes_def)+
  have "set (logged s) = (\<lambda>t. lh_block s ! t) ` {..<nat (lh_n s)}"
    using length_logged [OF assms] home_at(1) [OF assms] by (auto simp: set_conv_nth image_def)
  then show "fst ` set (home_writes s) = set (logged s)" by (auto simp: home_writes_def image_image)
  show "set (logged s) \<inter> log_area s = {}" using assms(2) by (auto simp: homes_ok_def data_block_def)
qed

lemma log_writes_at:
  assumes "log_geo s" "homes_ok s" "t < nat (lh_n s)"
  shows "writes (log_writes s) d (log_blk s t) = rview s (lh_block s ! t)"
  unfolding log_writes_def
  by (rule writes_map) (use assms log_blk_inj [OF assms(1)] home_at(4) [OF assms(1,2)] in \<open>auto simp: inj_on_def\<close>)

lemma home_writes_at:
  assumes "log_geo s" "homes_ok s" "b \<in> set (logged s)"
  shows "writes (home_writes s) d b = rview s b"
proof -
  have "b \<in> fst ` set (home_writes s)" using assms homes_outside_log(2) [OF assms(1,2)] by simp
  then obtain t where t: "t < nat (lh_n s)" "b = lh_block s ! t" by (auto simp: home_writes_def)
  show ?thesis unfolding home_writes_def t(2)
    by (rule writes_map) (use t home_inj [OF assms(1,2)] in \<open>auto simp: inj_on_def\<close>)
qed

lemma bframe_lh_n:
  fixes s :: "'a logst_scheme"
  assumes "bframe s s'"
  shows "bframe (s\<lparr>lh_n := n\<rparr>) (s'\<lparr>lh_n := n\<rparr>)"
proof -
  have "s' = s\<lparr>bufs := bufs s', mru := mru s', disk := disk s', dwrites := dwrites s'\<rparr>" using assms by (simp add: bframe_def)
  then have "s'\<lparr>lh_n := n\<rparr> = s\<lparr>bufs := bufs s', mru := mru s', disk := disk s', dwrites := dwrites s'\<rparr>\<lparr>lh_n := n\<rparr>"
    by (rule arg_cong)
  then show ?thesis by (simp add: bframe_def)
qed

lemma wrote_lh_n: "wrote s ws s' \<Longrightarrow> wrote (s\<lparr>lh_n := n\<rparr>) ws (s'\<lparr>lh_n := n\<rparr>)"
  by (simp add: wrote_def bframe_lh_n)

lemma commit_spec:
  fixes s :: "'a logst_scheme"
  assumes inv: "log_inv s" and n: "0 < lh_n s"
  shows "\<exists>s'. commit s = Some s' \<and> wrote (s\<lparr>lh_n := 0\<rparr>) (commit_writes s) s'"
proof -
  have i: "cst s {}" "log_geo s" "homes_ok s" "rdirty s = set (logged s)" using inv by (auto simp: log_inv_def)
  have n30: "lh_n s \<le> 30" using i by (auto simp: homes_ok_def log_geo_def LOGSIZE_30)
  note ho = homes_outside_log [OF i(2,3)]
  obtain s1 where s1: "write_log s = Some s1" "wrote s (log_writes s) s1"
    using write_log_loop [OF i(1-3) distinct_upt upt_below log_inv_room [OF inv]] by (auto simp: write_log_def log_writes_def)
  have f1: "bframe s s1" "cst s1 {}" using s1(2) by (auto simp: wrote_def)
  note g1 = bframe_log [OF f1(1)] bframe_geo [OF f1(1)]
  have r1: "card (pinned s1) < NBUF" using card_pinned_wrote [OF s1(2)] log_inv_room [OF inv] by (auto simp: room_def)
  have "rview s1 (l_start s) = rview s (l_start s)" using s1(2) ho by (simp add: wrote_def writes_other)
  then obtain s2 where s2: "write_head s1 = Some s2" "wrote s1 [(l_start s, full_head s)] s2"
    using write_head_spec [OF f1(2)] i g1 r1 n30 by (auto simp: full_head_def)
  have w2: "wrote s (log_writes s @ [(l_start s, full_head s)]) s2" by (rule wrote_trans [OF s1(2) s2(2)])
  then have f2: "bframe s s2" "cst s2 {}" by (auto simp: wrote_def)
  note g2 = bframe_log [OF f2(1)] bframe_geo [OF f2(1)]
  have "lh_block s ! t \<in> rdirty s2" if "t < nat (lh_n s)" for t
    using w2 home_at(2) [OF i(2,3) that] i(4) ho start_area(1) [OF i(2)] by (auto simp: wrote_def)
  then have "room s2 [0..<nat (lh_n s)]"
    using card_pinned_wrote [OF w2] log_inv_room [OF inv] g2 by (auto simp: room_def)
  then obtain s3 where s3: "install_trans s2 = Some s3"
    "wrote s2 (map (\<lambda>t. (lh_block s ! t, rview s2 (log_blk s t))) [0..<nat (lh_n s)]) s3"
    using install_loop [OF f2(2), of "[0..<nat (lh_n s)]"] i g2 upt_below [of "nat (lh_n s)"] by (auto simp: install_trans_def)
  have "rview s2 (log_blk s t) = rview s (lh_block s ! t)" if "t < nat (lh_n s)" for t
    using w2 log_writes_at [OF i(2,3) that] log_blk_area(3) [OF i(2) home_at(4) [OF i(2,3) that]] by (auto simp: wrote_def)
  then have "map (\<lambda>t. (lh_block s ! t, rview s2 (log_blk s t))) [0..<nat (lh_n s)] = home_writes s" by (simp add: home_writes_def)
  then have w3: "wrote s (log_writes s @ [(l_start s, full_head s)] @ home_writes s) s3" using wrote_trans [OF w2 s3(2)] by simp
  then have f3: "bframe s s3" "cst s3 {}" by (auto simp: wrote_def)
  note g3 = bframe_log [OF f3(1)] bframe_geo [OF f3(1)]
  have "rview s3 (l_start s) = full_head s"
    using w3 ho start_area(1) [OF i(2)] by (auto simp: wrote_def intro!: trans [OF writes_other])
  moreover have "log_geo (s3\<lparr>lh_n := 0\<rparr>)" using i(2) g3 by (simp add: log_geo_def)
  moreover have "card (pinned s3) < NBUF" using card_pinned_wrote [OF w3] log_inv_room [OF inv] by (auto simp: room_def)
  ultimately obtain s4 where s4: "write_head (s3\<lparr>lh_n := 0\<rparr>) = Some s4"
    "wrote (s3\<lparr>lh_n := 0\<rparr>) [(l_start s, head_put (full_head s) 0 (lh_block s))] s4"
    using write_head_spec [of "s3\<lparr>lh_n := 0\<rparr>"] f3(2) g3 by auto
  have "commit s = Some s4" using n s1 s2 s3 s4 by (simp add: commit_def)
  moreover have "wrote (s\<lparr>lh_n := 0\<rparr>) (log_writes s @ [(l_start s, full_head s)] @ home_writes s) (s3\<lparr>lh_n := 0\<rparr>)"
    by (rule wrote_lh_n [OF w3])
  ultimately show ?thesis using wrote_trans [OF _ s4(2)] unfolding commit_writes_def by (metis append_assoc)
qed

lemma bframe_lh_block:
  fixes s :: "'a logst_scheme"
  assumes "bframe s s'"
  shows "bframe (s\<lparr>lh_block := n\<rparr>) (s'\<lparr>lh_block := n\<rparr>)"
proof -
  have "s' = s\<lparr>bufs := bufs s', mru := mru s', disk := disk s', dwrites := dwrites s'\<rparr>" using assms by (simp add: bframe_def)
  then have "s'\<lparr>lh_block := n\<rparr> = s\<lparr>bufs := bufs s', mru := mru s', disk := disk s', dwrites := dwrites s'\<rparr>\<lparr>lh_block := n\<rparr>"
    by (rule arg_cong)
  then show ?thesis by (simp add: bframe_def)
qed

text \<open>Taking a block and dropping it again leaves the abstract state as it was.\<close>

lemma take_drop:
  fixes s :: "'a bcache_scheme"
  assumes "takes s {} n i s1" "drops s1 {i} i s2"
  shows "wrote s [] s2"
  using assms unfolding takes_def drops_def wrote_def by (auto simp: rdisk_def fun_eq_iff intro: bframe_trans)

definition head_blocks :: "bytes \<Rightarrow> u32 list \<Rightarrow> u32 list" where
  "head_blocks lh bs = fold (\<lambda>i bs. bs[i := load32 lh (4 + 4 * of_nat i)]) [0..<nat (sint (load32 lh 0))] bs"

lemma fold_update_nth:
  "length (fold (\<lambda>i bs. bs[i := f i]) [0..<m] bs) = length bs \<and>
     (\<forall>j < length bs. fold (\<lambda>i bs. bs[i := f i]) [0..<m] bs ! j = (if j < m then f j else bs ! j))"
  by (induction m) (auto simp: nth_list_update less_Suc_eq)

lemma head_blocks_nth:
  "length (head_blocks lh bs) = length bs"
  "j < length bs \<Longrightarrow> j < nat (sint (load32 lh 0)) \<Longrightarrow> head_blocks lh bs ! j = load32 lh (4 + 4 * of_nat j)"
  using fold_update_nth [of "\<lambda>i. load32 lh (4 + 4 * of_nat i)" "nat (sint (load32 lh 0))" bs] by (simp_all add: head_blocks_def)

lemma read_head_spec:
  fixes s :: "'a logst_scheme"
  assumes c: "cst s {}" and g: "log_geo s" and r: "card (pinned s) < NBUF" and n: "sint (load32 (rview s (l_start s)) 0) \<le> 30"
  shows "\<exists>s'. read_head s = Some s' \<and>
    wrote (s\<lparr>lh_n := sint (load32 (rview s (l_start s)) 0), lh_block := head_blocks (rview s (l_start s)) (lh_block s)\<rparr>) [] s'"
proof -
  obtain i s1 where b: "bread s ROOTDEV (l_start s) = Some (i, s1)" and t: "takes s {} (l_start s) i s1"
    using bread_spec [OF c start_area(2) [OF g]] r by auto
  then have f: "bframe s s1" "b_data (bufs s1 ! i) = rview s (l_start s)" by (auto simp: takes_def)
  let ?u = "\<lambda>s :: 'a logst_scheme. s\<lparr>lh_n := sint (load32 (rview s (l_start s)) 0), lh_block := head_blocks (rview s (l_start s)) (lh_block s)\<rparr>"
  have eq: "rview s1 = rview s" "l_start s1 = l_start s" "lh_block s1 = lh_block s" using t bframe_log [OF f(1)] by (auto simp: takes_def)
  have t': "takes (?u s) {} (l_start s) i (?u s1)"
    using t bframe_lh_block [OF bframe_lh_n [OF f(1)]] by (simp add: takes_def eq)
  then obtain s2 where s2: "brelse (?u s1) i = Some s2" "drops (?u s1) {i} i s2"
    using brelse_spec [of "?u s1" "{i}" i] by (auto simp: takes_def)
  have "read_head s = Some s2" using b s2 g n f eq by (simp add: read_head_def log_geo_def LOGSIZE_30 head_blocks_def)
  with take_drop [OF t' s2(2)] show ?thesis by blast
qed

lemma recover_spec:
  fixes s :: "'a logst_scheme"
  assumes c: "cst s {}" and g: "log_geo s" and p: "pinned s = {}" and n: "n = sint (load32 (rview s (l_start s)) 0)" "n \<le> 30"
    and b: "bs = head_blocks (rview s (l_start s)) (lh_block s)" and h: "homes_ok (s\<lparr>lh_n := n, lh_block := bs\<rparr>)"
  shows "\<exists>s'. recover_from_log s = Some s' \<and> wrote (s\<lparr>lh_block := bs, lh_n := 0\<rparr>)
    (map (\<lambda>t. (bs ! t, rview s (log_blk s t))) [0..<nat n] @ [(l_start s, head_put (rview s (l_start s)) 0 bs)]) s'"
proof -
  let ?s = "s\<lparr>lh_n := n, lh_block := bs\<rparr>"
  let ?ws = "map (\<lambda>t. (bs ! t, rview s (log_blk s t))) [0..<nat n]"
  have g0: "log_geo ?s" using g by (simp add: log_geo_def b head_blocks_nth)
  obtain s1 where s1: "read_head s = Some s1" "wrote ?s [] s1" using read_head_spec [OF c g] n b p by (auto simp: NBUF_def)
  then have f1: "bframe ?s s1" "cst s1 {}" "pinned s1 = {}" "rview s1 = rview s" using p by (auto simp: wrote_def)
  note g1 = bframe_log [OF f1(1)] bframe_geo [OF f1(1)]
  have "room s1 [0..<nat n]" using f1 by (simp add: room_def NBUF_def)
  then obtain s2 where s2: "install_trans s1 = Some s2" "wrote s1 ?ws s2"
    using install_loop [OF f1(2), of "[0..<nat n]"] g0 h g1 f1 upt_below [of "nat n"] by (auto simp: install_trans_def)
  have w2: "wrote ?s ?ws s2" using wrote_trans [OF s1(2) s2(2)] by simp
  then have f2: "bframe ?s s2" "cst s2 {}" "pinned s2 = {}" using p by (auto simp: wrote_def)
  note g2 = bframe_log [OF f2(1)] bframe_geo [OF f2(1)]
  have "l_start s \<notin> fst ` set ?ws"
  proof -
    have "log_area ?s = log_area s" by (simp add: log_area_def)
    then have "bs ! t \<notin> log_area s" if "t < nat n" for t using home_at(3) [OF g0 h, of t] that by (simp add: data_block_def)
    then show ?thesis using start_area(1) [OF g] by auto
  qed
  then have rv: "rview s2 (l_start s) = rview s (l_start s)" using w2 by (simp add: wrote_def writes_other)
  have "log_geo (s2\<lparr>lh_n := 0\<rparr>)" using g0 g2 by (simp add: log_geo_def)
  then obtain s3 where s3: "write_head (s2\<lparr>lh_n := 0\<rparr>) = Some s3"
    "wrote (s2\<lparr>lh_n := 0\<rparr>) [(l_start s, head_put (rview s (l_start s)) 0 bs)] s3"
    using write_head_spec [of "s2\<lparr>lh_n := 0\<rparr>"] f2 g2 rv by (auto simp: NBUF_def)
  have "recover_from_log s = Some s3" using s1 s2 s3 by (simp add: recover_from_log_def)
  moreover have "wrote (s\<lparr>lh_block := bs, lh_n := 0\<rparr>) ?ws (s2\<lparr>lh_n := 0\<rparr>)" using wrote_lh_n [OF w2, of 0] by simp
  ultimately show ?thesis using wrote_trans [OF _ s3(2)] by blast
qed

end
