(* ===== verification/X6Crash.thy ===== *)
theory X6Crash
  imports X6Log
begin

text \<open>
  Crash safety of the xv6 log. A crash keeps the disk as a prefix of the disk writes left it and loses the cache;
  \<open>initlog\<close> then runs on an empty cache. Recovery is shown for every prefix of the writes of \<open>commit\<close>, and
  transactions (the use of the log that log.c describes) are shown to be atomic. The last part shows how far the
  reservation made by \<open>begin_op\<close> carries.
\<close>

subsection \<open>Crashes\<close>

lemma rview_clean:
  assumes "cst s H" "n \<notin> rdirty s"
  shows "rview s n = rdisk s n"
proof (cases "\<exists>i. holds_block s i n")
  case True
  then obtain i where i: "holds_block s i n" ..
  then have "\<not> b_dirty (bufs s ! i)" using assms by (auto simp: rdirty_def pinned_def holds_block_def)
  then show ?thesis using rview_cached [OF assms(1) i] assms(1) i by (auto simp: cst_defs rdisk_def holds_block_def)
next
  case False
  then show ?thesis by (simp add: rview_uncached)
qed

text \<open>The superblock on the disk describes the log.\<close>

definition sb_ok :: "'a logst_scheme \<Rightarrow> (u32 \<Rightarrow> bytes) \<Rightarrow> bool" where
  "sb_ok s d \<longleftrightarrow> sb_logstart (superblock_of (d 1)) = l_start s \<and> sint (sb_nlog (superblock_of (d 1))) = l_size s"

lemma initlog_spec:
  fixes z :: "'a logst_scheme"
  assumes z: "disk_ready z" "\<And>b. wf_block (rdisk z b)" "length (lh_block z) = 30" and g: "log_geo s" and sb: "sb_ok s (rdisk z)"
    and n: "n = sint (load32 (rdisk z (l_start s)) 0)" "n \<le> 30" and b: "bs = head_blocks (rdisk z (l_start s)) (lh_block z)"
    and h: "homes_ok (s\<lparr>lh_n := n, lh_block := bs\<rparr>)"
  obtains z' where "initlog (boot_cache z) ROOTDEV = Some z'" "cst z' {}" "rdirty z' = {}" "rview z' = rdisk z'" "lh_n z' = 0"
    "log_geo z'" "l_start z' = l_start s" "l_size z' = l_size s"
    "rdisk z' = writes (map (\<lambda>t. (bs ! t, rdisk z (log_blk s t))) [0..<nat n] @ [(l_start s, head_put (rdisk z (l_start s)) 0 bs)]) (rdisk z)"
proof -
  note bo = boot_cache_ok [OF z(1) z(2) [unfolded rdisk_def]]
  obtain i s1 where r: "bread (boot_cache z) ROOTDEV 1 = Some (i, s1)" and t: "takes (boot_cache z) {} 1 i s1"
    using bread_spec [OF bo(1), of 1] bo by (auto simp: FSSIZE_def NBUF_def)
  then obtain s2 where d: "brelse s1 i = Some s2" "drops s1 {i} i s2"
    using brelse_spec [of s1 "{i}" i] by (auto simp: takes_def)
  have w: "wrote (boot_cache z) [] s2" by (rule take_drop [OF t d(2)])
  have rs: "readsb (boot_cache z) ROOTDEV = Some (superblock_of (rdisk z 1), s2)"
    using r d t bo by (simp add: readsb_def takes_def)
  define s3 where "s3 = s2\<lparr>l_start := l_start s, l_size := l_size s, l_dev := ROOTDEV\<rparr>"
  have f: "bframe (boot_cache z) s2" using w by (simp add: wrote_def)
  have lb: "lh_block s3 = lh_block z" using bframe_log [OF f] by (simp add: s3_def boot_cache_eq)
  have rd: "rdisk (boot_cache z) = rdisk z" by (simp add: boot_cache_eq rdisk_def fun_eq_iff)
  have st: "cst s3 {}" "pinned s3 = {}" "rview s3 = rdisk z" "rdisk s3 = rdisk z" "rdirty s3 = {}"
    using w bo rd by (auto simp: wrote_def s3_def)
  have g3: "log_geo s3" using g z(3) lb by (simp add: log_geo_def s3_def LOGSIZE_30)
  have "homes_ok (s3\<lparr>lh_n := n, lh_block := bs\<rparr>)"
    using h by (simp add: homes_ok_def logged_def data_block_def log_area_def s3_def)
  moreover have "n = sint (load32 (rview s3 (l_start s3)) 0)" "bs = head_blocks (rview s3 (l_start s3)) (lh_block s3)"
    using n b st lb by (simp_all add: s3_def)
  ultimately obtain z' where z': "recover_from_log s3 = Some z'" "wrote (s3\<lparr>lh_block := bs, lh_n := 0\<rparr>)
      (map (\<lambda>t. (bs ! t, rview s3 (log_blk s3 t))) [0..<nat n] @ [(l_start s3, head_put (rview s3 (l_start s3)) 0 bs)]) z'"
    using recover_spec [OF st(1) g3 st(2) _ n(2)] by blast
  have "initlog (boot_cache z) ROOTDEV = Some z'"
    using rs z' sb by (simp add: initlog_def LOGSIZE_30 BSIZE_def sb_ok_def s3_def)
  moreover have fz: "bframe (s3\<lparr>lh_block := bs, lh_n := 0\<rparr>) z'" using z'(2) by (simp add: wrote_def)
  moreover have "log_geo z'" using bframe_geo(1) [OF fz] g3 by (simp add: log_geo_def b head_blocks_nth lb)
  ultimately show ?thesis
    using that [of z'] z'(2) st bframe_log [OF fz] by (auto simp: wrote_def s3_def)
qed

text \<open>A prefix of the writes of a commit is a prefix of the log writes, or contains the header.\<close>

lemma take_commit:
  fixes k :: nat and s :: "'a logst_scheme"
  defines "n \<equiv> nat (lh_n s)"
  shows "k \<le> n \<Longrightarrow> take k (commit_writes s) = take k (log_writes s)"
    and "n < k \<Longrightarrow> k \<le> 2 * n + 1 \<Longrightarrow> take k (commit_writes s) = log_writes s @ [(l_start s, full_head s)] @ take (k - n - 1) (home_writes s)"
    and "2 * n + 1 < k \<Longrightarrow> take k (commit_writes s) = commit_writes s"
proof -
  have l: "length (log_writes s) = n" "length (home_writes s) = n" by (simp_all add: log_writes_def home_writes_def n_def)
  show "k \<le> n \<Longrightarrow> take k (commit_writes s) = take k (log_writes s)" by (simp add: commit_writes_def l)
  show "n < k \<Longrightarrow> k \<le> 2 * n + 1 \<Longrightarrow>
      take k (commit_writes s) = log_writes s @ [(l_start s, full_head s)] @ take (k - n - 1) (home_writes s)"
    by (simp add: commit_writes_def l take_Cons')
  show "2 * n + 1 < k \<Longrightarrow> take k (commit_writes s) = commit_writes s" by (simp add: commit_writes_def l)
qed

text \<open>The outcome of recovery: every data block as it was before the transaction, or every one as the transaction left it.\<close>

definition recovers :: "'a logst_scheme \<Rightarrow> 'b logst_scheme \<Rightarrow> (u32 \<Rightarrow> bytes) \<Rightarrow> bool" where
  "recovers s z want \<longleftrightarrow> (\<exists>z'. initlog (boot_cache z) ROOTDEV = Some z' \<and> cst z' {} \<and> rdirty z' = {} \<and> rview z' = rdisk z' \<and>
     lh_n z' = 0 \<and> log_geo z' \<and> l_start z' = l_start s \<and> l_size z' = l_size s \<and> (\<forall>b. data_block s b \<longrightarrow> rdisk z' b = want b))"

lemma recoversI:
  "initlog (boot_cache z) ROOTDEV = Some z' \<Longrightarrow> cst z' {} \<Longrightarrow> rdirty z' = {} \<Longrightarrow> rview z' = rdisk z' \<Longrightarrow> lh_n z' = 0 \<Longrightarrow> log_geo z' \<Longrightarrow>
     l_start z' = l_start s \<Longrightarrow> l_size z' = l_size s \<Longrightarrow> (\<And>b. data_block s b \<Longrightarrow> rdisk z' b = want b) \<Longrightarrow> recovers s z want"
  unfolding recovers_def by blast

lemma recovers_cong: "recovers s z want \<Longrightarrow> (\<And>b. data_block s b \<Longrightarrow> want b = want' b) \<Longrightarrow> recovers s z want'"
  unfolding recovers_def by auto

text \<open>What recovery finds when no transaction is on the disk.\<close>

lemma recover_empty:
  fixes z :: "'a logst_scheme"
  assumes z: "disk_ready z" "\<And>b. wf_block (rdisk z b)" "length (lh_block z) = 30" and g: "log_geo s" and sb: "sb_ok s (rdisk z)"
    and n: "sint (load32 (rdisk z (l_start s)) 0) = 0"
  shows "recovers s z (rdisk z)"
proof -
  let ?bs = "head_blocks (rdisk z (l_start s)) (lh_block z)"
  have h: "homes_ok (s\<lparr>lh_n := 0, lh_block := ?bs\<rparr>)" using g by (simp add: homes_ok_def logged_def log_geo_def)
  have d: "b \<noteq> l_start s" if "data_block s b" for b using that start_area(1) [OF g] by (auto simp: data_block_def)
  have n30: "(0 :: int) \<le> 30" by simp
  show ?thesis by (rule initlog_spec [OF z g sb n [symmetric] n30 refl h]) (rule recoversI, (assumption | simp add: d)+)
qed

lemma recover_full:
  fixes z :: "'a logst_scheme"
  assumes z: "disk_ready z" "\<And>b. wf_block (rdisk z b)" "length (lh_block z) = 30" and g: "log_geo s" "homes_ok s" and sb: "sb_ok s (rdisk z)"
    and h: "rdisk z (l_start s) = full_head s"
    and l: "\<And>t. t < nat (lh_n s) \<Longrightarrow> rdisk z (log_blk s t) = rview s (lh_block s ! t)"
    and o: "\<And>b. data_block s b \<Longrightarrow> b \<notin> set (logged s) \<Longrightarrow> rdisk z b = rview s b"
  shows "recovers s z (rview s)"
proof -
  define bs where "bs = head_blocks (rdisk z (l_start s)) (lh_block z)"
  have n30: "0 \<le> lh_n s" "lh_n s \<le> 30" using g by (auto simp: homes_ok_def log_geo_def LOGSIZE_30)
  have n: "sint (load32 (rdisk z (l_start s)) 0) = lh_n s" using head_put_n [OF n30] by (simp add: h full_head_def)
  have bt: "bs ! t = lh_block s ! t" if "t < nat (lh_n s)" for t
    unfolding bs_def using that n n30 z(3) head_put_block [OF that n30(2)]
    by (subst head_blocks_nth) (auto simp: h full_head_def)
  have "length bs = 30" using z(3) by (simp add: bs_def head_blocks_nth)
  then have tk: "take (nat (lh_n s)) bs = logged s"
    using bt n30 g by (auto simp: logged_def log_geo_def LOGSIZE_30 intro!: nth_equalityI)
  have hk: "homes_ok (s\<lparr>lh_n := lh_n s, lh_block := bs\<rparr>)"
    using g(2) tk by (simp add: homes_ok_def logged_def data_block_def log_area_def)
  have m: "map (\<lambda>t. (bs ! t, rdisk z (log_blk s t))) [0..<nat (lh_n s)] = home_writes s" using bt l by (simp add: home_writes_def)
  have eq: "writes (home_writes s @ [(l_start s, head_put (rdisk z (l_start s)) 0 bs)]) (rdisk z) b = rview s b" if b: "data_block s b" for b
  proof -
    have "b \<noteq> l_start s" using b start_area(1) [OF g(1)] by (auto simp: data_block_def)
    then show ?thesis
      using home_writes_at [OF g] homes_outside_log(2) [OF g] o [OF b] by (cases "b \<in> set (logged s)") (auto simp: writes_other)
  qed
  show ?thesis by (rule initlog_spec [OF z g(1) sb n [symmetric] n30(2) bs_def hk]) (rule recoversI, (assumption | simp only: m eq)+)
qed

lemma writes_wf: "(\<And>b. wf_block (d b)) \<Longrightarrow> (\<And>w. w \<in> set ws \<Longrightarrow> wf_block (snd w)) \<Longrightarrow> wf_block (writes ws d b)"
  by (induction ws arbitrary: d) auto

lemma commit_writes_wf:
  assumes "cst s {}" "homes_ok s" "log_geo s" "w \<in> set (commit_writes s)"
  shows "wf_block (snd w)"
proof -
  have n30: "lh_n s \<le> 30" using assms by (auto simp: homes_ok_def log_geo_def LOGSIZE_30)
  have f: "wf_block (full_head s)" unfolding full_head_def by (rule head_put_wf [OF rview_wf [OF assms(1)] n30])
  have "wf_block (head_put (full_head s) 0 (lh_block s))" by (rule head_put_wf [OF f]) simp
  with f rview_wf [OF assms(1)] assms(4) show ?thesis
    by (auto simp: commit_writes_def log_writes_def home_writes_def)
qed

lemma sb_ok_writes:
  assumes "sb_ok s d" "1 \<notin> fst ` set ws"
  shows "sb_ok s (writes ws d)"
  using assms by (simp add: sb_ok_def writes_other)

lemma commit_crash:
  fixes s :: "'a logst_scheme" and z :: "'b logst_scheme"
  assumes inv: "log_inv s" and h0: "sint (load32 (rdisk s (l_start s)) 0) = 0" and sb: "sb_ok s (rdisk s)"
    and z: "disk_ready z" "length (lh_block z) = 30" and d: "rdisk z = writes (take k (commit_writes s)) (rdisk s)"
  shows "recovers s z (if k \<le> nat (lh_n s) then rdisk s else rview s)"
proof -
  have i: "cst s {}" "log_geo s" "homes_ok s" "rdirty s = set (logged s)" using inv by (auto simp: log_inv_def)
  note ho = homes_outside_log [OF i(2,3)]
  have cw: "wf_block (rdisk s b)" for b using i(1) by (simp add: cst_def rdisk_def)
  have wf: "wf_block (rdisk z b)" for b
    unfolding d by (rule writes_wf [OF cw]) (use commit_writes_wf [OF i(1,3,2)] in \<open>auto dest: in_set_takeD\<close>)
  have one: "1 \<notin> fst ` set (commit_writes s)"
    using ho start_area [OF i(2)] i(3) by (auto simp: commit_writes_def homes_ok_def data_block_def)
  have sbz: "sb_ok s (rdisk z)"
    unfolding d by (rule sb_ok_writes [OF sb]) (use one in \<open>auto dest: in_set_takeD\<close>)
  have outside: "b \<notin> fst ` set (log_writes s)" "b \<noteq> l_start s" if "data_block s b" for b
    using that ho(1) start_area(1) [OF i(2)] by (auto simp: data_block_def)
  have same: "rview s b = rdisk s b" if "b \<notin> set (logged s)" for b using rview_clean [OF i(1)] i(4) that by simp
  consider "k \<le> nat (lh_n s)" | "nat (lh_n s) < k" "k \<le> 2 * nat (lh_n s) + 1" | "2 * nat (lh_n s) + 1 < k" by linarith
  then show ?thesis
  proof cases
    case 1
    have dz: "rdisk z = writes (take k (log_writes s)) (rdisk s)" using d take_commit(1) [OF 1] by simp
    have sub: "fst ` set (take k (log_writes s)) \<subseteq> fst ` set (log_writes s)" by (intro image_mono set_take_subset)
    have "rdisk z (l_start s) = rdisk s (l_start s)" unfolding dz by (rule writes_other) (use sub ho(4) in blast)
    then have "sint (load32 (rdisk z (l_start s)) 0) = 0" using h0 by simp
    moreover have "rdisk z b = rdisk s b" if "data_block s b" for b
      unfolding dz by (rule writes_other) (use sub outside(1) [OF that] in blast)
    ultimately have "recovers s z (rdisk s)" using recovers_cong [OF recover_empty [OF z(1) wf z(2) i(2) sbz]] by blast
    with 1 show ?thesis by simp
  next
    case 2
    let ?hs = "take (k - nat (lh_n s) - 1) (home_writes s)"
    have dz: "rdisk z = writes (log_writes s @ [(l_start s, full_head s)] @ ?hs) (rdisk s)" using d take_commit(2) [OF 2] by simp
    have sub: "fst ` set ?hs \<subseteq> set (logged s)" using ho(2) by (auto dest: in_set_takeD)
    have hs: "b \<notin> fst ` set ?hs" if "b \<in> log_area s" for b using that sub ho(3) by blast
    have head: "rdisk z (l_start s) = full_head s"
      using writes_other [OF hs [OF start_area(1) [OF i(2)]]] by (simp add: dz)
    have logs: "rdisk z (log_blk s t) = rview s (lh_block s ! t)" if "t < nat (lh_n s)" for t
      using writes_other [OF hs [OF log_blk_area(1) [OF i(2) home_at(4) [OF i(2,3) that]]]]
        log_blk_area(3) [OF i(2) home_at(4) [OF i(2,3) that]] log_writes_at [OF i(2,3) that]
      by (simp add: dz)
    have "rdisk z b = rview s b" if "data_block s b" "b \<notin> set (logged s)" for b
    proof -
      have "b \<notin> fst ` set ?hs" using sub that(2) by blast
      from writes_other [OF this] show ?thesis using outside [OF that(1)] same [OF that(2)] by (simp add: dz writes_other)
    qed
    from recover_full [OF z(1) wf z(2) i(2,3) sbz head logs this] show ?thesis using 2 by simp
  next
    case 3
    have dz: "rdisk z = writes (commit_writes s) (rdisk s)" using d take_commit(3) [OF 3] by simp
    have "rdisk z (l_start s) = head_put (full_head s) 0 (lh_block s)" by (simp add: dz commit_writes_def)
    then have "sint (load32 (rdisk z (l_start s)) 0) = 0" using head_put_n [of 0] by simp
    moreover have "rdisk z b = rview s b" if "data_block s b" for b
      using outside [OF that] home_writes_at [OF i(2,3)] same ho(2)
      by (cases "b \<in> set (logged s)") (simp_all add: dz commit_writes_def writes_other)
    ultimately have "recovers s z (rview s)" using recovers_cong [OF recover_empty [OF z(1) wf z(2) i(2) sbz]] by blast
    with 3 show ?thesis by simp
  qed
qed

subsection \<open>Transactions\<close>

text \<open>
  The use of the log that log.c describes: read a block, modify it, \<open>log_write\<close> it, release it, between
  \<open>begin_op\<close> and \<open>end_op\<close>.
\<close>

definition txn_step :: "u32 \<times> bytes \<Rightarrow> 'a logst_scheme \<Rightarrow> 'a logst_scheme option" where
  "txn_step w s = do {
     (i, s) \<leftarrow> bread s (l_dev s) (fst w);
     s \<leftarrow> log_write (upd_buf s i (\<lambda>b. b\<lparr>b_data := snd w\<rparr>)) i;
     brelse s i
   }"

definition txn :: "(u32 \<times> bytes) list \<Rightarrow> 'a logst_scheme \<Rightarrow> 'a logst_scheme option" where
  "txn ws s = do {
     s \<leftarrow> begin_op s;
     s \<leftarrow> fold_opt txn_step ws s;
     end_op s
   }"

lemma takeWhile_logged:
  "length (takeWhile (\<lambda>x. x \<noteq> n) xs) = length xs \<longleftrightarrow> n \<notin> set xs"
  "n \<in> set xs \<Longrightarrow> xs ! length (takeWhile (\<lambda>x. x \<noteq> n) xs) = n"
  by (induction xs) auto

lemma log_write_logged:
  fixes s :: "'a logst_scheme"
  assumes g: "log_geo s" "homes_ok s" and o: "1 \<le> outstanding s" and n: "lh_n s < l_size s - 1" and b: "n = b_blockno (bufs s ! i)"
  obtains bs m where "log_write s i = Some (upd_buf (s\<lparr>lh_block := bs, lh_n := m\<rparr>) i (\<lambda>b. b\<lparr>b_dirty := True\<rparr>))" "length bs = 30"
    "take (nat m) bs = (if n \<in> set (logged s) then logged s else logged s @ [n])"
    "m = (if n \<in> set (logged s) then lh_n s else lh_n s + 1)"
proof -
  define j where "j = length (takeWhile (\<lambda>x. x \<noteq> n) (logged s))"
  have l: "length (logged s) = nat (lh_n s)" "length (lh_block s) = 30" "0 \<le> lh_n s" "lh_n s < 30"
    using length_logged [OF g] g n by (auto simp: log_geo_def homes_ok_def LOGSIZE_30)
  have j: "j \<le> nat (lh_n s)" unfolding j_def l(1) [symmetric] by (rule length_takeWhile_le)
  have je: "int j = lh_n s \<longleftrightarrow> n \<notin> set (logged s)" using takeWhile_logged(1) [of n "logged s"] l by (auto simp: j_def)
  let ?m = "if n \<in> set (logged s) then lh_n s else lh_n s + 1"
  have w: "log_write s i = Some (upd_buf (s\<lparr>lh_block := (lh_block s)[j := n], lh_n := ?m\<rparr>) i (\<lambda>b. b\<lparr>b_dirty := True\<rparr>))"
    using o n l je by (simp add: log_write_def LOGSIZE_30 Let_def b j_def logged_def)
  have "take (nat ?m) ((lh_block s)[j := n]) = (if n \<in> set (logged s) then logged s else logged s @ [n])"
  proof (cases "n \<in> set (logged s)")
    case True
    then have "logged s ! j = n" unfolding j_def by (rule takeWhile_logged(2))
    moreover have "take (nat (lh_n s)) ((lh_block s)[j := n]) = (logged s)[j := n]" by (simp add: logged_def take_update_swap)
    ultimately show ?thesis using True list_update_id [of "logged s" j] by simp
  next
    case False
    then have "j = nat (lh_n s)" using je by simp
    moreover have "nat (lh_n s + 1) = Suc (nat (lh_n s))" using l by simp
    ultimately show ?thesis using False l by (simp add: logged_def take_Suc_conv_app_nth)
  qed
  with w l show ?thesis by (intro that [of ?m "(lh_block s)[j := n]"]) auto
qed

lemma bframe_committing:
  fixes s :: "'a logst_scheme"
  assumes "bframe s s'"
  shows "bframe (s\<lparr>committing := n\<rparr>) (s'\<lparr>committing := n\<rparr>)"
proof -
  have "s' = s\<lparr>bufs := bufs s', mru := mru s', disk := disk s', dwrites := dwrites s'\<rparr>" using assms by (simp add: bframe_def)
  then have "s'\<lparr>committing := n\<rparr> = s\<lparr>bufs := bufs s', mru := mru s', disk := disk s', dwrites := dwrites s'\<rparr>\<lparr>committing := n\<rparr>"
    by (rule arg_cong)
  then show ?thesis by (simp add: bframe_def)
qed

definition log_same :: "'a logst_scheme \<Rightarrow> 'a logst_scheme \<Rightarrow> bool" where
  "log_same s s' \<longleftrightarrow> l_start s' = l_start s \<and> l_size s' = l_size s \<and> l_dev s' = l_dev s \<and> outstanding s' = outstanding s \<and>
     committing s' = committing s"

lemma bframe_log_same: "bframe s s' \<Longrightarrow> log_same s s'"
  using bframe_log [of s s'] by (simp add: log_same_def)

lemma log_same_data: "log_same s s' \<Longrightarrow> data_block s' = data_block s"
  by (simp add: log_same_def data_block_def log_area_def fun_eq_iff)

lemma txn_step_spec:
  fixes s :: "'a logst_scheme"
  assumes inv: "log_inv s" and o: "1 \<le> outstanding s" and n: "lh_n s < l_size s - 1" and w: "data_block s (fst w)" "wf_block (snd w)"
  shows "\<exists>s'. txn_step w s = Some s' \<and> log_inv s' \<and> log_same s s' \<and> rview s' = (rview s)(fst w := snd w) \<and> rdisk s' = rdisk s \<and>
    dwrites s' = dwrites s \<and> lh_n s' \<le> lh_n s + 1 \<and> 1 \<le> lh_n s' \<and> set (logged s') = insert (fst w) (set (logged s))"
proof -
  have i: "cst s {}" "log_geo s" "homes_ok s" "rdirty s = set (logged s)" using inv by (auto simp: log_inv_def)
  have "card (pinned s) < NBUF" "fst w < FSSIZE" using log_inv_room [OF inv] w by (auto simp: room_def data_block_def)
  then obtain k s1 where b: "bread s ROOTDEV (fst w) = Some (k, s1)" and t: "takes s {} (fst w) k s1"
    using bread_spec [OF i(1), of "fst w"] by auto
  then have f: "bframe s s1" "cst s1 {k}" "holds_block s1 k (fst w)" by (auto simp: takes_def)
  note e = bframe_log [OF f(1)] bframe_geo [OF f(1)]
  define s2 where "s2 = upd_buf s1 k (\<lambda>b. b\<lparr>b_data := snd w\<rparr>)"
  have kl: "k < length (bufs s1)" "b_blockno (bufs s1 ! k) = fst w" using f by (auto simp: cst_def holds_block_def)
  have s2e: "lh_block s2 = lh_block s" "lh_n s2 = lh_n s" "l_size s2 = l_size s" "l_start s2 = l_start s" "l_dev s2 = l_dev s" "outstanding s2 = outstanding s"
    using e by (simp_all add: s2_def upd_buf_def)
  have s2l: "logged s2 = logged s" "log_geo s2" "homes_ok s2"
    using i by (simp_all add: logged_def log_geo_def homes_ok_def data_block_def log_area_def s2e)
  have "fst w = b_blockno (bufs s2 ! k)" using kl by (simp add: s2_def)
  then obtain bs m where lw: "log_write s2 k = Some (upd_buf (s2\<lparr>lh_block := bs, lh_n := m\<rparr>) k (\<lambda>b. b\<lparr>b_dirty := True\<rparr>))"
    and bs2: "length bs = 30" "take (nat m) bs = (if fst w \<in> set (logged s2) then logged s2 else logged s2 @ [fst w])"
      "m = (if fst w \<in> set (logged s2) then lh_n s2 else lh_n s2 + 1)"
    using log_write_logged [OF s2l(2,3), of "fst w" k] s2e(2,3,6) o n by metis
  note bs = bs2 [unfolded s2l(1) s2e(2)]
  define u where "u = s1\<lparr>lh_block := bs, lh_n := m\<rparr>"
  define s3 where "s3 = upd_buf u k (\<lambda>b. b\<lparr>b_data := snd w, b_dirty := True\<rparr>)"
  have lw3: "log_write s2 k = Some s3" unfolding lw using kl by (simp add: s3_def s2_def u_def upd_buf_def)
  have p: "puts u {k} k (fst w) (snd w) True s3"
    unfolding s3_def by (rule put_pinned) (use f w in \<open>auto simp: u_def\<close>)
  then obtain s4 where r: "brelse s3 k = Some s4" and d: "drops s3 {k} k s4" using brelse_spec [of s3 "{k}" k] by (auto simp: puts_def)
  have f4: "bframe u s4" using p d by (auto simp: puts_def drops_def intro: bframe_trans)
  note e4 = bframe_log [OF f4] bframe_geo [OF f4]
  have lg: "logged s4 = (if fst w \<in> set (logged s) then logged s else logged s @ [fst w])" "lh_n s4 = m"
    using e4 bs(2) by (simp_all add: u_def logged_def)
  have same: "log_same s s4" using e4 e by (simp add: log_same_def u_def)
  have a: "rview s4 = (rview s)(fst w := snd w)" "rdisk s4 = rdisk s" "dwrites s4 = dwrites s" "rdirty s4 = insert (fst w) (rdirty s)" "cst s4 {}"
    using p d t by (auto simp: puts_def drops_def takes_def u_def rdisk_def fun_eq_iff)
  have "log_geo s4" using i(2) same bs(1) e4 by (simp add: log_geo_def log_same_def LOGSIZE_30 u_def)
  moreover have "homes_ok s4"
    using i(3) n w lg bs(3) same log_same_data [OF same] by (auto simp: homes_ok_def log_same_def)
  ultimately have "log_inv s4" using a i(4) lg by (auto simp: log_inv_def)
  moreover have "txn_step w s = Some s4" using b lw3 r i(2) by (simp add: txn_step_def log_geo_def s2_def)
  moreover have "1 \<le> m"
  proof (cases "fst w \<in> set (logged s)")
    case True
    then have "0 < length (logged s)" by (metis length_pos_if_in_set)
    with True length_logged [OF i(2,3)] bs(3) show ?thesis by simp
  qed (use bs(3) i(3) in \<open>simp add: homes_ok_def\<close>)
  moreover have "set (logged s4) = insert (fst w) (set (logged s))" using lg(1) by auto
  ultimately show ?thesis using same a lg(2) bs(3) by auto
qed

lemma txn_loop:
  fixes s :: "'a logst_scheme"
  assumes "log_inv s" "1 \<le> outstanding s" "lh_n s + int (length ws) < l_size s" "\<forall>w \<in> set ws. data_block s (fst w) \<and> wf_block (snd w)"
  shows "\<exists>s'. fold_opt txn_step ws s = Some s' \<and> log_inv s' \<and> log_same s s' \<and> rview s' = writes ws (rview s) \<and> rdisk s' = rdisk s \<and>
    dwrites s' = dwrites s \<and> (ws \<noteq> [] \<longrightarrow> 0 < lh_n s') \<and> (ws = [] \<longrightarrow> s' = s) \<and> set (logged s') = fst ` set ws \<union> set (logged s)"
  using assms
proof (induction ws arbitrary: s)
  case Nil
  then show ?case by (simp add: log_same_def)
next
  case (Cons w ws)
  then obtain s1 where s1: "txn_step w s = Some s1" "log_inv s1" "log_same s s1" "rview s1 = (rview s)(fst w := snd w)" "rdisk s1 = rdisk s"
    "dwrites s1 = dwrites s" "lh_n s1 \<le> lh_n s + 1" "1 \<le> lh_n s1" "set (logged s1) = insert (fst w) (set (logged s))"
    using txn_step_spec [of s w] by auto
  have pre: "1 \<le> outstanding s1" "lh_n s1 + int (length ws) < l_size s1" "\<forall>w \<in> set ws. data_block s1 (fst w) \<and> wf_block (snd w)"
    using s1(3,7) Cons.prems log_same_data [OF s1(3)] by (auto simp: log_same_def)
  obtain s' where s': "fold_opt txn_step ws s1 = Some s'" "log_inv s'" "log_same s1 s'" "rview s' = writes ws (rview s1)" "rdisk s' = rdisk s1"
    "dwrites s' = dwrites s1" "ws \<noteq> [] \<longrightarrow> 0 < lh_n s'" "ws = [] \<longrightarrow> s' = s1"
    "set (logged s') = fst ` set ws \<union> set (logged s1)"
    using Cons.IH [OF s1(2) pre] by blast
  have "0 < lh_n s'" using s'(7,8) s1(8) by (cases ws) auto
  with s' s1 show ?case by (auto simp: log_same_def)
qed

text \<open>Between two transactions: nothing is pinned, the header on the disk is empty and the disk is what reads see.\<close>

definition quiet :: "'a logst_scheme \<Rightarrow> bool" where
  "quiet s \<longleftrightarrow> log_inv s \<and> lh_n s = 0 \<and> outstanding s = 0 \<and> \<not> committing s \<and> sint (load32 (rdisk s (l_start s)) 0) = 0 \<and>
     sb_ok s (rdisk s)"

lemma quiet_view: "quiet s \<Longrightarrow> rview s = rdisk s"
  using rview_clean [of s "{}"] by (auto simp: quiet_def log_inv_def logged_def)


definition txn_ok :: "'a logst_scheme \<Rightarrow> (u32 \<times> bytes) list \<Rightarrow> bool" where
  "txn_ok s ws \<longleftrightarrow> ws \<noteq> [] \<and> int (length ws) \<le> MAXOPBLOCKS \<and> int (length ws) < l_size s \<and>
     (\<forall>w \<in> set ws. data_block s (fst w) \<and> wf_block (snd w))"

lemma txn_spec:
  fixes s :: "'a logst_scheme"
  assumes q: "quiet s" and ok: "txn_ok s ws"
  obtains t s' where "txn ws s = Some s'" "log_inv t" "log_same (s\<lparr>outstanding := 0, committing := True\<rparr>) t" "0 < lh_n t" "rdisk t = rdisk s" "rview t = writes ws (rdisk s)"
    "dwrites t = dwrites s" "wrote (t\<lparr>lh_n := 0, committing := False\<rparr>) (commit_writes t) s'"
proof -
  define s0 where "s0 = s\<lparr>outstanding := 1\<rparr>"
  have qs: "log_inv s" "lh_n s = 0" "outstanding s = 0" "\<not> committing s" using q by (auto simp: quiet_def)
  have b: "begin_op s = Some s0" using qs by (simp add: begin_op_def s0_def LOGSIZE_def MAXOPBLOCKS_def)
  have i0: "log_inv s0" using qs(1) by (simp add: s0_def log_inv_def log_geo_def homes_ok_def logged_def data_block_def log_area_def)
  have pre: "1 \<le> outstanding s0" "lh_n s0 + int (length ws) < l_size s0" "\<forall>w \<in> set ws. data_block s0 (fst w) \<and> wf_block (snd w)"
    using ok qs by (auto simp: s0_def txn_ok_def data_block_def log_area_def)
  obtain s1 where s1: "fold_opt txn_step ws s0 = Some s1" "log_inv s1" "log_same s0 s1" "rview s1 = writes ws (rview s0)" "rdisk s1 = rdisk s0"
    "dwrites s1 = dwrites s0" "0 < lh_n s1"
    using txn_loop [OF i0 pre] ok by (auto simp: txn_ok_def)
  define t where "t = s1\<lparr>outstanding := 0, committing := True\<rparr>"
  have it: "log_inv t" using s1(2) by (simp add: t_def log_inv_def log_geo_def homes_ok_def logged_def data_block_def log_area_def)
  have nt: "0 < lh_n t" using s1(7) by (simp add: t_def)
  obtain s2 where s2: "commit t = Some s2" "wrote (t\<lparr>lh_n := 0\<rparr>) (commit_writes t) s2" using commit_spec [OF it nt] by blast
  have os: "outstanding s1 = 1" "\<not> committing s1" using s1(3) qs by (auto simp: log_same_def s0_def)
  have t: "txn ws s = Some (s2\<lparr>committing := False\<rparr>)"
    using b s1(1) s2(1) os by (simp add: txn_def end_op_def t_def)
  have "wrote (t\<lparr>lh_n := 0, committing := False\<rparr>) (commit_writes t) (s2\<lparr>committing := False\<rparr>)"
    using s2(2) bframe_committing [of "t\<lparr>lh_n := 0\<rparr>" s2 False] by (simp add: wrote_def)
  moreover have "log_same (s\<lparr>outstanding := 0, committing := True\<rparr>) t" using s1(3) by (simp add: log_same_def t_def s0_def)
  ultimately show ?thesis using that [OF t it _ nt] s1 quiet_view [OF q] by (simp add: t_def s0_def)
qed

text \<open>What the disk holds when the machine stops after the first \<open>k\<close> of the disk writes between two states.\<close>

definition crash_disk :: "'a bcache_scheme \<Rightarrow> 'a bcache_scheme \<Rightarrow> nat \<Rightarrow> u32 \<Rightarrow> bytes" where
  "crash_disk s s' k = writes (map (\<lambda>(x, d). (snd x, d)) (take k (drop (length (dwrites s)) (dwrites s')))) (rdisk s)"

lemma crash_disk_wrote:
  assumes "dwrites s' = dwrites s @ map (\<lambda>(n, d). ((ROOTDEV, n), d)) ws"
  shows "crash_disk s s' k = writes (take k ws) (rdisk s)"
proof -
  have "map (\<lambda>(x, d). (snd x, d)) (map (\<lambda>(n, d). ((ROOTDEV, n), d)) (take k ws)) = take k ws" by (induction ws arbitrary: k) (auto simp: take_Cons')
  then show ?thesis using assms by (simp add: crash_disk_def take_map)
qed

lemma log_same_recovers: "log_same s t \<Longrightarrow> recovers t z d \<Longrightarrow> recovers s z d"
  using log_same_data [of s t] by (simp add: recovers_def log_same_def)

lemma txn_quiet:
  fixes t :: "'a logst_scheme"
  assumes t: "log_inv t" "outstanding t = 0" "sb_ok t (rdisk t)"
    and w: "wrote (t\<lparr>lh_n := 0, committing := False\<rparr>) (commit_writes t) s'"
  shows "quiet s'" "data_block t b \<Longrightarrow> rdisk s' b = rview t b"
proof -
  have i: "cst t {}" "log_geo t" "homes_ok t" "rdirty t = set (logged t)" using t by (auto simp: log_inv_def)
  note ho = homes_outside_log [OF i(2,3)]
  have f: "bframe (t\<lparr>lh_n := 0, committing := False\<rparr>) s'" "cst s' {}" using w by (auto simp: wrote_def)
  note e = bframe_log [OF f(1)]
  have rd: "rdisk s' = writes (commit_writes t) (rdisk t)" using w by (simp add: wrote_def)
  have dirty: "rdirty s' = {}" using w i(4) ho(2) by (auto simp: wrote_def commit_writes_def)
  have lg: "logged s' = []" "log_geo s'" "homes_ok s'"
    using i(2) e by (simp_all add: logged_def log_geo_def homes_ok_def)
  have "1 \<notin> fst ` set (commit_writes t)"
    using ho start_area [OF i(2)] i(3) by (auto simp: commit_writes_def homes_ok_def data_block_def)
  then have "sb_ok s' (rdisk s')" using t(3) e rd by (simp add: sb_ok_def writes_other)
  moreover have "sint (load32 (rdisk s' (l_start s')) 0) = 0" using e rd head_put_n [of 0] by (simp add: commit_writes_def)
  ultimately show "quiet s'" using f(2) lg dirty e t(2) by (simp add: quiet_def log_inv_def)
  assume b: "data_block t b"
  then have o: "b \<notin> fst ` set (log_writes t)" "b \<noteq> l_start t" using ho(1) start_area(1) [OF i(2)] by (auto simp: data_block_def)
  show "rdisk s' b = rview t b"
    using o home_writes_at [OF i(2,3)] rview_clean [OF i(1)] i(4) ho(2)
    by (cases "b \<in> set (logged t)") (simp_all add: rd commit_writes_def writes_other)
qed

text \<open>The machine after a reboot that finds \<open>d\<close> on the root disk.\<close>

definition reboot :: "'a logst_scheme \<Rightarrow> (u32 \<Rightarrow> bytes) \<Rightarrow> 'a logst_scheme" where
  "reboot z d = z\<lparr>disk := (\<lambda>x. if fst x = ROOTDEV then d (snd x) else disk z x)\<rparr>"

lemma reboot_simps [simp]: "rdisk (reboot z d) = d" "disk_ready (reboot z d) = disk_ready z" "lh_block (reboot z d) = lh_block z"
  by (simp_all add: reboot_def rdisk_def fun_eq_iff disk_ready_def)

text \<open>C3. A transaction (\<open>begin_op\<close>, up to \<open>MAXOPBLOCKS\<close> blocks read, modified, logged and released, \<open>end_op\<close>) from a quiet
  log returns; all its updates are then on the disk and the log is quiet again. If the machine stops after any number
  of its disk writes, booting with an empty cache and running \<open>initlog\<close> returns and leaves either every data
  block as it was before or every data block as the transaction wrote it.\<close>

theorem transaction_atomic:
  fixes s :: "'a logst_scheme" and z :: "'b logst_scheme"
  assumes q: "quiet s" and ok: "txn_ok s ws" and z: "disk_ready z" "length (lh_block z) = 30"
  shows "\<exists>s'. txn ws s = Some s' \<and> quiet s' \<and> (\<forall>b. data_block s b \<longrightarrow> rdisk s' b = writes ws (rdisk s) b) \<and>
    (\<forall>k. recovers s (reboot z (crash_disk s s' k)) (rdisk s) \<or> recovers s (reboot z (crash_disk s s' k)) (writes ws (rdisk s)))"
proof -
  obtain t s' where tx: "txn ws s = Some s'" and t: "log_inv t" "log_same (s\<lparr>outstanding := 0, committing := True\<rparr>) t" "0 < lh_n t"
    "rdisk t = rdisk s" "rview t = writes ws (rdisk s)" "dwrites t = dwrites s" and w: "wrote (t\<lparr>lh_n := 0, committing := False\<rparr>) (commit_writes t) s'"
    by (rule txn_spec [OF q ok])
  have ls: "l_start t = l_start s" "l_size t = l_size s" "outstanding t = 0" using t(2) by (auto simp: log_same_def)
  then have db: "data_block t = data_block s" by (simp add: data_block_def log_area_def fun_eq_iff)
  have sb: "sb_ok t (rdisk t)" "sint (load32 (rdisk t (l_start t)) 0) = 0" using q ls t(4) by (auto simp: quiet_def sb_ok_def)
  have "dwrites s' = dwrites s @ map (\<lambda>(n, d). ((ROOTDEV, n), d)) (commit_writes t)" using w t(6) by (simp add: wrote_def)
  note cd = crash_disk_wrote [OF this]
  let ?z = "\<lambda>k. reboot z (crash_disk s s' k)"
  have "recovers t (?z k) (if k \<le> nat (lh_n t) then rdisk t else rview t)" for k
    by (rule commit_crash [OF t(1) sb(2) sb(1)]) (use z cd t(4) in simp_all)
  moreover have "recovers t (?z k) d \<longleftrightarrow> recovers s (?z k) d" for k d using ls db by (simp add: recovers_def)
  ultimately have "recovers s (?z k) (rdisk s) \<or> recovers s (?z k) (writes ws (rdisk s))" for k using t(4,5) by (metis (full_types))
  then show ?thesis using tx txn_quiet [OF t(1) ls(3) sb(1) w] db t(5) by auto
qed

text \<open>
  The disk as mkfs.c has it when it has zeroed every block and written the superblock: 1000 blocks, of them 941 for data,
  200 inodes, a log of 30 blocks from block 2 on, the inodes from block 32 and the bitmap in block 58.
\<close>

definition mkfs_super :: bytes where
  "mkfs_super = store32 (store32 (store32 (store32 (store32 (store32 (store32 (\<lambda>_. 0) 0 FSSIZE) 4 941) 8 200) 12 30) 16 2) 20 32) 24 58"

definition mkfs_disk :: "blk \<Rightarrow> bytes" where
  "mkfs_disk x = (if x = (ROOTDEV, 1) then mkfs_super else (\<lambda>_. 0))"

definition fresh_log :: logst where
  "fresh_log = boot_cache \<lparr>bufs = [], mru = [], disk = mkfs_disk, dwrites = [], havedisk1 = True, io_error = (\<lambda>_. False), mypid = 1,
     l_start = 2, l_size = 30, outstanding = 0, committing = False, l_dev = ROOTDEV, lh_n = 0, lh_block = replicate 30 0\<rparr>"

lemma zero_wf: "wf_block (\<lambda>_. 0)"
  by (simp add: wf_block_def)

lemma fresh_quiet: "quiet fresh_log" "disk_ready fresh_log" "length (lh_block fresh_log) = 30" "l_size fresh_log = 30"
  "rdisk fresh_log = (\<lambda>n. mkfs_disk (ROOTDEV, n))" "l_start fresh_log = 2"
proof -
  have wf: "wf_block (mkfs_disk x)" for x by (auto simp: mkfs_disk_def mkfs_super_def intro!: store32_wf zero_wf)
  define z :: logst where "z = \<lparr>bufs = [], mru = [], disk = mkfs_disk, dwrites = [], havedisk1 = True, io_error = (\<lambda>_. False), mypid = 1,
     l_start = 2, l_size = 30, outstanding = 0, committing = False, l_dev = ROOTDEV, lh_n = 0, lh_block = replicate 30 0\<rparr>"
  have fz: "fresh_log = boot_cache z" by (simp add: fresh_log_def z_def)
  have z: "disk_ready z" "wf_block (disk z (ROOTDEV, n))" for n using wf by (auto simp: z_def disk_ready_def)
  note c = boot_cache_ok [of z, OF z]
  show rd: "rdisk fresh_log = (\<lambda>n. mkfs_disk (ROOTDEV, n))"
    by (simp add: fz boot_cache_eq z_def rdisk_def fun_eq_iff)
  show f: "disk_ready fresh_log" "length (lh_block fresh_log) = 30" "l_size fresh_log = 30" "l_start fresh_log = 2"
    by (simp_all add: fz boot_cache_eq z_def disk_ready_def)
  have g: "l_dev fresh_log = ROOTDEV" "lh_n fresh_log = 0" "outstanding fresh_log = 0" "\<not> committing fresh_log"
    by (simp_all add: fz boot_cache_eq z_def)
  have h: "load32 mkfs_super 16 = 2" "load32 mkfs_super 12 = 30" "load32 (\<lambda>_. 0) 0 = 0"
    by (simp_all add: mkfs_super_def load_store32_same load_store32_other) (simp add: load32_def)
  have "log_inv fresh_log"
    using c(1,3) f g by (simp add: log_inv_def log_geo_def homes_ok_def logged_def LOGSIZE_30 fz [symmetric])
  moreover have "sb_ok fresh_log (rdisk fresh_log)" using f h by (simp add: sb_ok_def rd mkfs_disk_def superblock_of_def)
  moreover have "sint (load32 (rdisk fresh_log (l_start fresh_log)) 0) = 0" using f h by (simp add: rd mkfs_disk_def)
  ultimately show "quiet fresh_log" using g by (simp add: quiet_def)
qed

lemma fresh_data: "32 \<le> b \<Longrightarrow> b < FSSIZE \<Longrightarrow> data_block fresh_log b"
  using fresh_quiet by (auto simp: data_block_def log_area_def word_le_nat_alt)

lemma transaction_atomic_witness:
  "\<exists>s'. txn [(100, \<lambda>_. 0), (200, (\<lambda>_. 0)(5 := 7))] fresh_log = Some s' \<and> quiet s' \<and> rdisk s' 200 5 = 7"
proof -
  have "wf_block ((\<lambda>_. 0)(5 := 7))" by (auto simp: wf_block_def BSIZE_def)
  then have "txn_ok fresh_log [(100, \<lambda>_. 0), (200, (\<lambda>_. 0)(5 := 7))]"
    using fresh_quiet fresh_data by (auto simp: txn_ok_def MAXOPBLOCKS_def FSSIZE_def zero_wf)
  from transaction_atomic [OF fresh_quiet(1) this fresh_quiet(2,3)]
  obtain s' where s': "txn [(100, \<lambda>_. 0), (200, (\<lambda>_. 0)(5 := 7))] fresh_log = Some s'" "quiet s'"
    "\<And>b. data_block fresh_log b \<Longrightarrow> rdisk s' b = writes [(100, \<lambda>_. 0), (200, (\<lambda>_. 0)(5 := 7))] (rdisk fresh_log) b" by blast
  have "data_block fresh_log 200" by (rule fresh_data) (simp_all add: FSSIZE_def)
  with s' show ?thesis by simp
qed

text \<open>C35. \<open>begin_op\<close> admits three operations, each of which may log \<open>MAXOPBLOCKS\<close> = 10 blocks, against a log that
  mkfs makes 30 blocks long; one of them is the header, so after 29 different blocks any further \<open>log_write\<close>
  panics, although the three operations have not used up what they reserved.\<close>

theorem log_reservation_short:
  fixes s :: "'a logst_scheme"
  assumes q: "quiet s" "l_size s = 30" and ws: "length ws = 29" "distinct (map fst ws)" "\<forall>w \<in> set ws. data_block s (fst w) \<and> wf_block (snd w)"
  shows "\<exists>s3 t. fold_opt (\<lambda>_. begin_op) [0, 1, 2 :: nat] s = Some s3 \<and> outstanding s3 = 3 \<and> fold_opt txn_step ws s3 = Some t \<and>
    lh_n t = 29 \<and> int (length ws) < 3 * MAXOPBLOCKS \<and> log_write t i = None"
proof -
  define s3 where "s3 = s\<lparr>outstanding := 3\<rparr>"
  have qs: "log_inv s" "lh_n s = 0" "outstanding s = 0" "\<not> committing s" using q by (auto simp: quiet_def)
  have b: "fold_opt (\<lambda>_. begin_op) [0, 1, 2 :: nat] s = Some s3" using qs by (simp add: begin_op_def s3_def LOGSIZE_def MAXOPBLOCKS_def)
  have i3: "log_inv s3" using qs(1) by (simp add: s3_def log_inv_def log_geo_def homes_ok_def logged_def data_block_def log_area_def)
  have pre: "1 \<le> outstanding s3" "lh_n s3 + int (length ws) < l_size s3" "\<forall>w \<in> set ws. data_block s3 (fst w) \<and> wf_block (snd w)"
    using ws q qs by (auto simp: s3_def data_block_def log_area_def)
  obtain t where t: "fold_opt txn_step ws s3 = Some t" "log_inv t" "log_same s3 t" "set (logged t) = fst ` set ws \<union> set (logged s3)"
    using txn_loop [OF i3 pre] by blast
  have "logged s3 = []" using qs by (simp add: s3_def logged_def)
  then have "card (set (logged t)) = 29" using t(4) ws(1,2) distinct_card [of "map fst ws"] by simp
  moreover have "distinct (logged t)" "length (logged t) = nat (lh_n t)" "0 \<le> lh_n t"
    using t(2) length_logged [of t] by (auto simp: log_inv_def homes_ok_def)
  ultimately have n: "lh_n t = 29" using distinct_card [of "logged t"] by simp
  have "l_size t = 30" using t(3) q(2) by (simp add: log_same_def s3_def)
  then have "log_write t i = None" using n by (simp add: log_write_def)
  then show ?thesis using b t(1) n ws(1) by (auto simp: s3_def MAXOPBLOCKS_def)
qed

lemma log_reservation_short_witness:
  "\<exists>s3 t. fold_opt (\<lambda>_. begin_op) [0, 1, 2 :: nat] fresh_log = Some s3 \<and> outstanding s3 = 3 \<and>
     fold_opt txn_step (map (\<lambda>n. (of_nat n, \<lambda>_. 0)) [100..<129]) s3 = Some t \<and> log_write t 0 = None"
proof -
  let ?ws = "map (\<lambda>n. (of_nat n :: u32, (\<lambda>_. 0) :: bytes)) [100..<129]"
  have d: "distinct (map fst ?ws)" by (simp add: comp_def distinct_map inj_on_def word_of_nat_eq_iff take_bit_nat_eq_self)
  have w: "\<forall>w \<in> set ?ws. data_block fresh_log (fst w) \<and> wf_block (snd w)"
    by (auto simp: zero_wf FSSIZE_def intro!: fresh_data)
  from log_reservation_short [OF fresh_quiet(1,4) _ d w, of 0] show ?thesis by auto
qed

end
