(* ===== verification/X6Txn.thy ===== *)
theory X6Txn
  imports X6Crash
begin

text \<open>
  Rules for code that runs inside a transaction of the log and holds buffers while it does so. \<open>tx s H k\<close>: a transaction
  is open, the process holds the buffers \<open>H\<close>, and \<open>k\<close> further blocks fit into the log. The bound 27 leaves three of the 30
  buffers that no logged block pins, so that up to three can be held at a time.
\<close>

definition tx :: "'a logst_scheme \<Rightarrow> nat set \<Rightarrow> nat \<Rightarrow> bool" where
  "tx s H k \<longleftrightarrow> cst s H \<and> log_geo s \<and> homes_ok s \<and> rdirty s = set (logged s) \<and> 1 \<le> outstanding s \<and>
     lh_n s + int k < l_size s \<and> lh_n s + int k \<le> 27"

text \<open>What a step leaves alone: the log geometry, the disk, the buffers \<open>K\<close> and everything above the log.\<close>

definition tx_frame :: "nat set \<Rightarrow> 'a logst_scheme \<Rightarrow> 'a logst_scheme \<Rightarrow> bool" where
  "tx_frame K s s' \<longleftrightarrow> log_same s s' \<and> logst.more s' = logst.more s \<and> mypid s' = mypid s \<and> disk s' = disk s \<and> dwrites s' = dwrites s \<and>
     (\<forall>i \<in> K. bufs s' ! i = bufs s ! i)"

lemma tx_frame_refl [simp]: "tx_frame K s s"
  by (simp add: tx_frame_def log_same_def)

lemma tx_frame_trans: "tx_frame K s t \<Longrightarrow> tx_frame L t u \<Longrightarrow> M \<subseteq> K \<Longrightarrow> M \<subseteq> L \<Longrightarrow> tx_frame M s u"
  unfolding tx_frame_def log_same_def by (metis subsetD)

lemma tx_frame_data: "tx_frame K s s' \<Longrightarrow> data_block s' = data_block s"
  by (simp add: tx_frame_def log_same_data)

lemma tx_frame_holds: "tx_frame K s s' \<Longrightarrow> i \<in> K \<Longrightarrow> holds_block s' i n = holds_block s i n"
  by (simp add: tx_frame_def holds_block_def)

lemma tx_less: "tx s H k \<Longrightarrow> j \<le> k \<Longrightarrow> tx s H j"
  by (auto simp: tx_def)

lemma tx_log_inv: "log_inv s \<Longrightarrow> 1 \<le> outstanding s \<Longrightarrow> lh_n s + int k < l_size s \<Longrightarrow> lh_n s + int k \<le> 27 \<Longrightarrow> tx s {} k"
  by (simp add: tx_def log_inv_def)

lemma bframe_tx_frame:
  assumes "bframe s s'" "disk s' = disk s" "dwrites s' = dwrites s" "\<And>i. i \<in> K \<Longrightarrow> bufs s' ! i = bufs s ! i"
  shows "tx_frame K (s :: 'a logst_scheme) s'"
proof -
  have e: "s' = s\<lparr>bufs := bufs s', mru := mru s', disk := disk s', dwrites := dwrites s'\<rparr>" using assms(1) by (simp add: bframe_def)
  have "logst.more s' = logst.more s" by (subst e) simp
  then show ?thesis using assms bframe_log_same [OF assms(1)] bframeD [OF assms(1)] by (simp add: tx_frame_def)
qed

lemma bframe_tx:
  assumes "bframe s s'" "cst s' H'" "rdirty s' = rdirty s"
  shows "tx s H k \<Longrightarrow> tx (s' :: 'a logst_scheme) H' k"
  using assms bframe_log [OF assms(1)] bframe_geo [OF assms(1)] by (simp add: tx_def)

lemma tx_bread:
  fixes s :: "'a logst_scheme"
  assumes t: "tx s H k" and h: "card H \<le> 2" "\<And>i. i \<in> H \<Longrightarrow> \<not> holds_block s i n" and n: "n < FSSIZE"
  obtains i s' where "bread s ROOTDEV n = Some (i, s')" "i \<notin> H" "tx s' (insert i H) k" "tx_frame (- {i}) s s'" "rview s' = rview s"
    "holds_block s' i n" "b_data (bufs s' ! i) = rview s n"
proof -
  have c: "cst s H" using t by (simp add: tx_def)
  have "card (pinned s) = card (set (logged s))" using card_pinned [OF c] t by (simp add: tx_def)
  also have "\<dots> \<le> nat (lh_n s)" using card_length [of "logged s"] length_logged [of s] t by (simp add: tx_def)
  finally have "card (pinned s) \<le> 27" using t by (auto simp: tx_def homes_ok_def)
  then have "card (H \<union> pinned s) < NBUF" using h(1) card_Un_le [of H "pinned s"] by (simp add: NBUF_def)
  then obtain i s' where b: "bread s ROOTDEV n = Some (i, s')" "takes s H n i s'" using bread_spec [OF c n h(2)] by blast
  then have k: "bframe s s'" "cst s' (insert i H)" "rdirty s' = rdirty s" "disk s' = disk s" "dwrites s' = dwrites s" "i \<notin> H" "rview s' = rview s"
    "holds_block s' i n" "b_data (bufs s' ! i) = rview s n" "\<And>j. j \<in> - {i} \<Longrightarrow> bufs s' ! j = bufs s ! j"
    by (auto simp: takes_def)
  show ?thesis
    by (rule that [OF b(1) k(6) bframe_tx [OF k(1,2,3) t] bframe_tx_frame [OF k(1,4,5,10)] k(7-9)])
qed

lemma tx_brelse:
  fixes s :: "'a logst_scheme"
  assumes t: "tx s H k" and i: "i \<in> H"
  obtains s' where "brelse s i = Some s'" "tx s' (H - {i}) k" "tx_frame (- {i}) s s'" "rview s' = rview s" "\<And>j m. holds_block s' j m = holds_block s j m"
proof -
  have c: "cst s H" using t by (simp add: tx_def)
  obtain s' where b: "brelse s i = Some s'" "drops s H i s'" using brelse_spec [OF c i] by blast
  then have k: "bframe s s'" "cst s' (H - {i})" "rdirty s' = rdirty s" "disk s' = disk s" "dwrites s' = dwrites s" "rview s' = rview s"
    "\<And>j. j \<in> - {i} \<Longrightarrow> bufs s' ! j = bufs s ! j" "\<And>j m. holds_block s' j m = holds_block s j m"
    by (auto simp: drops_def)
  show ?thesis
    by (rule that [OF b(1) bframe_tx [OF k(1,2,3) t] bframe_tx_frame [OF k(1,4,5,7)] k(6,8)])
qed

lemma tx_log_write:
  fixes s :: "'a logst_scheme"
  assumes t: "tx s H (Suc k)" and i: "i \<in> H" "holds_block s i n" and d: "data_block s n" "wf_block d"
  obtains s' where "log_write (upd_buf s i (\<lambda>b. b\<lparr>b_data := d\<rparr>)) i = Some s'" "tx s' H k" "tx_frame (- {i}) s s'"
    "rview s' = (rview s)(n := d)" "\<And>j m. holds_block s' j m = holds_block s j m"
proof -
  have c: "cst s H" "log_geo s" "homes_ok s" "rdirty s = set (logged s)" "1 \<le> outstanding s" "lh_n s < l_size s - 1" "lh_n s + int k < 27"
    "lh_n s + int k + 1 < l_size s"
    using t by (auto simp: tx_def)
  define s2 where "s2 = upd_buf s i (\<lambda>b. b\<lparr>b_data := d\<rparr>)"
  have il: "i < length (bufs s)" "b_blockno (bufs s ! i) = n" using c i by (auto simp: cst_def holds_block_def)
  have s2e: "lh_block s2 = lh_block s" "lh_n s2 = lh_n s" "l_size s2 = l_size s" "l_start s2 = l_start s" "l_dev s2 = l_dev s" "outstanding s2 = outstanding s"
    by (simp_all add: s2_def upd_buf_def)
  have s2l: "logged s2 = logged s" "log_geo s2" "homes_ok s2"
    using c by (simp_all add: logged_def log_geo_def homes_ok_def data_block_def log_area_def s2e)
  have "n = b_blockno (bufs s2 ! i)" using il by (simp add: s2_def)
  then obtain bs m where lw: "log_write s2 i = Some (upd_buf (s2\<lparr>lh_block := bs, lh_n := m\<rparr>) i (\<lambda>b. b\<lparr>b_dirty := True\<rparr>))"
    and bs2: "length bs = 30" "take (nat m) bs = (if n \<in> set (logged s2) then logged s2 else logged s2 @ [n])"
      "m = (if n \<in> set (logged s2) then lh_n s2 else lh_n s2 + 1)"
    using log_write_logged [OF s2l(2,3), of n i] s2e(2,3,6) c(5,6) by metis
  note bs = bs2 [unfolded s2l(1) s2e(2)]
  define u where "u = s\<lparr>lh_block := bs, lh_n := m\<rparr>"
  define s3 where "s3 = upd_buf u i (\<lambda>b. b\<lparr>b_data := d, b_dirty := True\<rparr>)"
  have lw3: "log_write s2 i = Some s3" unfolding lw using il by (simp add: s3_def s2_def u_def upd_buf_def)
  have p: "puts u H i n d True s3" unfolding s3_def by (rule put_pinned) (use c i d in \<open>auto simp: u_def\<close>)
  have f: "bframe u s3" using p by (simp add: puts_def)
  note e = bframe_log [OF f] bframe_geo [OF f]
  have lg: "logged s3 = (if n \<in> set (logged s) then logged s else logged s @ [n])" "lh_n s3 = m"
    using e bs(2) by (simp_all add: u_def logged_def)
  have same: "log_same s s3" using e by (simp add: log_same_def u_def)
  have a: "rview s3 = (rview s)(n := d)" "disk s3 = disk s" "dwrites s3 = dwrites s" "rdirty s3 = insert n (rdirty s)" "cst s3 H" "mypid s3 = mypid s"
    "\<And>j. j \<in> - {i} \<Longrightarrow> bufs s3 ! j = bufs s ! j" "\<And>j m. holds_block s3 j m = holds_block s j m"
    using p by (auto simp: puts_def u_def s3_def)
  have g: "log_geo s3" using c(2) same bs(1) e by (simp add: log_geo_def log_same_def LOGSIZE_30 u_def)
  have h: "homes_ok s3" using c(3,6) d lg bs(3) same log_same_data [OF same] by (auto simp: homes_ok_def log_same_def)
  have "tx s3 H k" using a g h c lg bs(3) same by (auto simp: tx_def log_same_def)
  moreover have "tx_frame (- {i}) s s3" using same a by (simp add: tx_frame_def) (simp add: s3_def u_def upd_buf_def)
  ultimately show ?thesis using that lw3 a(1,8) by (simp add: s2_def)
qed

text \<open>The idiom of the file system: read a block, change its buffer, log it, release it.\<close>

lemma tx_update:
  fixes s :: "'a logst_scheme"
  assumes t: "tx s H (Suc k)" and h: "card H \<le> 2" "\<And>i. i \<in> H \<Longrightarrow> \<not> holds_block s i n" and n: "data_block s n"
    and w: "wf_block (f (rview s n))"
  obtains i s1 s2 s3 where "bread s ROOTDEV n = Some (i, s1)" "b_data (bufs s1 ! i) = rview s n" "logst.more s1 = logst.more s"
    "log_write (upd_buf s1 i (\<lambda>b. b\<lparr>b_data := f (b_data b)\<rparr>)) i = Some s2" "brelse s2 i = Some s3" "tx s3 H k"
    "tx_frame H s s3" "rview s3 = (rview s)(n := f (rview s n))"
proof -
  have "n < FSSIZE" using n by (simp add: data_block_def)
  then obtain i s1 where b: "bread s ROOTDEV n = Some (i, s1)" "i \<notin> H" "tx s1 (insert i H) (Suc k)" "tx_frame (- {i}) s s1" "rview s1 = rview s"
    "holds_block s1 i n" "b_data (bufs s1 ! i) = rview s n" using tx_bread [OF t h] by blast
  have n1: "data_block s1 n" using n tx_frame_data [OF b(4)] by simp
  obtain s2 where l: "log_write (upd_buf s1 i (\<lambda>b. b\<lparr>b_data := f (rview s n)\<rparr>)) i = Some s2" "tx s2 (insert i H) k" "tx_frame (- {i}) s1 s2"
    "rview s2 = (rview s1)(n := f (rview s n))" using tx_log_write [OF b(3) _ b(6) n1 w] by blast
  obtain s3 where r: "brelse s2 i = Some s3" "tx s3 (insert i H - {i}) k" "tx_frame (- {i}) s2 s3" "rview s3 = rview s2"
    using tx_brelse [OF l(2)] by blast
  have u: "upd_buf s1 i (\<lambda>b. b\<lparr>b_data := f (b_data b)\<rparr>) = upd_buf s1 i (\<lambda>b. b\<lparr>b_data := f (rview s n)\<rparr>)"
    using b(7) by (simp add: upd_buf_def)
  have "H \<subseteq> - {i}" using b(2) by blast
  then have "tx_frame H s s3" using b(4) l(3) r(3) by (meson order_refl tx_frame_trans)
  moreover have "insert i H - {i} = H" using b(2) by blast
  moreover have "logst.more s1 = logst.more s" using b(4) by (simp add: tx_frame_def)
  ultimately show ?thesis using that [OF b(1,7)] l r b(5) u by simp
qed

lemma tx_read:
  fixes s :: "'a logst_scheme"
  assumes t: "tx s H k" and h: "card H \<le> 2" "\<And>i. i \<in> H \<Longrightarrow> \<not> holds_block s i n" and n: "n < FSSIZE"
  obtains i s1 s2 where "bread s ROOTDEV n = Some (i, s1)" "b_data (bufs s1 ! i) = rview s n" "logst.more s1 = logst.more s"
    "brelse s1 i = Some s2" "tx s2 H k" "tx_frame H s s2" "rview s2 = rview s"
proof -
  obtain i s1 where b: "bread s ROOTDEV n = Some (i, s1)" "i \<notin> H" "tx s1 (insert i H) k" "tx_frame (- {i}) s s1" "rview s1 = rview s"
    "b_data (bufs s1 ! i) = rview s n" using tx_bread [OF t h n] by blast
  obtain s2 where r: "brelse s1 i = Some s2" "tx s2 (insert i H - {i}) k" "tx_frame (- {i}) s1 s2" "rview s2 = rview s1"
    using tx_brelse [OF b(3)] by blast
  have "H \<subseteq> - {i}" using b(2) by blast
  then have "tx_frame H s s2" using b(4) r(3) by (meson order_refl tx_frame_trans)
  moreover have "insert i H - {i} = H" using b(2) by blast
  moreover have "logst.more s1 = logst.more s" using b(4) by (simp add: tx_frame_def)
  ultimately show ?thesis using that [OF b(1,6)] r b(5) by simp
qed

end
