(* ===== verification/X6String.thy ===== *)
theory X6String
  imports JosString
begin

text \<open>
  The string routines of xv6 (string.c). The byte loops of \<open>memmove\<close> have the effect of \<open>rep_movsb\<close> and
  \<open>rep_movsb_down\<close>; \<open>stosl\<close> and \<open>stosb\<close> of x86.h are the instructions of \<open>CMem\<close>. Signed counters are
  32-bit words read with \<open>sint\<close>. Constants carry the prefix \<open>x_\<close> where JOS has a routine of the same name.
\<close>

definition x_memset :: "bytes \<Rightarrow> u32 \<Rightarrow> u32 \<Rightarrow> u32 \<Rightarrow> u32 \<times> bytes" where
  "x_memset m dst c n =
     (if mult4 dst \<and> mult4 n
      then let c = c AND 0xFF
           in (dst, rep_stosl m dst (push_bit 24 c OR push_bit 16 c OR push_bit 8 c OR c) (unat (n div 4)))
      else (dst, rep_stosb m dst (ucast c) (unat n)))"

fun x_memcmp_loop :: "bytes \<Rightarrow> u32 \<Rightarrow> u32 \<Rightarrow> nat \<Rightarrow> int" where
  "x_memcmp_loop m s1 s2 0 = 0"
| "x_memcmp_loop m s1 s2 (Suc n) = (if m s1 \<noteq> m s2 then byte_diff (m s1) (m s2) else x_memcmp_loop m (s1 + 1) (s2 + 1) n)"

definition x_memcmp :: "bytes \<Rightarrow> u32 \<Rightarrow> u32 \<Rightarrow> u32 \<Rightarrow> int" where
  "x_memcmp m v1 v2 n = x_memcmp_loop m v1 v2 (unat n)"

definition x_memmove :: "bytes \<Rightarrow> u32 \<Rightarrow> u32 \<Rightarrow> u32 \<Rightarrow> u32 \<times> bytes" where
  "x_memmove m dst src n =
     (if src < dst \<and> src + n > dst
      then let s = src + n; d = dst + n in (dst, rep_movsb_down m (d - 1) (s - 1) (unat n))
      else (dst, rep_movsb m dst src (unat n)))"

definition x_memcpy :: "bytes \<Rightarrow> u32 \<Rightarrow> u32 \<Rightarrow> u32 \<Rightarrow> u32 \<times> bytes" where
  "x_memcpy m dst src n = x_memmove m dst src n"

fun x_strncmp_loop :: "bytes \<Rightarrow> u32 \<Rightarrow> u32 \<Rightarrow> nat \<Rightarrow> int" where
  "x_strncmp_loop m p q 0 = 0"
| "x_strncmp_loop m p q (Suc n) =
     (if m p \<noteq> 0 \<and> m p = m q then x_strncmp_loop m (p + 1) (q + 1) n else byte_diff (m p) (m q))"

definition x_strncmp :: "bytes \<Rightarrow> u32 \<Rightarrow> u32 \<Rightarrow> u32 \<Rightarrow> int" where
  "x_strncmp m p q n = x_strncmp_loop m p q (unat n)"

text \<open>The two loops of \<open>strncpy\<close>: copy up to and including the zero byte, then fill with zeros.\<close>

fun x_strncpy_loop :: "bytes \<Rightarrow> u32 \<Rightarrow> u32 \<Rightarrow> nat \<Rightarrow> bytes" where
  "x_strncpy_loop m s t 0 = m"
| "x_strncpy_loop m s t (Suc n) =
     (let c = m t; m = m(s := c)
      in if c \<noteq> 0 then x_strncpy_loop m (s + 1) (t + 1) n else rep_stosb m (s + 1) 0 n)"

definition x_strncpy :: "bytes \<Rightarrow> u32 \<Rightarrow> u32 \<Rightarrow> u32 \<Rightarrow> u32 \<times> bytes" where
  "x_strncpy m s t n = (s, x_strncpy_loop m s t (nat (sint n)))"

text \<open>The loop of \<open>safestrcpy\<close>; its last argument is \<open>n - 1\<close> on entry. The result is the position behind the copy.\<close>

fun safestrcpy_loop :: "bytes \<Rightarrow> u32 \<Rightarrow> u32 \<Rightarrow> nat \<Rightarrow> u32 \<times> bytes" where
  "safestrcpy_loop m s t 0 = (s, m)"
| "safestrcpy_loop m s t (Suc n) =
     (let c = m t; m = m(s := c)
      in if c \<noteq> 0 then safestrcpy_loop m (s + 1) (t + 1) n else (s + 1, m))"

definition safestrcpy :: "bytes \<Rightarrow> u32 \<Rightarrow> u32 \<Rightarrow> u32 \<Rightarrow> u32 \<times> bytes" where
  "safestrcpy m s t n =
     (if sint n \<le> 0 then (s, m)
      else let (s', m) = safestrcpy_loop m s t (nat (sint n) - 1) in (s, m(s' := 0)))"

partial_function (option) x_strlen_loop :: "bytes \<Rightarrow> u32 \<Rightarrow> u32 \<Rightarrow> u32 option" where
  "x_strlen_loop m s n = (if m (s + n) \<noteq> 0 then x_strlen_loop m s (n + 1) else Some n)"

definition x_strlen :: "bytes \<Rightarrow> u32 \<Rightarrow> u32 option" where
  "x_strlen m s = x_strlen_loop m s 0"

subsection \<open>Equivalence with the JOS routines\<close>

lemma x_memcmp_loop_eq: "x_memcmp_loop m s1 s2 n = memcmp_loop m s1 s2 n"
  by (induction n arbitrary: s1 s2) simp_all

lemma x_strncmp_loop_eq: "x_strncmp_loop m p q n = strncmp_loop m p q n"
  by (induction n arbitrary: p q) simp_all

lemma x_memset_eq: "x_memset m dst c n = memset m dst c n"
  by (auto simp: x_memset_def memset_def Let_def)

text \<open>
  The routines that xv6 and JOS both have behave alike: \<open>memset\<close>, \<open>memcmp\<close> and \<open>strncmp\<close> always,
  \<open>memmove\<close> and \<open>memcpy\<close> on ranges that do not wrap around the address space.
\<close>

theorem string_routines_agree:
  assumes "unat src + unat n < 4294967296" "unat dst + unat n \<le> 4294967296"
  shows "x_memmove m dst src n = memmove m dst src n \<and> x_memcpy m dst src n = memcpy m dst src n \<and>
     x_memset m dst c n = memset m dst c n \<and> x_memcmp m dst src n = memcmp m dst src n \<and>
     x_strncmp m dst src n = strncmp m dst src n"
proof -
  have sum: "unat (src + n) = unat src + unat n" using assms(1) by (simp add: unat_word_ariths)
  have "x_memmove m dst src n = (dst, copied m dst src (unat n))"
  proof (cases "src < dst \<and> src + n > dst")
    case True
    then have "rep_movsb_down m (dst + n - 1) (src + n - 1) (unat n) = copied m dst src (unat n)"
      using assms by (intro memmove_backward) (simp_all add: word_less_nat_alt)
    with True show ?thesis by (simp add: x_memmove_def Let_def)
  next
    case False
    then have "rep_movsb m dst src (unat n) = copied m dst src (unat n)"
      using assms sum by (intro memmove_forward) (auto simp: word_less_nat_alt)
    with False show ?thesis by (auto simp: x_memmove_def)
  qed
  then show ?thesis
    by (simp add: x_memset_eq memmove_copied [OF assms] x_memcpy_def memcpy_def x_memcmp_def memcmp_def x_memcmp_loop_eq
        x_strncmp_def strncmp_def x_strncmp_loop_eq)
qed

theorem string_routines_agree_witness:
  "x_memmove (\<lambda>a. ucast a) 0x102 0x100 8 = memmove (\<lambda>a. ucast a) 0x102 0x100 8"
  using string_routines_agree [of "0x100" 8 "0x102" "\<lambda>a. ucast a"] by simp

subsection \<open>Copying names\<close>

lemma safestrcpy_loop_str:
  assumes "str_at m t xs" "apart s t (Suc (length xs))"
  shows "safestrcpy_loop m s t n =
     (if n \<le> length xs then (s + of_nat n, rep_movsb m s t n)
      else (s + of_nat (Suc (length xs)), rep_movsb m s t (Suc (length xs))))"
  using assms
proof (induction n arbitrary: m s t xs)
  case (Suc n)
  show ?case
  proof (cases xs)
    case Nil
    then show ?thesis using Suc.prems(1) by (simp add: Let_def)
  next
    case (Cons x ys)
    have "str_at (m(s := x)) (t + 1) ys"
    proof (rule str_at_cong)
      show "str_at m (t + 1) ys" using Suc.prems(1) Cons by simp
      show "(m(s := x)) (t + 1 + of_nat i) = m (t + 1 + of_nat i)" if "i \<le> length ys" for i
        using apart_head [OF Suc.prems(2) [unfolded Cons], of i] that by simp
    qed
    moreover have "apart (s + 1) (t + 1) (Suc (length ys))" using Suc.prems(2) Cons by (simp add: apart_tail)
    ultimately have "safestrcpy_loop (m(s := x)) (s + 1) (t + 1) n =
       (if n \<le> length ys then (s + 1 + of_nat n, rep_movsb (m(s := x)) (s + 1) (t + 1) n)
        else (s + 1 + of_nat (Suc (length ys)), rep_movsb (m(s := x)) (s + 1) (t + 1) (Suc (length ys))))"
      by (rule Suc.IH)
    moreover have "m t = x" "x \<noteq> 0" using Suc.prems(1) Cons by simp_all
    then have "safestrcpy_loop m s t (Suc n) = safestrcpy_loop (m(s := x)) (s + 1) (t + 1) n"
      "\<And>k. rep_movsb m s t (Suc k) = rep_movsb (m(s := x)) (s + 1) (t + 1) k"
      by (simp_all only: safestrcpy_loop.simps rep_movsb.simps Let_def if_True simp_thms if_False)
    ultimately show ?thesis
      by (simp only: Cons list.size Suc_le_mono of_nat_Suc add.assoc add_0_left add_Suc_right add_0_right)
  qed
qed simp

text \<open>
  \<open>safestrcpy\<close> writes only within \<open>n\<close> bytes of the destination and always leaves a string there: the
  longest prefix of the source that fits. (Source and destination must not overlap.)
\<close>

theorem safestrcpy_correct:
  assumes x: "str_at m t xs" and ap: "apart s t (Suc (length xs))" and n: "0 < sint n" and len: "length xs < 2147483648"
  shows "\<exists>m'. safestrcpy m s t n = (s, m') \<and> str_at m' s (take (unat n - 1) xs) \<and> (\<forall>a. n \<le> a - s \<longrightarrow> m' a = m a)"
proof -
  let ?N = "unat n"
  have N: "nat (sint n) = ?N" "0 < ?N" "?N < 2147483648"
    using n sint_pos_u32 [of n] by (auto simp: sint_u32)
  note L = safestrcpy_loop_str [OF x ap, of "?N - 1"]
  have M: "rep_movsb m s t k = copied m s t k" if "k \<le> Suc (length xs)" for k
    unfolding copied_def using that ap len by (intro ext rep_movsb_eq) (auto simp: apart_def)
  have off: "unat (s + of_nat k - s) = k" if "k \<le> Suc (length xs)" for k
    using that len by (simp add: off_of_nat)
  show ?thesis
  proof (cases "?N - 1 \<le> length xs")
    case True
    let ?m = "(copied m s t (?N - 1))(s + of_nat (?N - 1) := 0)"
    have "safestrcpy m s t n = (s, ?m)"
      using n N L M [of "?N - 1"] True by (simp add: safestrcpy_def)
    moreover have "str_at ?m s (take (?N - 1) xs)"
      using x True N(3) by (intro copied_prefix_str) simp_all
    moreover have "?m a = m a" if "n \<le> a - s" for a
      using that off [of "?N - 1"] True N(2) by (auto simp: copied_def word_le_nat_alt)
    ultimately show ?thesis by blast
  next
    case False
    let ?m = "(copied m s t (Suc (length xs)))(s + of_nat (Suc (length xs)) := 0)"
    have "safestrcpy m s t n = (s, ?m)"
      using n N L M [of "Suc (length xs)"] False by (simp add: safestrcpy_def)
    moreover have "str_at ?m s xs"
    proof (rule str_at_cong [OF copied_str [OF x, of s]])
      show "length xs < 4294967296" using len by simp
      show "?m (s + of_nat i) = copied m s t (Suc (length xs)) (s + of_nat i)" if "i \<le> length xs" for i
        using off [of i] off [of "Suc (length xs)"] that by (auto simp del: of_nat_Suc)
    qed
    moreover have "?m a = m a" if "n \<le> a - s" for a
      using that off [of "Suc (length xs)"] False by (auto simp: copied_def word_le_nat_alt simp del: of_nat_Suc)
    ultimately show ?thesis using False by auto
  qed
qed

theorem safestrcpy_correct_witness:
  "\<exists>m'. safestrcpy ((\<lambda>_. 0)(0x200 := 0x61, 0x201 := 0x62, 0x202 := 0x63)) 0x100 0x200 3 = (0x100, m') \<and> str_at m' 0x100 [0x61, 0x62]"
proof -
  let ?m = "(\<lambda>_. 0 :: u8)(0x200 := 0x61, 0x201 := 0x62, 0x202 := 0x63) :: bytes" and ?xs = "[0x61, 0x62, 0x63 :: u8]"
  have "apart 0x100 0x200 (Suc (length ?xs))"
    by (auto simp: apart_def less_Suc_eq)
  then have "\<exists>m'. safestrcpy ?m 0x100 0x200 3 = (0x100, m') \<and>
     str_at m' 0x100 (take (unat (3 :: u32) - 1) ?xs) \<and> (\<forall>a. 3 \<le> a - 0x100 \<longrightarrow> m' a = ?m a)"
    by (intro safestrcpy_correct) simp_all
  moreover have "take (unat (3 :: u32) - 1) ?xs = [0x61, 0x62]" by simp
  ultimately show ?thesis by auto
qed

end
