(* ===== verification/X6Kalloc.thy ===== *)
theory X6Kalloc
  imports X6String Allocator
begin

text \<open>
  The physical page allocator of xv6 (kalloc.c). Memory is seen through the kernel's mapping, so a page is its kernel
  virtual address, and the free list is threaded through the free pages themselves: the first word of a free page
  is the address of the next one. \<open>end\<close> and \<open>data\<close> are set by the linker and fields of the state. The list lock of \<open>kmem\<close>
  is taken and released around the list operations and not modelled. A panic is \<open>None\<close>.
\<close>

definition X_PGSIZE :: u32 where "X_PGSIZE = 4096"
definition X_KERNBASE :: u32 where "X_KERNBASE = 0x80000000"
definition PHYSTOP :: u32 where "PHYSTOP = 0xE000000"

definition V2P :: "u32 \<Rightarrow> u32" where "V2P a = a - X_KERNBASE"
definition P2V :: "u32 \<Rightarrow> u32" where "P2V a = a + X_KERNBASE"

definition X_PGROUNDUP :: "u32 \<Rightarrow> u32" where "X_PGROUNDUP sz = (sz + X_PGSIZE - 1) AND NOT (X_PGSIZE - 1)"
definition X_PGROUNDDOWN :: "u32 \<Rightarrow> u32" where "X_PGROUNDDOWN a = a AND NOT (X_PGSIZE - 1)"

record pmem =
  pm :: bytes
  freelist :: u32
  kend :: u32
  kdata :: u32

definition kfree :: "pmem \<Rightarrow> u32 \<Rightarrow> pmem option" where
  "kfree s v =
     (if v mod X_PGSIZE \<noteq> 0 \<or> v < kend s \<or> V2P v \<ge> PHYSTOP then None
      else
        let m = snd (x_memset (pm s) v 1 X_PGSIZE)
        in Some (s\<lparr>pm := store32 m v (freelist s), freelist := v\<rparr>))"

definition kalloc :: "pmem \<Rightarrow> u32 \<times> pmem" where
  "kalloc s = (let r = freelist s in (r, if r \<noteq> 0 then s\<lparr>freelist := load32 (pm s) r\<rparr> else s))"

text \<open>The loop of \<open>freerange\<close> would not end if \<open>vend\<close> lay in the last page of the address space.\<close>

partial_function (option) freerange_loop :: "u32 \<Rightarrow> u32 \<Rightarrow> pmem \<Rightarrow> pmem option" where
  "freerange_loop vend p s =
     (if p + X_PGSIZE \<le> vend then do { s \<leftarrow> kfree s p; freerange_loop vend (p + X_PGSIZE) s } else Some s)"

definition freerange :: "pmem \<Rightarrow> u32 \<Rightarrow> u32 \<Rightarrow> pmem option" where
  "freerange s vstart vend = freerange_loop vend (X_PGROUNDUP vstart) s"

definition kinit1 :: "pmem \<Rightarrow> u32 \<Rightarrow> u32 \<Rightarrow> pmem option" where
  "kinit1 s vstart vend = freerange s vstart vend"

definition kinit2 :: "pmem \<Rightarrow> u32 \<Rightarrow> u32 \<Rightarrow> pmem option" where
  "kinit2 s vstart vend = freerange s vstart vend"

subsection \<open>The free list in memory\<close>

definition kpage :: "pmem \<Rightarrow> u32 \<Rightarrow> bool" where
  "kpage s v \<longleftrightarrow> v \<noteq> 0 \<and> unat v mod 4096 = 0 \<and> kend s \<le> v \<and> V2P v < PHYSTOP"

primrec runs :: "bytes \<Rightarrow> u32 \<Rightarrow> u32 list \<Rightarrow> bool" where
  "runs m p [] \<longleftrightarrow> p = 0"
| "runs m p (x # xs) \<longleftrightarrow> p = x \<and> runs m (load32 m x) xs"

definition kmem_inv :: "pmem \<Rightarrow> u32 list \<Rightarrow> bool" where
  "kmem_inv s xs \<longleftrightarrow> distinct xs \<and> (\<forall>x \<in> set xs. kpage s x) \<and> runs (pm s) (freelist s) xs"

text \<open>Two memories that agree outside a page.\<close>

definition only_in :: "u32 \<Rightarrow> bytes \<Rightarrow> bytes \<Rightarrow> bool" where
  "only_in v m m' \<longleftrightarrow> (\<forall>a. \<not> unat (a - v) < 4096 \<longrightarrow> m' a = m a)"

lemma page_off:
  assumes "unat (v :: u32) mod 4096 = 0" "unat x mod 4096 = 0" "unat (x + of_nat k - v) < 4096" "k < 4096"
  shows "x = v"
proof -
  have vb: "unat v div 4096 * 4096 = unat v" "unat x div 4096 * 4096 = unat x" using assms(1,2) by (simp_all add: div_mult_mod_eq [symmetric] dvd_div_mult_self mod_eq_0_iff_dvd)
  have xk: "unat (x + of_nat k) = unat x + k"
  proof -
    have "unat x + k < 4294967296"
    proof -
      have "unat x div 4096 < 1048576" using unat_less_32 [of x] by (simp add: div_less_iff_less_mult)
      then show ?thesis using vb(2) assms(4) by linarith
    qed
    then show ?thesis using assms(4) by (simp add: unat_word_ariths off_of_nat)
  qed
  let ?j = "unat (x + of_nat k - v)"
  have "unat v + ?j < 4294967296"
  proof -
    have "unat v div 4096 < 1048576" using unat_less_32 [of v] by (simp add: div_less_iff_less_mult)
    then show ?thesis using vb(1) assms(3) by linarith
  qed
  then have "unat (v + (x + of_nat k - v)) = unat v + ?j" by (simp only: unat_word_ariths) simp
  then have "unat x + k = unat v + ?j" using xk by simp
  then have "4096 * (unat x div 4096) + k = 4096 * (unat v div 4096) + ?j" using vb by (simp add: mult.commute)
  then have "unat x div 4096 = unat v div 4096" using mult_add_unique [OF assms(4,3)] by blast
  then have "unat x = unat v" using vb by metis
  then show ?thesis by (rule word_unat_eq_iff [THEN iffD2])
qed

lemma only_in_load:
  assumes "only_in v m m'" "unat v mod 4096 = 0" "unat x mod 4096 = 0" "x \<noteq> v"
  shows "load32 m' x = load32 m x"
proof -
  have "m' (x + of_nat k) = m (x + of_nat k)" if "k < 4" for k
    using assms(1,4) page_off [OF assms(2,3), of k] that unfolding only_in_def by fastforce
  from this [of 0] this [of 1] this [of 2] this [of 3] show ?thesis by (simp add: load32_def)
qed

lemma runs_only_in:
  "runs m p xs \<Longrightarrow> only_in v m m' \<Longrightarrow> unat v mod 4096 = 0 \<Longrightarrow> (\<And>x. x \<in> set xs \<Longrightarrow> unat x mod 4096 = 0 \<and> x \<noteq> v) \<Longrightarrow> runs m' p xs"
  by (induction xs arbitrary: p) (simp_all add: only_in_load)

subsection \<open>Allocation and release\<close>

lemma page_mod: "v mod X_PGSIZE = 0 \<longleftrightarrow> unat v mod 4096 = 0"
  by (simp add: X_PGSIZE_def word_unat_eq_iff unat_mod)

lemma x_memset_only_in: "only_in v m (snd (x_memset m v c X_PGSIZE))"
  by (simp add: only_in_def x_memset_eq memset_correct X_PGSIZE_def word_less_nat_alt)

lemma store32_only_in: "only_in v m m' \<Longrightarrow> only_in v m (store32 m' v x)"
proof -
  have "unat (v + of_nat k - v) = k" if "k < 4" for k :: nat using that by (simp add: unat_of_nat)
  from this [of 1] this [of 2] this [of 3] show "only_in v m m' \<Longrightarrow> only_in v m (store32 m' v x)"
    by (auto simp: only_in_def store32_def)
qed

lemma kfree_spec:
  assumes "kmem_inv s xs" "kpage s v" "v \<notin> set xs"
  shows "\<exists>s'. kfree s v = Some s' \<and> kmem_inv s' (v # xs) \<and> kend s' = kend s \<and> only_in v (pm s) (pm s')"
proof -
  let ?m = "store32 (snd (x_memset (pm s) v 1 X_PGSIZE)) v (freelist s)"
  let ?s = "s\<lparr>pm := ?m, freelist := v\<rparr>"
  have v: "unat v mod 4096 = 0" "\<not> v < kend s" "\<not> PHYSTOP \<le> V2P v" using assms(2) by (auto simp: kpage_def)
  have o: "only_in v (pm s) ?m" by (rule store32_only_in [OF x_memset_only_in])
  have "kfree s v = Some ?s" using v by (simp add: kfree_def page_mod Let_def)
  moreover have "runs ?m (freelist s) xs"
    by (rule runs_only_in [OF _ o v(1)]) (use assms in \<open>auto simp: kmem_inv_def kpage_def\<close>)
  then have "kmem_inv ?s (v # xs)"
    using assms by (auto simp: kmem_inv_def kpage_def load_store32_same)
  ultimately show ?thesis using o by auto
qed

lemma kalloc_Nil: "kmem_inv s [] \<Longrightarrow> kalloc s = (0, s)"
  by (simp add: kalloc_def kmem_inv_def)

lemma kalloc_Cons:
  assumes "kmem_inv s (x # xs)"
  shows "kalloc s = (x, s\<lparr>freelist := load32 (pm s) x\<rparr>)" "kmem_inv (s\<lparr>freelist := load32 (pm s) x\<rparr>) xs" "kpage s x" "x \<noteq> 0"
  using assms by (auto simp: kalloc_def kmem_inv_def kpage_def)

text \<open>A failed allocation returns the null pointer.\<close>

definition kalloc_opt :: "pmem \<Rightarrow> (u32 option \<times> pmem) option" where
  "kalloc_opt s = (let (r, s') = kalloc s in Some (if r = 0 then None else Some r, s'))"

interpretation x6_alloc: page_allocator kmem_inv kpage kalloc_opt kfree
proof unfold_locales
  fix s x xs
  show "kmem_inv s xs \<Longrightarrow> distinct xs" by (simp add: kmem_inv_def)
  show "kmem_inv s [] \<Longrightarrow> kalloc_opt s = Some (None, s)" by (simp add: kalloc_opt_def kalloc_Nil)
  show "\<exists>s'. kalloc_opt s = Some (Some x, s') \<and> kmem_inv s' xs \<and> kpage s' x \<and> (\<forall>y. kpage s y \<longrightarrow> kpage s' y)"
    if "kmem_inv s (x # xs)"
    using kalloc_Cons [OF that] by (auto simp: kalloc_opt_def kpage_def)
  show "\<exists>s'. kfree s x = Some s' \<and> kmem_inv s' (x # xs) \<and> (\<forall>y. y \<noteq> x \<longrightarrow> kpage s y \<longrightarrow> kpage s' y)"
    if "kmem_inv s xs" "kpage s x" "x \<notin> set xs"
    using kfree_spec [OF that] by (auto simp: kpage_def)
qed

subsection \<open>Filling the free list\<close>

definition pages_from :: "u32 \<Rightarrow> nat \<Rightarrow> u32 list" where
  "pages_from p n = map (\<lambda>k. p + of_nat k * X_PGSIZE) [0..<n]"

lemma pages_from_Suc: "pages_from p (Suc n) = p # pages_from (p + X_PGSIZE) n"
proof -
  have "[0..<Suc n] = 0 # map Suc [0..<n]" by (simp add: map_Suc_upt upt_conv_Cons)
  then show ?thesis by (simp add: pages_from_def algebra_simps)
qed

text \<open>
  \<open>freerange\<close> ends and frees every whole page between its bounds, provided the range lies within the memory that
  \<open>kfree\<close> accepts.
\<close>

lemma freerange_loop_spec:
  assumes "kmem_inv s xs" "unat p mod 4096 = 0" "p \<noteq> 0" "kend s \<le> p" "X_KERNBASE \<le> p" "unat p \<le> unat vend"
    "unat vend \<le> unat (X_KERNBASE + PHYSTOP)" "n = (unat vend - unat p) div 4096" "\<And>x. x \<in> set xs \<Longrightarrow> x < p"
  shows "\<exists>s'. freerange_loop vend p s = Some s' \<and> kmem_inv s' (rev (pages_from p n) @ xs) \<and> kend s' = kend s"
  using assms
proof (induction n arbitrary: s p xs)
  case 0
  have v: "unat vend < 4294967296 - 4096" using 0 by (simp add: X_KERNBASE_def PHYSTOP_def)
  then have "unat (p + X_PGSIZE) = unat p + 4096" using 0 by (simp add: unat_word_ariths X_PGSIZE_def)
  moreover have "unat vend < unat p + 4096" using 0 by (simp add: div_eq_0_iff)
  ultimately have "\<not> p + X_PGSIZE \<le> vend" by (simp add: word_le_nat_alt)
  then have "freerange_loop vend p s = Some s" by (subst freerange_loop.simps) simp
  with 0 show ?case by (simp add: pages_from_def)
next
  case (Suc n)
  have v: "unat vend < 4294967296 - 4096" using Suc.prems by (simp add: X_KERNBASE_def PHYSTOP_def)
  have u: "unat (p + X_PGSIZE) = unat p + 4096" using v Suc.prems by (simp add: unat_word_ariths X_PGSIZE_def)
  have le: "unat p + 4096 \<le> unat vend"
  proof (rule ccontr)
    assume "\<not> ?thesis"
    then have "(unat vend - unat p) div 4096 = 0" by (simp add: div_eq_0_iff)
    with Suc.prems show False by simp
  qed
  have "unat (V2P p) = unat p - unat X_KERNBASE" using Suc.prems by (simp add: V2P_def unat_sub)
  then have "V2P p < PHYSTOP" using le Suc.prems by (simp add: word_less_nat_alt X_KERNBASE_def PHYSTOP_def)
  then have "kpage s p" using Suc.prems by (simp add: kpage_def)
  moreover have "p \<notin> set xs" using Suc.prems by force
  ultimately obtain s1 where s1: "kfree s p = Some s1" "kmem_inv s1 (p # xs)" "kend s1 = kend s"
    using kfree_spec [OF Suc.prems(1)] by blast
  have le': "p < p + X_PGSIZE" using u by (simp add: word_less_nat_alt)
  have "(unat vend - unat (p + X_PGSIZE)) div 4096 = (unat vend - unat p) div 4096 - 1"
    using u le by (simp add: le_div_geq [of 4096 "unat vend - unat p"])
  then have n: "n = (unat vend - unat (p + X_PGSIZE)) div 4096" using Suc.prems(8) by linarith
  obtain s' where s': "freerange_loop vend (p + X_PGSIZE) s1 = Some s'"
    "kmem_inv s' (rev (pages_from (p + X_PGSIZE) n) @ p # xs)" "kend s' = kend s1"
    using Suc.IH [OF s1(2) _ _ _ _ _ Suc.prems(7) n] u le le' s1(3) Suc.prems
    by (force simp: word_le_nat_alt word_less_nat_alt)
  have "freerange_loop vend p s = Some s'"
    using s1 s' u le by (subst freerange_loop.simps) (simp add: word_le_nat_alt)
  with s' s1 show ?case by (simp add: pages_from_Suc)
qed

lemma unat_X_PGROUNDUP:
  assumes "unat e + 4095 < 4294967296"
  shows "unat (X_PGROUNDUP e) = (unat e + 4095) div 4096 * 4096"
proof -
  have m: "X_PGROUNDUP e = (e + 4095) AND NOT (mask 12)" by (simp add: X_PGROUNDUP_def X_PGSIZE_def mask_eq_decr_exp add.commute)
  have "unat (e + 4095) = unat e + 4095" using assms by (simp add: unat_word_ariths)
  then have "unat (X_PGROUNDUP e) = unat e + 4095 - (unat e + 4095) mod 4096"
    unfolding m by (simp add: unat_and_not_mask)
  then show ?thesis by (simp add: minus_mod_eq_div_mult)
qed

lemma pages_from_add: "pages_from p (m + n) = pages_from p m @ pages_from (p + of_nat m * X_PGSIZE) n"
  by (induction m arbitrary: p) (simp_all add: pages_from_Suc pages_from_def [of _ 0] algebra_simps)

lemma set_pages_from:
  assumes "unat p + n * 4096 < 4294967296"
  shows "x \<in> set (pages_from p n) \<Longrightarrow> unat x < unat p + n * 4096"
proof -
  assume "x \<in> set (pages_from p n)"
  then obtain k where k: "k < n" "x = p + of_nat k * X_PGSIZE" by (auto simp: pages_from_def)
  have "unat (of_nat k * X_PGSIZE) = k * 4096" using k assms by (simp add: unat_word_ariths X_PGSIZE_def off_of_nat)
  moreover have "unat p + k * 4096 < unat p + n * 4096" using k by simp
  ultimately show ?thesis using k assms by (simp add: unat_word_ariths)
qed

lemma kinit_spec:
  assumes e: "kend s = e" "X_KERNBASE \<le> e" "unat e \<le> 0x80400000 - 4096" and f: "freelist s = 0"
    and n: "n = (0x8E000000 - unat (X_PGROUNDUP e)) div 4096"
  shows "\<exists>s1 s2. kinit1 s e (P2V 0x400000) = Some s1 \<and> kinit2 s1 (P2V 0x400000) (P2V PHYSTOP) = Some s2 \<and>
    kmem_inv s2 (rev (pages_from (X_PGROUNDUP e) n))"
proof -
  define p where "p = X_PGROUNDUP e"
  define n1 where "n1 = (0x80400000 - unat p) div 4096"
  have up: "unat p = (unat e + 4095) div 4096 * 4096" unfolding p_def using e(3) by (intro unat_X_PGROUNDUP) simp
  have eb: "0x80000000 \<le> unat e" using e(2) by (simp add: word_le_nat_alt X_KERNBASE_def)
  have pe: "unat e \<le> unat p" "unat p \<le> 0x80400000" unfolding up using e(3) by linarith+
  have pm4: "unat p mod 4096 = 0" unfolding up by simp
  have mid: "unat (P2V 0x400000) = 0x80400000" "unat (P2V PHYSTOP) = 0x8E000000" "unat (X_KERNBASE + PHYSTOP) = 0x8E000000"
    by (simp_all add: P2V_def X_KERNBASE_def PHYSTOP_def)
  have p0: "p \<noteq> 0" "e \<le> p" "X_KERNBASE \<le> p" using pe eb by (auto simp: word_le_nat_alt X_KERNBASE_def)
  have k0: "kmem_inv s []" using f by (simp add: kmem_inv_def)
  obtain s1 where s1: "freerange_loop (P2V 0x400000) p s = Some s1" "kmem_inv s1 (rev (pages_from p n1))" "kend s1 = e"
    using freerange_loop_spec [OF k0 pm4 p0(1) _ p0(3), of "P2V 0x400000" n1] pe mid p0 e(1) n1_def by auto
  have n1: "unat p + n1 * 4096 = 0x80400000"
  proof -
    have "4096 dvd 0x80400000 - unat p" using pm4 by (intro dvd_diff_nat) auto
    then show ?thesis using pe(2) by (simp add: n1_def)
  qed
  have r2: "X_PGROUNDUP (P2V 0x400000) = P2V 0x400000" by (simp add: X_PGROUNDUP_def P2V_def X_KERNBASE_def X_PGSIZE_def)
  have below: "x < P2V 0x400000" if "x \<in> set (rev (pages_from p n1))" for x
    using set_pages_from [of p n1 x] that n1 mid by (simp add: word_less_nat_alt)
  have m4: "unat (P2V 0x400000) mod 4096 = 0" "P2V 0x400000 \<noteq> 0" "kend s1 \<le> P2V 0x400000" "X_KERNBASE \<le> P2V 0x400000"
    using mid s1(3) e by (auto simp: word_le_nat_alt X_KERNBASE_def)
  obtain s2 where s2: "freerange_loop (P2V PHYSTOP) (P2V 0x400000) s1 = Some s2"
    "kmem_inv s2 (rev (pages_from (P2V 0x400000) 56320) @ rev (pages_from p n1))"
    using freerange_loop_spec [OF s1(2) m4, of "P2V PHYSTOP" 56320] below mid by auto
  have pm: "P2V 0x400000 = p + of_nat n1 * X_PGSIZE"
  proof -
    have "unat (of_nat n1 * X_PGSIZE) = n1 * 4096" using n1 by (simp add: unat_word_ariths X_PGSIZE_def off_of_nat)
    then have "unat (p + of_nat n1 * X_PGSIZE) = 0x80400000" using n1 by (simp add: unat_word_ariths)
    then show ?thesis using mid by (simp add: word_unat_eq_iff)
  qed
  have "n = n1 + 56320" using n1 unfolding n p_def [symmetric] by linarith
  then have "rev (pages_from p n) = rev (pages_from (P2V 0x400000) 56320) @ rev (pages_from p n1)"
    by (simp add: pages_from_add pm)
  with s1 s2 show ?thesis unfolding p_def [symmetric] by (auto simp: kinit1_def kinit2_def freerange_def r2 p_def)
qed

text \<open>C24. After \<open>kinit1\<close> and \<open>kinit2\<close>, as main.c calls them, the allocator holds exactly the whole pages between the end of the
  kernel and \<open>PHYSTOP\<close>: that many calls of \<open>kalloc\<close> return these pages, each once, the next call returns 0, and
  freeing them in reverse order restores the allocator.\<close>

theorem kinit_correct:
  assumes e: "kend s = e" "X_KERNBASE \<le> e" "unat e \<le> 0x80400000 - 4096" and f: "freelist s = 0"
    and n: "n = (0x8E000000 - unat (X_PGROUNDUP e)) div 4096"
  shows "\<exists>s1 s2 s3 s4. kinit1 s e (P2V 0x400000) = Some s1 \<and> kinit2 s1 (P2V 0x400000) (P2V PHYSTOP) = Some s2 \<and>
    alloc_many kalloc_opt n s2 = Some (rev (pages_from (X_PGROUNDUP e) n), s3) \<and> kalloc s3 = (0, s3) \<and>
    release_many kfree (pages_from (X_PGROUNDUP e) n) s3 = Some s4 \<and> kmem_inv s4 (rev (pages_from (X_PGROUNDUP e) n))"
proof -
  let ?ps = "rev (pages_from (X_PGROUNDUP e) n)"
  have l: "length ?ps = n" by (simp add: pages_from_def)
  obtain s1 s2 where s: "kinit1 s e (P2V 0x400000) = Some s1" "kinit2 s1 (P2V 0x400000) (P2V PHYSTOP) = Some s2" "kmem_inv s2 ?ps"
    using kinit_spec [OF e f n] by blast
  obtain s3 s4 where "alloc_many kalloc_opt n s2 = Some (take n ?ps, s3)" "release_many kfree (rev (take n ?ps)) s3 = Some s4" "kmem_inv s4 ?ps"
    using x6_alloc.alloc_release_roundtrip [OF s(3), of n] by blast
  moreover have "kmem_inv s3 []"
    using x6_alloc.alloc_many_spec [OF s(3), of n] calculation(1) l by auto
  ultimately show ?thesis using s l kalloc_Nil by auto
qed

definition boot_mem :: pmem where
  "boot_mem = \<lparr>pm = (\<lambda>_. 0), freelist = 0, kend = 0x80115000, kdata = 0x8010a000\<rparr>"

lemma kinit_correct_witness:
  "\<exists>s1 s2. kinit1 boot_mem 0x80115000 (P2V 0x400000) = Some s1 \<and> kinit2 s1 (P2V 0x400000) (P2V PHYSTOP) = Some s2"
proof -
  have "kend boot_mem = 0x80115000" "X_KERNBASE \<le> 0x80115000" "unat (0x80115000 :: u32) \<le> 0x80400000 - 4096" "freelist boot_mem = 0"
    by (simp_all add: boot_mem_def X_KERNBASE_def)
  from kinit_correct [OF this refl] show ?thesis by blast
qed

end
