(* ===== verification/X6Vm.thy ===== *)
theory X6Vm
  imports X6Kalloc
begin

text \<open>
  Address spaces of xv6 (vm.c): page directories and page tables in the memory of \<open>X6Kalloc\<close>. A pointer is a kernel
  virtual address, 0 the null pointer; a panic is \<open>None\<close>. Loading segment registers, the task state and the
  page directory base register (\<open>seginit\<close>, \<open>switchkvm\<close>, \<open>switchuvm\<close>) is not modelled.
\<close>

subsection \<open>The code\<close>

definition X_PTE_P :: u32 where "X_PTE_P = 1"
definition X_PTE_W :: u32 where "X_PTE_W = 2"
definition X_PTE_U :: u32 where "X_PTE_U = 4"
definition EXTMEM :: u32 where "EXTMEM = 0x100000"
definition DEVSPACE :: u32 where "DEVSPACE = 0xFE000000"
definition KERNLINK :: u32 where "KERNLINK = X_KERNBASE + EXTMEM"
definition NPDENTRIES :: nat where "NPDENTRIES = 1024"

definition X_PDX :: "u32 \<Rightarrow> u32" where "X_PDX va = drop_bit 22 va AND 0x3FF"
definition X_PTX :: "u32 \<Rightarrow> u32" where "X_PTX va = drop_bit 12 va AND 0x3FF"
definition X_PGADDR :: "u32 \<Rightarrow> u32 \<Rightarrow> u32 \<Rightarrow> u32" where "X_PGADDR d t ofs = push_bit 22 d OR push_bit 12 t OR ofs"
definition X_PTE_ADDR :: "u32 \<Rightarrow> u32" where "X_PTE_ADDR pte = pte AND NOT 0xFFF"
definition X_PTE_FLAGS :: "u32 \<Rightarrow> u32" where "X_PTE_FLAGS pte = pte AND 0xFFF"

definition ld :: "pmem \<Rightarrow> u32 \<Rightarrow> u32" where "ld s p = load32 (pm s) p"
definition st :: "pmem \<Rightarrow> u32 \<Rightarrow> u32 \<Rightarrow> pmem" where "st s p x = s\<lparr>pm := store32 (pm s) p x\<rparr>"
definition zero_page :: "pmem \<Rightarrow> u32 \<Rightarrow> pmem" where "zero_page s p = s\<lparr>pm := snd (x_memset (pm s) p 0 X_PGSIZE)\<rparr>"

definition walkpgdir :: "pmem \<Rightarrow> u32 \<Rightarrow> u32 \<Rightarrow> bool \<Rightarrow> u32 \<times> pmem" where
  "walkpgdir s pgdir va alloc =
     (let pde = pgdir + 4 * X_PDX va
      in if ld s pde AND X_PTE_P \<noteq> 0 then (P2V (X_PTE_ADDR (ld s pde)) + 4 * X_PTX va, s)
         else if \<not> alloc then (0, s)
         else
           let (pgtab, s) = kalloc s
           in if pgtab = 0 then (0, s)
              else
                let s = zero_page s pgtab;
                    s = st s pde (V2P pgtab OR X_PTE_P OR X_PTE_W OR X_PTE_U)
                in (pgtab + 4 * X_PTX va, s))"

partial_function (option) mappages_loop :: "u32 \<Rightarrow> u32 \<Rightarrow> u32 \<Rightarrow> u32 \<Rightarrow> u32 \<Rightarrow> pmem \<Rightarrow> (int \<times> pmem) option" where
  "mappages_loop pgdir lst perm a pa s =
     (let (pte, s) = walkpgdir s pgdir a True
      in if pte = 0 then Some (- 1, s)
         else if ld s pte AND X_PTE_P \<noteq> 0 then None
         else
           let s = st s pte (pa OR perm OR X_PTE_P)
           in if a = lst then Some (0, s)
              else mappages_loop pgdir lst perm (a + X_PGSIZE) (pa + X_PGSIZE) s)"

definition mappages :: "pmem \<Rightarrow> u32 \<Rightarrow> u32 \<Rightarrow> u32 \<Rightarrow> u32 \<Rightarrow> u32 \<Rightarrow> (int \<times> pmem) option" where
  "mappages s pgdir va sz pa perm =
     mappages_loop pgdir (X_PGROUNDDOWN (va + sz - 1)) perm (X_PGROUNDDOWN va) pa s"

text \<open>The assignment to \<open>a\<close> in the body of the loop skips to the next page directory entry.\<close>

partial_function (option) deallocuvm_loop :: "u32 \<Rightarrow> u32 \<Rightarrow> u32 \<Rightarrow> pmem \<Rightarrow> pmem option" where
  "deallocuvm_loop pgdir oldsz a s =
     (if a < oldsz
      then
        let (pte, s) = walkpgdir s pgdir a False
        in if pte = 0 then deallocuvm_loop pgdir oldsz (X_PGADDR (X_PDX a + 1) 0 0 - X_PGSIZE + X_PGSIZE) s
           else if ld s pte AND X_PTE_P \<noteq> 0
           then
             let pa = X_PTE_ADDR (ld s pte)
             in if pa = 0 then None
                else do {
                  s \<leftarrow> kfree s (P2V pa);
                  deallocuvm_loop pgdir oldsz (a + X_PGSIZE) (st s pte 0)
                }
           else deallocuvm_loop pgdir oldsz (a + X_PGSIZE) s
      else Some s)"

definition deallocuvm :: "pmem \<Rightarrow> u32 \<Rightarrow> u32 \<Rightarrow> u32 \<Rightarrow> (u32 \<times> pmem) option" where
  "deallocuvm s pgdir oldsz newsz =
     (if newsz \<ge> oldsz then Some (oldsz, s)
      else do {
        s \<leftarrow> deallocuvm_loop pgdir oldsz (X_PGROUNDUP newsz) s;
        Some (newsz, s)
      })"

definition freevm :: "pmem \<Rightarrow> u32 \<Rightarrow> pmem option" where
  "freevm s pgdir =
     (if pgdir = 0 then None
      else do {
        (_, s) \<leftarrow> deallocuvm s pgdir X_KERNBASE 0;
        s \<leftarrow> fold_opt (\<lambda>i s. if ld s (pgdir + 4 * of_nat i) AND X_PTE_P \<noteq> 0
                           then kfree s (P2V (X_PTE_ADDR (ld s (pgdir + 4 * of_nat i)))) else Some s) [0..<NPDENTRIES] s;
        kfree s pgdir
      })"

definition kmap :: "pmem \<Rightarrow> (u32 \<times> u32 \<times> u32 \<times> u32) list" where
  "kmap s =
     [(X_KERNBASE, 0, EXTMEM, X_PTE_W),
      (KERNLINK, V2P KERNLINK, V2P (kdata s), 0),
      (kdata s, V2P (kdata s), PHYSTOP, X_PTE_W),
      (DEVSPACE, DEVSPACE, 0, X_PTE_W)]"

fun setupkvm_loop :: "u32 \<Rightarrow> (u32 \<times> u32 \<times> u32 \<times> u32) list \<Rightarrow> pmem \<Rightarrow> (u32 \<times> pmem) option" where
  "setupkvm_loop pgdir [] s = Some (pgdir, s)"
| "setupkvm_loop pgdir ((virt, phys_start, phys_end, perm) # ks) s = do {
     (r, s) \<leftarrow> mappages s pgdir virt (phys_end - phys_start) phys_start perm;
     if r < 0 then do { s \<leftarrow> freevm s pgdir; Some (0, s) }
     else setupkvm_loop pgdir ks s
   }"

definition setupkvm :: "pmem \<Rightarrow> (u32 \<times> pmem) option" where
  "setupkvm s =
     (let (pgdir, s) = kalloc s
      in if pgdir = 0 then Some (0, s)
         else
           let s = zero_page s pgdir
           in if P2V PHYSTOP > DEVSPACE then None else setupkvm_loop pgdir (kmap s) s)"

definition inituvm :: "pmem \<Rightarrow> u32 \<Rightarrow> u32 \<Rightarrow> u32 \<Rightarrow> pmem option" where
  "inituvm s pgdir init sz =
     (if sz \<ge> X_PGSIZE then None
      else
        let (mem, s) = kalloc s;
            s = zero_page s mem
        in do {
          (_, s) \<leftarrow> mappages s pgdir 0 X_PGSIZE (V2P mem) (X_PTE_W OR X_PTE_U);
          Some (s\<lparr>pm := snd (x_memmove (pm s) mem init sz)\<rparr>)
        })"

partial_function (option) allocuvm_loop :: "u32 \<Rightarrow> u32 \<Rightarrow> u32 \<Rightarrow> u32 \<Rightarrow> pmem \<Rightarrow> (u32 \<times> pmem) option" where
  "allocuvm_loop pgdir oldsz newsz a s =
     (if a < newsz
      then
        let (mem, s) = kalloc s
        in if mem = 0 then do { (_, s) \<leftarrow> deallocuvm s pgdir newsz oldsz; Some (0, s) }
           else do {
             (r, s) \<leftarrow> mappages (zero_page s mem) pgdir a X_PGSIZE (V2P mem) (X_PTE_W OR X_PTE_U);
             if r < 0
             then do {
               (_, s) \<leftarrow> deallocuvm s pgdir newsz oldsz;
               s \<leftarrow> kfree s mem;
               Some (0, s)
             }
             else allocuvm_loop pgdir oldsz newsz (a + X_PGSIZE) s
           }
      else Some (newsz, s))"

definition allocuvm :: "pmem \<Rightarrow> u32 \<Rightarrow> u32 \<Rightarrow> u32 \<Rightarrow> (u32 \<times> pmem) option" where
  "allocuvm s pgdir oldsz newsz =
     (if newsz \<ge> X_KERNBASE then Some (0, s)
      else if newsz < oldsz then Some (oldsz, s)
      else allocuvm_loop pgdir oldsz newsz (X_PGROUNDUP oldsz) s)"

definition clearpteu :: "pmem \<Rightarrow> u32 \<Rightarrow> u32 \<Rightarrow> pmem option" where
  "clearpteu s pgdir uva =
     (let (pte, s) = walkpgdir s pgdir uva False
      in if pte = 0 then None else Some (st s pte (ld s pte AND NOT X_PTE_U)))"

partial_function (option) copyuvm_loop :: "u32 \<Rightarrow> u32 \<Rightarrow> u32 \<Rightarrow> u32 \<Rightarrow> pmem \<Rightarrow> (u32 \<times> pmem) option" where
  "copyuvm_loop pgdir sz d i s =
     (if i < sz
      then
        let (pte, s) = walkpgdir s pgdir i False
        in if pte = 0 then None
           else if ld s pte AND X_PTE_P = 0 then None
           else
             let pa = X_PTE_ADDR (ld s pte);
                 flags = X_PTE_FLAGS (ld s pte);
                 (mem, s) = kalloc s
             in if mem = 0 then do { s \<leftarrow> freevm s d; Some (0, s) }
                else do {
                  (r, s) \<leftarrow> mappages (s\<lparr>pm := snd (x_memmove (pm s) mem (P2V pa) X_PGSIZE)\<rparr>) d i X_PGSIZE (V2P mem) flags;
                  if r < 0 then do { s \<leftarrow> kfree s mem; s \<leftarrow> freevm s d; Some (0, s) }
                  else copyuvm_loop pgdir sz d (i + X_PGSIZE) s
                }
      else Some (d, s))"

definition copyuvm :: "pmem \<Rightarrow> u32 \<Rightarrow> u32 \<Rightarrow> (u32 \<times> pmem) option" where
  "copyuvm s pgdir sz = do {
     (d, s) \<leftarrow> setupkvm s;
     if d = 0 then Some (0, s) else copyuvm_loop pgdir sz d 0 s
   }"

text \<open>\<open>uva2ka\<close> reads through the pointer that \<open>walkpgdir\<close> returns without checking it; a null pointer is \<open>None\<close> here.\<close>

definition uva2ka :: "pmem \<Rightarrow> u32 \<Rightarrow> u32 \<Rightarrow> u32 option" where
  "uva2ka s pgdir uva =
     (let (pte, s) = walkpgdir s pgdir uva False
      in if pte = 0 then None
         else if ld s pte AND X_PTE_P = 0 then Some 0
         else if ld s pte AND X_PTE_U = 0 then Some 0
         else Some (P2V (X_PTE_ADDR (ld s pte))))"

partial_function (option) copyout :: "u32 \<Rightarrow> u32 \<Rightarrow> u32 \<Rightarrow> u32 \<Rightarrow> pmem \<Rightarrow> (int \<times> pmem) option" where
  "copyout pgdir va buf len s =
     (if len > 0
      then do {
        let va0 = X_PGROUNDDOWN va;
        pa0 \<leftarrow> uva2ka s pgdir va0;
        if pa0 = 0 then Some (- 1, s)
        else
          let n = X_PGSIZE - (va - va0);
              n = (if n > len then len else n)
          in copyout pgdir (va0 + X_PGSIZE) (buf + n) (len - n) (s\<lparr>pm := snd (x_memmove (pm s) (pa0 + (va - va0)) buf n)\<rparr>)
      }
      else Some (0, s))"

subsection \<open>Words of a page\<close>

definition in_page :: "u32 \<Rightarrow> u32 \<Rightarrow> bool" where
  "in_page v a \<longleftrightarrow> unat (a - v) < 4096"

text \<open>Memory changes at most in the given pages.\<close>

definition changes_in :: "u32 set \<Rightarrow> bytes \<Rightarrow> bytes \<Rightarrow> bool" where
  "changes_in P m m' \<longleftrightarrow> (\<forall>a. (\<forall>p \<in> P. \<not> in_page p a) \<longrightarrow> m' a = m a)"

lemma slot_unat:
  assumes "unat (p :: u32) mod 4096 = 0" "unat i < 1024"
  shows "unat (p + 4 * i) = unat p + 4 * unat i" "unat (p + 4 * i) mod 4 = 0" "p + 4 * i = p + of_nat (4 * unat i)"
proof -
  have q: "unat p div 4096 < 1048576" using unat_less_32 [of p] by (simp add: div_less_iff_less_mult)
  have e: "unat p = 4096 * (unat p div 4096)" using assms(1) by (simp add: mod_eq_0_iff_dvd)
  have b: "unat p + 4 * unat i < 4294967296" using q e assms(2) by linarith
  have "unat (4 * i) = 4 * unat i" using assms(2) by (simp add: unat_word_ariths)
  then show u: "unat (p + 4 * i) = unat p + 4 * unat i" using b by (simp add: unat_word_ariths)
  have "4096 dvd unat p" using assms(1) by (simp add: mod_eq_0_iff_dvd)
  then have "4 dvd unat p" by (rule dvd_trans [rotated]) simp
  then show "unat (p + 4 * i) mod 4 = 0" unfolding u by (simp add: mod_eq_0_iff_dvd)
  show "p + 4 * i = p + of_nat (4 * unat i)" by simp
qed

lemma slot_in_page: "unat (i :: u32) < 1024 \<Longrightarrow> j < 4 \<Longrightarrow> unat (p + 4 * i + of_nat j - p) < 4096"
proof -
  assume "unat i < 1024" "j < 4"
  then have "unat (4 * i + of_nat j) = 4 * unat i + j" by (simp add: unat_word_ariths off_of_nat)
  then show ?thesis using \<open>unat i < 1024\<close> \<open>j < 4\<close> by (simp add: algebra_simps)
qed

lemma load_other_page:
  assumes "only_in v m m'" "unat v mod 4096 = 0" "unat x mod 4096 = 0" "x \<noteq> v" "unat i < 1024"
  shows "load32 m' (x + 4 * i) = load32 m (x + 4 * i)"
proof -
  have "m' (x + 4 * i + of_nat k) = m (x + 4 * i + of_nat k)" if "k < 4" for k
  proof -
    have "x + 4 * i + of_nat k = x + of_nat (4 * unat i + k)" by simp
    moreover have "4 * unat i + k < 4096" using assms(5) that by simp
    ultimately show ?thesis using assms(1,4) page_off [OF assms(2,3), of "4 * unat i + k"] unfolding only_in_def by metis
  qed
  from this [of 0] this [of 1] this [of 2] this [of 3] show ?thesis by (simp add: load32_def)
qed

lemma store_slot_only_in:
  assumes "unat i < 1024"
  shows "only_in p m (store32 m (p + 4 * i) e)"
proof -
  have "unat (p + 4 * i + of_nat j - p) < 4096" if "j < 4" for j using slot_in_page [OF assms that] .
  from this [of 0] this [of 1] this [of 2] this [of 3] show ?thesis by (auto simp: only_in_def store32_def)
qed

lemma load_store_slot:
  assumes "unat p mod 4096 = 0" "unat i < 1024" "unat j < 1024"
  shows "load32 (store32 m (p + 4 * i) e) (p + 4 * j) = (if i = j then e else load32 m (p + 4 * j))"
proof (cases "i = j")
  case False
  have "unat i \<noteq> unat j" using False by (simp add: word_unat_eq_iff)
  then have "unat (p + 4 * i) \<noteq> unat (p + 4 * j)"
    unfolding slot_unat(1) [OF assms(1,2)] slot_unat(1) [OF assms(1,3)] by simp
  then have "p + 4 * i \<noteq> p + 4 * j" by metis
  with False show ?thesis
    using load_store32_other [OF slot_unat(2) [OF assms(1,2)] slot_unat(2) [OF assms(1,3)]] by simp
qed (simp add: load_store32_same)

lemma load_zeroed:
  assumes "unat i < 1024"
  shows "load32 (snd (x_memset m p 0 X_PGSIZE)) (p + 4 * i) = 0"
proof -
  have "snd (x_memset m p 0 X_PGSIZE) (p + 4 * i + of_nat j) = 0" if "j < 4" for j
    using slot_in_page [OF assms that, of p] by (simp add: x_memset_eq memset_correct X_PGSIZE_def word_less_nat_alt)
  from this [of 0] this [of 1] this [of 2] this [of 3] show ?thesis by (simp add: load32_def)
qed

lemma low_bits_zero: "unat (y :: u32) mod 4096 = 0 \<Longrightarrow> n < 12 \<Longrightarrow> \<not> bit y n"
proof -
  assume a: "unat y mod 4096 = 0" "n < 12"
  have "unat (y AND mask 12) = 0" using a by (simp add: unat_and_mask)
  then have "y AND mask 12 = 0" by (simp add: unat_eq_0)
  then have "\<not> bit (y AND mask 12) n" by simp
  with a show ?thesis by (simp add: bit_simps)
qed

lemma pte_addr_or:
  assumes "unat y mod 4096 = 0" "unat f < 4096"
  shows "X_PTE_ADDR (y OR f) = y"
proof -
  have f: "f = f AND mask 12" using assms(2) by (simp add: word_unat_eq_iff unat_and_mask)
  have "(y OR (f AND mask 12)) AND NOT (mask 12) = y"
  proof (rule bit_word_eqI)
    fix n assume "n < LENGTH(32)"
    moreover have "12 \<le> n" if "bit y n" using low_bits_zero [OF assms(1), of n] that by (meson not_less)
    ultimately show "bit ((y OR (f AND mask 12)) AND NOT (mask 12)) n = bit y n" by (auto simp: bit_simps)
  qed
  then show ?thesis unfolding X_PTE_ADDR_def mask_12_word using f by simp
qed

lemma idx_bounds [simp]: "unat (X_PDX va) < 1024" "unat (X_PTX va) < 1024"
  unfolding X_PDX_def X_PTX_def mask_10_word by (simp_all add: unat_and_mask)

subsection \<open>Page tables\<close>

definition tab :: "bytes \<Rightarrow> u32 \<Rightarrow> u32 \<Rightarrow> u32" where
  "tab m d i = P2V (X_PTE_ADDR (load32 m (d + 4 * i)))"

definition has_tab :: "bytes \<Rightarrow> u32 \<Rightarrow> u32 \<Rightarrow> bool" where
  "has_tab m d i \<longleftrightarrow> unat i < 1024 \<and> load32 m (d + 4 * i) AND X_PTE_P \<noteq> 0"

text \<open>The page-table entry for an address, 0 when there is no page table.\<close>

definition xmap :: "bytes \<Rightarrow> u32 \<Rightarrow> u32 \<Rightarrow> u32" where
  "xmap m d va = (if has_tab m d (X_PDX va) then load32 m (tab m d (X_PDX va) + 4 * X_PTX va) else 0)"

definition pt_pages :: "bytes \<Rightarrow> u32 \<Rightarrow> u32 set" where
  "pt_pages m d = insert d (tab m d ` {i. has_tab m d i})"

definition pt_wf :: "pmem \<Rightarrow> u32 \<Rightarrow> u32 list \<Rightarrow> bool" where
  "pt_wf s d xs \<longleftrightarrow> kmem_inv s xs \<and> kpage s d \<and> d \<notin> set xs \<and>
     (\<forall>i. has_tab (pm s) d i \<longrightarrow> kpage s (tab (pm s) d i) \<and> tab (pm s) d i \<notin> set xs \<and> tab (pm s) d i \<noteq> d) \<and>
     inj_on (tab (pm s) d) {i. has_tab (pm s) d i}"

definition same_page :: "u32 \<Rightarrow> u32 \<Rightarrow> bool" where
  "same_page a b \<longleftrightarrow> X_PDX a = X_PDX b \<and> X_PTX a = X_PTX b"

lemma kpage_cong: "kend s' = kend s \<Longrightarrow> kpage s' v = kpage s v"
  by (simp add: kpage_def)

lemma kmem_inv_only_in:
  assumes "kmem_inv s xs" "only_in v (pm s) m" "unat v mod 4096 = 0" "v \<notin> set xs"
  shows "kmem_inv (s\<lparr>pm := m\<rparr>) xs"
  unfolding kmem_inv_def
proof (intro conjI)
  show "runs (pm (s\<lparr>pm := m\<rparr>)) (freelist (s\<lparr>pm := m\<rparr>)) xs"
    by simp (rule runs_only_in [OF _ assms(2,3)], use assms in \<open>auto simp: kmem_inv_def kpage_def\<close>)
qed (use assms in \<open>auto simp: kmem_inv_def kpage_def\<close>)

text \<open>Writing an entry of an existing table.\<close>

lemma set_entry:
  fixes s :: pmem and d va e :: u32
  assumes wf: "pt_wf s d xs" and h: "has_tab (pm s) d (X_PDX va)"
  defines "s' \<equiv> st s (tab (pm s) d (X_PDX va) + 4 * X_PTX va) e"
  shows "pt_wf s' d xs" "xmap (pm s') d vb = (if same_page vb va then e else xmap (pm s) d vb)"
    "only_in (tab (pm s) d (X_PDX va)) (pm s) (pm s')" "pt_pages (pm s') d = pt_pages (pm s) d" "kend s' = kend s" "kdata s' = kdata s"
proof -
  let ?t = "tab (pm s) d (X_PDX va)"
  have t: "kpage s ?t" "?t \<notin> set xs" "?t \<noteq> d" "unat ?t mod 4096 = 0" "unat d mod 4096 = 0"
    using wf h by (auto simp: pt_wf_def kpage_def)
  show o: "only_in ?t (pm s) (pm s')" by (simp add: s'_def st_def store_slot_only_in)
  show k: "kend s' = kend s" "kdata s' = kdata s" by (simp_all add: s'_def st_def)
  have dir: "load32 (pm s') (d + 4 * i) = load32 (pm s) (d + 4 * i)" if "unat i < 1024" for i
    by (rule load_other_page [OF o t(4,5) t(3) [symmetric] that])
  have ht: "has_tab (pm s') d i = has_tab (pm s) d i" for i using dir by (auto simp: has_tab_def)
  have tb: "tab (pm s') d i = tab (pm s) d i" if "unat i < 1024" for i using dir [OF that] by (simp add: tab_def)
  have tbh: "tab (pm s') d i = tab (pm s) d i" if "has_tab (pm s) d i" for i using tb that by (simp add: has_tab_def)
  have "kmem_inv s' xs" using kmem_inv_only_in [of s xs ?t "pm s'"] wf o t by (simp add: pt_wf_def s'_def st_def)
  then show "pt_wf s' d xs"
    using wf k ht tbh by (auto simp: pt_wf_def kpage_cong [OF k(1)] inj_on_def)
  show "pt_pages (pm s') d = pt_pages (pm s) d" using ht tbh by (auto simp: pt_pages_def)
  show "xmap (pm s') d vb = (if same_page vb va then e else xmap (pm s) d vb)"
  proof (cases "X_PDX vb = X_PDX va")
    case True
    have "load32 (pm s') (?t + 4 * X_PTX vb) = (if X_PTX va = X_PTX vb then e else load32 (pm s) (?t + 4 * X_PTX vb))"
      unfolding s'_def st_def using load_store_slot [OF t(4)] by simp
    then show ?thesis using True h ht tb by (auto simp: xmap_def same_page_def)
  next
    case False
    have "load32 (pm s') (tab (pm s) d (X_PDX vb) + 4 * X_PTX vb) = load32 (pm s) (tab (pm s) d (X_PDX vb) + 4 * X_PTX vb)"
      if hb: "has_tab (pm s) d (X_PDX vb)"
    proof (rule load_other_page [OF o t(4)])
      show "unat (tab (pm s) d (X_PDX vb)) mod 4096 = 0" using wf hb by (auto simp: pt_wf_def kpage_def)
      show "tab (pm s) d (X_PDX vb) \<noteq> ?t" using wf hb h False by (auto simp: pt_wf_def inj_on_def)
    qed simp
    then show ?thesis using False ht tb by (auto simp: xmap_def same_page_def)
  qed
qed

subsection \<open>Walking and mapping\<close>

lemma kpage_aligned: "kpage s v \<Longrightarrow> unat v mod 4096 = 0" "kpage s v \<Longrightarrow> v \<noteq> 0"
  by (auto simp: kpage_def)

lemma unat_V2P: "X_KERNBASE \<le> x \<Longrightarrow> unat (V2P x) = unat x - 2147483648"
  by (simp add: V2P_def unat_sub X_KERNBASE_def)

text \<open>The kernel ends above \<open>KERNBASE\<close>.\<close>

lemma V2P_aligned: "kpage s x \<Longrightarrow> unat (V2P x) mod 4096 = 0"
proof -
  assume "kpage s x"
  then have a: "unat x mod 4096 = 0" by (rule kpage_aligned)
  have "(- 0x80000000 :: u32) = 0x80000000" by simp
  then have "V2P x = x + 0x80000000" unfolding V2P_def X_KERNBASE_def by (metis diff_conv_add_uminus)
  then have "unat (V2P x) = (unat x + 2147483648) mod 4294967296" by (simp add: unat_word_ariths)
  then have "unat (V2P x) mod 4096 = (unat x + 2147483648) mod 4096" by (simp add: mod_mod_cancel del: mod_add_left_eq)
  moreover have "4096 dvd unat x + 2147483648" using a by (intro dvd_add) auto
  ultimately show ?thesis by simp
qed

lemma P2V_V2P [simp]: "P2V (V2P x) = x"
  by (simp add: P2V_def V2P_def)

lemma walk_present:
  "has_tab (pm s) d (X_PDX va) \<Longrightarrow> walkpgdir s d va b = (tab (pm s) d (X_PDX va) + 4 * X_PTX va, s)"
  by (simp add: walkpgdir_def has_tab_def tab_def ld_def)

lemma walk_absent: "\<not> has_tab (pm s) d (X_PDX va) \<Longrightarrow> walkpgdir s d va False = (0, s)"
  by (simp add: walkpgdir_def has_tab_def ld_def)

lemma walk_full:
  "\<not> has_tab (pm s) d (X_PDX va) \<Longrightarrow> pt_wf s d [] \<Longrightarrow> walkpgdir s d va b = (0, s)"
  by (simp add: walkpgdir_def has_tab_def ld_def pt_wf_def kalloc_Nil)

lemma walk_alloc:
  assumes wf: "pt_wf s d (x # xs)" and n: "\<not> has_tab (pm s) d (X_PDX va)"
  obtains s' where "walkpgdir s d va True = (x + 4 * X_PTX va, s')" "pt_wf s' d xs" "has_tab (pm s') d (X_PDX va)" "tab (pm s') d (X_PDX va) = x"
    "xmap (pm s') d = xmap (pm s) d" "pt_pages (pm s') d = insert x (pt_pages (pm s) d)" "kend s' = kend s" "kdata s' = kdata s"
    "changes_in {x, d} (pm s) (pm s')"
proof -
  let ?i = "X_PDX va" and ?e = "V2P x OR X_PTE_P OR X_PTE_W OR X_PTE_U"
  have km: "kmem_inv s (x # xs)" and d: "kpage s d" "d \<noteq> x" "d \<notin> set xs" using wf by (auto simp: pt_wf_def)
  note ka = kalloc_Cons [OF km]
  define s1 where "s1 = s\<lparr>freelist := load32 (pm s) x\<rparr>"
  define s2 where "s2 = zero_page s1 x"
  define s' where "s' = st s2 (d + 4 * ?i) ?e"
  have al: "unat x mod 4096 = 0" "unat d mod 4096 = 0" using ka(3) d(1) by (auto simp: kpage_def)
  have xd: "x \<notin> set xs" "distinct xs" using km by (auto simp: kmem_inv_def)
  have o1: "only_in x (pm s) (pm s2)" by (simp add: s2_def zero_page_def s1_def x_memset_only_in)
  have o2: "only_in d (pm s2) (pm s')" by (simp add: s'_def st_def store_slot_only_in)
  have k: "kend s' = kend s" "kdata s' = kdata s" by (simp_all add: s'_def s2_def s1_def st_def zero_page_def)
  have w: "walkpgdir s d va True = (x + 4 * X_PTX va, s')"
    using n ka(1,4) by (simp add: walkpgdir_def has_tab_def ld_def s'_def s2_def s1_def)
  have "kmem_inv s2 xs" using kmem_inv_only_in [of s1 xs x "pm s2"] ka(2) o1 al xd by (simp add: s1_def s2_def zero_page_def)
  then have km': "kmem_inv s' xs" using kmem_inv_only_in [of s2 xs d "pm s'"] o2 al d by (simp add: s'_def st_def)
  have fl: "unat (X_PTE_P OR X_PTE_W OR X_PTE_U) < 4096" by (simp add: X_PTE_P_def X_PTE_W_def X_PTE_U_def)
  have "X_PTE_ADDR ?e = V2P x" using pte_addr_or [OF V2P_aligned [OF ka(3)] fl] by (simp only: or.assoc)
  moreover have "?e AND X_PTE_P \<noteq> 0"
  proof
    assume "?e AND X_PTE_P = 0"
    then have "\<not> bit (?e AND X_PTE_P) 0" by simp
    then show False by (simp add: bit_simps X_PTE_P_def)
  qed
  ultimately have e: "X_PTE_ADDR ?e = V2P x" "?e AND X_PTE_P \<noteq> 0" by blast+
  have dir: "load32 (pm s') (d + 4 * j) = (if j = ?i then ?e else load32 (pm s) (d + 4 * j))" if "unat j < 1024" for j
    using load_store_slot [OF al(2) idx_bounds(1) that, of "pm s2" va ?e] load_other_page [OF o1 al(1,2) d(2) that]
    by (cases "j = ?i") (auto simp: s'_def st_def)
  have dir_i: "load32 (pm s') (d + 4 * ?i) = ?e" and dir_j: "unat j < 1024 \<Longrightarrow> j \<noteq> ?i \<Longrightarrow> load32 (pm s') (d + 4 * j) = load32 (pm s) (d + 4 * j)" for j
    using dir by simp_all
  have tb: "tab (pm s') d ?i = x" by (simp only: tab_def dir_i e P2V_V2P)
  have ht: "has_tab (pm s') d j \<longleftrightarrow> j = ?i \<or> has_tab (pm s) d j" for j
  proof (cases "j = ?i")
    case True
    then show ?thesis using e(2) by (simp only: has_tab_def dir_i idx_bounds) simp
  next
    case False
    then show ?thesis using dir_j [of j] by (auto simp: has_tab_def)
  qed
  have tb': "has_tab (pm s) d j \<Longrightarrow> tab (pm s') d j = tab (pm s) d j" for j
    using n dir_j [of j] by (cases "j = ?i") (auto simp: has_tab_def tab_def)
  have tx: "tab (pm s) d j \<noteq> x" "tab (pm s) d j \<noteq> d" "tab (pm s) d j \<notin> set xs" "kpage s (tab (pm s) d j)" if "has_tab (pm s) d j" for j
    using wf that by (auto simp: pt_wf_def)
  let ?A = "{i. has_tab (pm s) d i}"
  have S: "{i. has_tab (pm s') d i} = insert ?i ?A" using ht by auto
  have I: "tab (pm s') d ` ?A = tab (pm s) d ` ?A" by (rule image_cong) (auto simp: tb')
  have "inj_on (tab (pm s') d) ?A" using wf by (auto simp: pt_wf_def tb' inj_on_def)
  moreover have "x \<notin> tab (pm s') d ` ?A" unfolding I using tx(1) by auto
  ultimately have "inj_on (tab (pm s') d) {i. has_tab (pm s') d i}" unfolding S inj_on_insert tb by blast
  moreover have "kpage s' (tab (pm s') d i) \<and> tab (pm s') d i \<notin> set xs \<and> tab (pm s') d i \<noteq> d" if "has_tab (pm s') d i" for i
  proof (cases "i = ?i")
    case True
    then show ?thesis using tb ka(3) xd d(2) by (simp add: kpage_cong [OF k(1)])
  next
    case False
    then have "has_tab (pm s) d i" using that ht by blast
    then show ?thesis using tb' tx by (simp add: kpage_cong [OF k(1)])
  qed
  ultimately have wf': "pt_wf s' d xs" using km' d by (simp add: pt_wf_def kpage_cong [OF k(1)])
  have "xmap (pm s') d vb = xmap (pm s) d vb" for vb
  proof (cases "X_PDX vb = ?i")
    case True
    have "load32 (pm s') (x + 4 * X_PTX vb) = 0"
      using load_other_page [OF o2 al(2,1) d(2) [symmetric], of "X_PTX vb"] load_zeroed [of "X_PTX vb" "pm s1" x] by (simp add: s2_def zero_page_def)
    then show ?thesis using True n ht tb by (simp add: xmap_def)
  next
    case False
    have "load32 (pm s') (tab (pm s) d (X_PDX vb) + 4 * X_PTX vb) = load32 (pm s) (tab (pm s) d (X_PDX vb) + 4 * X_PTX vb)"
      if hb: "has_tab (pm s) d (X_PDX vb)"
      using load_other_page [OF o2 al(2) kpage_aligned(1) [OF tx(4) [OF hb]] tx(2) [OF hb], of "X_PTX vb"]
        load_other_page [OF o1 al(1) kpage_aligned(1) [OF tx(4) [OF hb]] tx(1) [OF hb], of "X_PTX vb"] by simp
    then show ?thesis using False ht tb' by (auto simp: xmap_def)
  qed
  then have "xmap (pm s') d = xmap (pm s) d" by (rule ext)
  moreover have "pt_pages (pm s') d = insert x (pt_pages (pm s) d)" unfolding pt_pages_def S image_insert I tb by (rule insert_commute)
  moreover have "changes_in {x, d} (pm s) (pm s')" using o1 o2 by (auto simp: changes_in_def only_in_def in_page_def)
  ultimately show ?thesis using that [OF w wf'] ht tb k by blast
qed

lemma unat_X_PDX: "unat (X_PDX va) = unat va div 4096 div 1024" "unat (X_PTX va) = unat va div 4096 mod 1024"
proof -
  have "unat (X_PDX va) = unat va div 4194304 mod 1024"
    unfolding X_PDX_def mask_10_word unat_and_mask unat_drop_bit_div by simp
  also have "\<dots> = unat va div 4194304"
    using unat_less_32 [of va] by (intro mod_less) (simp add: div_less_iff_less_mult)
  also have "\<dots> = unat va div 4096 div 1024" by (simp add: div_mult2_eq [symmetric])
  finally show "unat (X_PDX va) = unat va div 4096 div 1024" .
  show "unat (X_PTX va) = unat va div 4096 mod 1024" unfolding X_PTX_def mask_10_word unat_and_mask unat_drop_bit_div by simp
qed

lemma x_same_page_iff: "same_page a b \<longleftrightarrow> unat a div 4096 = unat b div 4096"
proof
  assume "same_page a b"
  then have "unat a div 4096 div 1024 = unat b div 4096 div 1024" "unat a div 4096 mod 1024 = unat b div 4096 mod 1024"
    by (auto simp: same_page_def simp flip: unat_X_PDX)
  then show "unat a div 4096 = unat b div 4096" by (metis div_mult_mod_eq)
qed (simp add: same_page_def word_unat_eq_iff unat_X_PDX)

lemma changes_in_trans: "changes_in P m m' \<Longrightarrow> changes_in Q m' m'' \<Longrightarrow> Q \<subseteq> P \<Longrightarrow> changes_in P m m''"
  unfolding changes_in_def by (metis subsetD)

text \<open>What a mapping operation may do to the address space and the free list \<open>xs\<close>.\<close>

definition grows :: "pmem \<Rightarrow> u32 \<Rightarrow> u32 list \<Rightarrow> pmem \<Rightarrow> u32 list \<Rightarrow> bool" where
  "grows s d xs s' xs' \<longleftrightarrow> pt_wf s' d xs' \<and> (\<exists>ys. xs = ys @ xs') \<and> kend s' = kend s \<and> kdata s' = kdata s \<and>
     pt_pages (pm s') d \<union> set xs' = pt_pages (pm s) d \<union> set xs \<and> changes_in (pt_pages (pm s) d \<union> set xs) (pm s) (pm s')"

lemma grows_refl: "pt_wf s d xs \<Longrightarrow> grows s d xs s xs"
  by (simp add: grows_def changes_in_def)

lemma grows_trans:
  assumes "grows s d xs t ys" "grows t d ys u zs"
  shows "grows s d xs u zs"
proof -
  have "changes_in (pt_pages (pm s) d \<union> set xs) (pm s) (pm u)"
    by (rule changes_in_trans [where m' = "pm t" and Q = "pt_pages (pm t) d \<union> set ys"]) (use assms in \<open>simp_all add: grows_def\<close>)
  then show ?thesis using assms unfolding grows_def by auto
qed

lemma walk_true:
  assumes wf: "pt_wf s d xs"
  shows "walkpgdir s d va True = (0, s) \<and> xs = [] \<or>
    (\<exists>s' xs'. walkpgdir s d va True = (tab (pm s') d (X_PDX va) + 4 * X_PTX va, s') \<and> has_tab (pm s') d (X_PDX va) \<and>
       grows s d xs s' xs' \<and> xmap (pm s') d = xmap (pm s) d \<and> length xs \<le> Suc (length xs'))"
proof (cases "has_tab (pm s) d (X_PDX va)")
  case True
  then show ?thesis using walk_present [OF True] grows_refl [OF wf] by (intro disjI2 exI [of _ s] exI [of _ xs]) simp
next
  case False
  show ?thesis
  proof (cases xs)
    case Nil
    then show ?thesis using walk_full [OF False] wf by simp
  next
    case (Cons x ys)
    obtain s' where s': "walkpgdir s d va True = (x + 4 * X_PTX va, s')" "pt_wf s' d ys" "has_tab (pm s') d (X_PDX va)" "tab (pm s') d (X_PDX va) = x"
      "xmap (pm s') d = xmap (pm s) d" "pt_pages (pm s') d = insert x (pt_pages (pm s) d)" "kend s' = kend s" "kdata s' = kdata s"
      "changes_in {x, d} (pm s) (pm s')"
      using walk_alloc [OF wf [unfolded Cons] False] by metis
    have "d \<in> pt_pages (pm s) d" by (simp add: pt_pages_def)
    then have "grows s d xs s' ys" using s' Cons by (auto simp: grows_def changes_in_def)
    with s' Cons show ?thesis by (intro disjI2 exI [of _ s'] exI [of _ ys]) simp
  qed
qed

lemma x_present_or: "(x OR X_PTE_P) AND X_PTE_P \<noteq> 0"
proof
  assume "(x OR X_PTE_P) AND X_PTE_P = 0"
  then have "\<not> bit ((x OR X_PTE_P) AND X_PTE_P) 0" by simp
  then show False by (simp add: bit_simps X_PTE_P_def)
qed

lemma tab_nonzero: "pt_wf s d xs \<Longrightarrow> has_tab (pm s) d i \<Longrightarrow> unat j < 1024 \<Longrightarrow> tab (pm s) d i + 4 * j \<noteq> 0"
proof -
  assume a: "pt_wf s d xs" "has_tab (pm s) d i" "unat j < 1024"
  then have t: "unat (tab (pm s) d i) mod 4096 = 0" "tab (pm s) d i \<noteq> 0" by (auto simp: pt_wf_def kpage_def)
  then have "unat (tab (pm s) d i + 4 * j) \<noteq> 0" using slot_unat(1) [OF t(1) a(3)] by (simp add: unat_eq_0)
  then show ?thesis by (metis unat_0)
qed

lemma map_step:
  assumes wf: "pt_wf s d xs" and un: "xmap (pm s) d a AND X_PTE_P = 0"
  shows "walkpgdir s d a True = (0, s) \<and> xs = [] \<or>
    (\<exists>pte s1 s' xs'. walkpgdir s d a True = (pte, s1) \<and> pte \<noteq> 0 \<and> ld s1 pte AND X_PTE_P = 0 \<and> s' = st s1 pte e \<and>
       grows s d xs s' xs' \<and> (\<forall>vb. xmap (pm s') d vb = (if same_page vb a then e else xmap (pm s) d vb)) \<and> length xs \<le> Suc (length xs'))"
  using walk_true [OF wf, of a]
proof (elim disjE exE conjE)
  fix s1 xs1
  assume w: "walkpgdir s d a True = (tab (pm s1) d (X_PDX a) + 4 * X_PTX a, s1)" and h: "has_tab (pm s1) d (X_PDX a)"
    and g: "grows s d xs s1 xs1" and x: "xmap (pm s1) d = xmap (pm s) d" and l: "length xs \<le> Suc (length xs1)"
  let ?pte = "tab (pm s1) d (X_PDX a) + 4 * X_PTX a"
  have wf1: "pt_wf s1 d xs1" using g by (simp add: grows_def)
  note e = set_entry [OF wf1 h, where e = e]
  have "tab (pm s1) d (X_PDX a) \<in> pt_pages (pm s1) d" using h by (auto simp: pt_pages_def)
  then have "changes_in (pt_pages (pm s1) d \<union> set xs1) (pm s1) (pm (st s1 ?pte e))"
    using e(3) by (auto simp: changes_in_def only_in_def in_page_def)
  then have "grows s1 d xs1 (st s1 ?pte e) xs1" using e(1,4,5,6) by (simp add: grows_def)
  then have "grows s d xs (st s1 ?pte e) xs1" by (rule grows_trans [OF g])
  moreover have "ld s1 ?pte AND X_PTE_P = 0" using un x h unfolding ld_def by (metis xmap_def)
  ultimately show ?thesis
    using w l tab_nonzero [OF wf1 h] e(2) x
    by (intro disjI2 exI [of _ ?pte] exI [of _ s1] exI [of _ "st s1 ?pte e"] exI [of _ xs1]) simp
qed simp

text \<open>The entries of the \<open>n\<close> pages from \<open>a\<close> on, mapped to the physical pages from \<open>pa\<close> on.\<close>

definition range_map :: "u32 \<Rightarrow> nat \<Rightarrow> u32 \<Rightarrow> u32 \<Rightarrow> (u32 \<Rightarrow> u32) \<Rightarrow> u32 \<Rightarrow> u32" where
  "range_map a n pa perm f vb =
     (if unat a div 4096 \<le> unat vb div 4096 \<and> unat vb div 4096 < unat a div 4096 + n
      then (pa + of_nat (unat vb div 4096 - unat a div 4096) * X_PGSIZE) OR perm OR X_PTE_P
      else f vb)"

lemma range_map_Suc:
  assumes "unat (a + X_PGSIZE) = unat a + 4096"
  shows "range_map (a + X_PGSIZE) n (pa + X_PGSIZE) perm (\<lambda>vb. if same_page vb a then pa OR perm OR X_PTE_P else f vb) =
    range_map a (Suc n) pa perm f"
proof
  fix vb
  have d: "unat (a + X_PGSIZE) div 4096 = Suc (unat a div 4096)" unfolding assms by simp
  show "range_map (a + X_PGSIZE) n (pa + X_PGSIZE) perm (\<lambda>vb. if same_page vb a then pa OR perm OR X_PTE_P else f vb) vb = range_map a (Suc n) pa perm f vb"
  proof (cases "unat a div 4096 < unat vb div 4096")
    case True
    then obtain k where k: "unat vb div 4096 = Suc (unat a div 4096 + k)" using less_iff_Suc_add by blast
    then show ?thesis unfolding range_map_def x_same_page_iff d by (simp add: algebra_simps)
  next
    case False
    then show ?thesis unfolding range_map_def x_same_page_iff d by auto
  qed
qed

lemma mappages_loop_spec:
  assumes "pt_wf s d xs" "unat a + Suc n * 4096 \<le> 4294967296" "lst = a + of_nat n * X_PGSIZE" "unat a mod 4096 = 0"
    "\<And>vb. unat a div 4096 \<le> unat vb div 4096 \<Longrightarrow> unat vb div 4096 \<le> unat a div 4096 + n \<Longrightarrow> xmap (pm s) d vb AND X_PTE_P = 0"
  shows "\<exists>r s' xs'. mappages_loop d lst perm a pa s = Some (r, s') \<and> grows s d xs s' xs' \<and>
    (r = 0 \<and> xmap (pm s') d = range_map a (Suc n) pa perm (xmap (pm s) d) \<or> r = - 1 \<and> xs' = [] \<and> length xs < Suc n \<and> (n = 0 \<longrightarrow> s' = s))"
  using assms
proof (induction n arbitrary: s xs a pa)
  case 0
  let ?e = "pa OR perm OR X_PTE_P"
  have "xmap (pm s) d a AND X_PTE_P = 0" using 0 by auto
  from map_step [OF 0(1) this, of ?e] show ?case
  proof (elim disjE exE conjE)
    assume "walkpgdir s d a True = (0, s)" "xs = []"
    then show ?thesis using grows_refl [OF 0(1)]
      by (intro exI [of _ "- 1"] exI [of _ s] exI [of _ "[]"]) (simp add: mappages_loop.simps)
  next
    fix pte s1 s' xs'
    assume w: "walkpgdir s d a True = (pte, s1)" "pte \<noteq> 0" "ld s1 pte AND X_PTE_P = 0" "s' = st s1 pte ?e" "grows s d xs s' xs'"
      "\<forall>vb. xmap (pm s') d vb = (if same_page vb a then ?e else xmap (pm s) d vb)"
    have "mappages_loop d lst perm a pa s = Some (0, s')" using w 0(3) by (subst mappages_loop.simps) (simp add: Let_def)
    moreover have "xmap (pm s') d = range_map a (Suc 0) pa perm (xmap (pm s) d)"
      using w(6) by (auto simp: fun_eq_iff range_map_def x_same_page_iff)
    ultimately show ?thesis using w(5) by blast
  qed
next
  case (Suc n)
  let ?e = "pa OR perm OR X_PTE_P"
  have u: "unat (a + X_PGSIZE) = unat a + 4096" using Suc.prems(2) by (simp add: unat_word_ariths X_PGSIZE_def)
  have ne: "a \<noteq> lst"
  proof
    assume "a = lst"
    then have "unat (of_nat (Suc n) * X_PGSIZE :: u32) = 0" using Suc.prems(3) by simp
    moreover have "unat (of_nat (Suc n) * X_PGSIZE :: u32) = Suc n * 4096"
    proof -
      have "Suc n * 4096 < 4294967296" using Suc.prems(2) by simp
      then have "unat (of_nat (Suc n * 4096) :: u32) = Suc n * 4096" by (rule off_of_nat)
      then show ?thesis by (simp add: X_PGSIZE_def)
    qed
    ultimately show False by simp
  qed
  have "xmap (pm s) d a AND X_PTE_P = 0" using Suc.prems(5) by auto
  from map_step [OF Suc.prems(1) this, of ?e] show ?case
  proof (elim disjE exE conjE)
    assume "walkpgdir s d a True = (0, s)" "xs = []"
    then show ?thesis using grows_refl [OF Suc.prems(1)]
      by (intro exI [of _ "- 1"] exI [of _ s] exI [of _ "[]"]) (simp add: mappages_loop.simps)
  next
    fix pte s1 s2 ys
    assume w: "walkpgdir s d a True = (pte, s1)" "pte \<noteq> 0" "ld s1 pte AND X_PTE_P = 0" "s2 = st s1 pte ?e" "grows s d xs s2 ys"
      "\<forall>vb. xmap (pm s2) d vb = (if same_page vb a then ?e else xmap (pm s) d vb)" "length xs \<le> Suc (length ys)"
    have l: "mappages_loop d lst perm a pa s = mappages_loop d lst perm (a + X_PGSIZE) (pa + X_PGSIZE) s2"
      using w ne by (subst mappages_loop.simps) (simp add: Let_def)
    have wf2: "pt_wf s2 d ys" using w(5) by (simp add: grows_def)
    have d: "unat (a + X_PGSIZE) div 4096 = Suc (unat a div 4096)" unfolding u by simp
    have x2: "xmap (pm s2) d vb AND X_PTE_P = 0"
      if "unat (a + X_PGSIZE) div 4096 \<le> unat vb div 4096" "unat vb div 4096 \<le> unat (a + X_PGSIZE) div 4096 + n" for vb
      using w(6) Suc.prems(5) [of vb] that unfolding d by (simp add: x_same_page_iff)
    have p2: "unat (a + X_PGSIZE) + Suc n * 4096 \<le> 4294967296" "unat (a + X_PGSIZE) mod 4096 = 0" "lst = a + X_PGSIZE + of_nat n * X_PGSIZE"
      using Suc.prems u by (simp_all add: algebra_simps)
    obtain r s' xs' where r: "mappages_loop d lst perm (a + X_PGSIZE) (pa + X_PGSIZE) s2 = Some (r, s')" "grows s2 d ys s' xs'"
      "r = 0 \<and> xmap (pm s') d = range_map (a + X_PGSIZE) (Suc n) (pa + X_PGSIZE) perm (xmap (pm s2) d) \<or> r = - 1 \<and> xs' = [] \<and> length ys < Suc n"
      using Suc.IH [OF wf2 p2(1,3,2) x2, of "pa + X_PGSIZE"] by blast
    have "xmap (pm s2) d = (\<lambda>vb. if same_page vb a then ?e else xmap (pm s) d vb)" using w(6) by auto
    then have "r = 0 \<and> xmap (pm s') d = range_map a (Suc (Suc n)) pa perm (xmap (pm s) d) \<or> r = - 1 \<and> xs' = [] \<and> length xs < Suc (Suc n)"
      using r(3) w(7) range_map_Suc [OF u] by auto
    then show ?thesis using l r(1) grows_trans [OF w(5) r(2)] by auto
  qed
qed

end
