(* ===== verification/X6Uvm.thy ===== *)
theory X6Uvm
  imports X6Vm
begin

text \<open>
  Growing and shrinking user memory in xv6: what \<open>mappages\<close>, \<open>deallocuvm\<close> and \<open>allocuvm\<close> of vm.c do to an
  address space whose user pages are owned by it alone.
\<close>

subsection \<open>User pages\<close>

definition upage :: "bytes \<Rightarrow> u32 \<Rightarrow> u32 \<Rightarrow> u32" where
  "upage m d va = P2V (X_PTE_ADDR (xmap m d va))"

definition mapped_at :: "bytes \<Rightarrow> u32 \<Rightarrow> u32 \<Rightarrow> bool" where
  "mapped_at m d va \<longleftrightarrow> va < X_KERNBASE \<and> xmap m d va AND X_PTE_P \<noteq> 0"

text \<open>
  Every user page of the address space is a page the allocator may take back, is not free, is not a page table, and is
  mapped once; an entry that is not present is zero.
\<close>

definition uwf :: "pmem \<Rightarrow> u32 \<Rightarrow> u32 list \<Rightarrow> bool" where
  "uwf s d xs \<longleftrightarrow> pt_wf s d xs \<and> X_KERNBASE < kend s \<and>
     (\<forall>va. mapped_at (pm s) d va \<longrightarrow> kpage s (upage (pm s) d va) \<and> upage (pm s) d va \<notin> set xs \<and> upage (pm s) d va \<notin> pt_pages (pm s) d) \<and>
     (\<forall>va vb. mapped_at (pm s) d va \<longrightarrow> mapped_at (pm s) d vb \<longrightarrow> upage (pm s) d va = upage (pm s) d vb \<longrightarrow> same_page va vb) \<and>
     (\<forall>va < X_KERNBASE. xmap (pm s) d va AND X_PTE_P = 0 \<longrightarrow> xmap (pm s) d va = 0)"

lemma pte_addr_nonzero:
  assumes "uwf s d xs" "mapped_at (pm s) d va"
  shows "X_PTE_ADDR (xmap (pm s) d va) \<noteq> 0"
proof
  assume "X_PTE_ADDR (xmap (pm s) d va) = 0"
  then have "upage (pm s) d va = X_KERNBASE" by (simp add: upage_def P2V_def)
  with assms show False by (auto simp: uwf_def kpage_def)
qed

lemma mapped_has_tab: "mapped_at m d va \<Longrightarrow> has_tab m d (X_PDX va)"
  by (auto simp: mapped_at_def xmap_def split: if_splits)

text \<open>A change in pages that are not page tables does not touch the mapping.\<close>

lemma only_in_pt:
  assumes wf: "pt_wf s d xs" and o: "only_in v (pm s) m" and v: "unat v mod 4096 = 0" "v \<notin> pt_pages (pm s) d"
  shows "has_tab m d i = has_tab (pm s) d i" "has_tab (pm s) d i \<Longrightarrow> tab m d i = tab (pm s) d i" "xmap m d = xmap (pm s) d" "pt_pages m d = pt_pages (pm s) d"
proof -
  have d: "unat d mod 4096 = 0" "d \<noteq> v" using wf v by (auto simp: pt_wf_def kpage_def pt_pages_def)
  have dir: "load32 m (d + 4 * i) = load32 (pm s) (d + 4 * i)" if "unat i < 1024" for i by (rule load_other_page [OF o v(1) d that])
  show ht: "has_tab m d i = has_tab (pm s) d i" for i using dir by (auto simp: has_tab_def)
  show tb: "tab m d i = tab (pm s) d i" if "has_tab (pm s) d i" for i using dir [of i] that by (simp add: tab_def has_tab_def)
  show "xmap m d = xmap (pm s) d"
  proof
    fix va
    show "xmap m d va = xmap (pm s) d va"
    proof (cases "has_tab (pm s) d (X_PDX va)")
      case True
      have "unat (tab (pm s) d (X_PDX va)) mod 4096 = 0" "tab (pm s) d (X_PDX va) \<noteq> v"
        using wf v True by (auto simp: pt_wf_def kpage_def pt_pages_def)
      from load_other_page [OF o v(1) this, of "X_PTX va"] show ?thesis using True ht tb by (simp add: xmap_def)
    qed (simp add: xmap_def ht)
  qed
  have "tab m d ` {i. has_tab m d i} = tab (pm s) d ` {i. has_tab (pm s) d i}" by (rule image_cong) (auto simp: ht tb)
  then show "pt_pages m d = pt_pages (pm s) d" by (simp add: pt_pages_def)
qed

lemma pt_wf_free_list:
  assumes wf: "pt_wf s d xs" and o: "only_in v (pm s) (pm s')" and v: "unat v mod 4096 = 0" "v \<notin> pt_pages (pm s) d"
    and k: "kend s' = kend s" "kmem_inv s' ys" "set ys \<inter> pt_pages (pm s) d = {}"
  shows "pt_wf s' d ys"
proof -
  note e = only_in_pt [OF wf o v]
  have S: "{i. has_tab (pm s') d i} = {i. has_tab (pm s) d i}" using e(1) by simp
  have "inj_on (tab (pm s') d) {i. has_tab (pm s) d i}" using wf e(2) by (auto simp: pt_wf_def inj_on_def)
  moreover have "tab (pm s) d i \<in> pt_pages (pm s) d" if "has_tab (pm s) d i" for i using that by (auto simp: pt_pages_def)
  moreover have "d \<in> pt_pages (pm s) d" by (simp add: pt_pages_def)
  ultimately show ?thesis using wf k(2,3) e(1,2) unfolding pt_wf_def S by (auto simp: kpage_cong [OF k(1)])
qed

subsection \<open>Releasing one page\<close>

lemma dealloc_step:
  assumes w: "uwf s d xs" and m: "mapped_at (pm s) d a"
  obtains pte s1 s2 where "walkpgdir s d a False = (pte, s)" "pte \<noteq> 0" "ld s pte = xmap (pm s) d a" "kfree s (upage (pm s) d a) = Some s1" "s2 = st s1 pte 0"
    "uwf s2 d (upage (pm s) d a # xs)" "pt_pages (pm s2) d = pt_pages (pm s) d" "kend s2 = kend s" "kdata s2 = kdata s"
    "\<forall>vb. xmap (pm s2) d vb = (if same_page vb a then 0 else xmap (pm s) d vb)"
    "changes_in (insert (upage (pm s) d a) (pt_pages (pm s) d)) (pm s) (pm s2)"
proof -
  let ?u = "upage (pm s) d a" and ?t = "tab (pm s) d (X_PDX a)"
  let ?pte = "?t + 4 * X_PTX a"
  have wf: "pt_wf s d xs" using w by (simp add: uwf_def)
  have h: "has_tab (pm s) d (X_PDX a)" by (rule mapped_has_tab [OF m])
  have u: "kpage s ?u" "?u \<notin> set xs" "?u \<notin> pt_pages (pm s) d" "unat ?u mod 4096 = 0" using w m by (auto simp: uwf_def kpage_def)
  obtain s1 where s1: "kfree s ?u = Some s1" "kmem_inv s1 (?u # xs)" "kend s1 = kend s" "only_in ?u (pm s) (pm s1)"
    using kfree_spec [OF _ u(1,2)] wf by (auto simp: pt_wf_def)
  have kd: "kdata s1 = kdata s" using s1(1) by (auto simp: kfree_def Let_def split: if_splits)
  note e = only_in_pt [OF wf s1(4) u(4,3)]
  have "set (?u # xs) \<inter> pt_pages (pm s) d = {}" using wf u(3) by (auto simp: pt_wf_def pt_pages_def)
  then have wf1: "pt_wf s1 d (?u # xs)" by (rule pt_wf_free_list [OF wf s1(4) u(4,3) s1(3,2)])
  have h1: "has_tab (pm s1) d (X_PDX a)" "tab (pm s1) d (X_PDX a) = ?t" using e h by auto
  define s2 where "s2 = st s1 ?pte 0"
  note f = set_entry [OF wf1 h1(1), where e = 0, unfolded h1(2), folded s2_def]
  have x2: "xmap (pm s2) d vb = (if same_page vb a then 0 else xmap (pm s) d vb)" for vb using f(2) e(3) by simp
  have mp: "mapped_at (pm s2) d vb \<longleftrightarrow> mapped_at (pm s) d vb \<and> \<not> same_page vb a" for vb by (auto simp: mapped_at_def x2)
  have up: "upage (pm s2) d vb = upage (pm s) d vb" if "\<not> same_page vb a" for vb using that by (simp add: upage_def x2)
  have pp: "pt_pages (pm s2) d = pt_pages (pm s) d" using f(4) e(4) by simp
  have "uwf s2 d (?u # xs)"
    unfolding uwf_def
  proof (intro conjI allI impI)
    show "pt_wf s2 d (?u # xs)" by (rule f(1))
    show "X_KERNBASE < kend s2" using w f(5) s1(3) by (simp add: uwf_def)
  next
    fix va assume "mapped_at (pm s2) d va"
    then have v: "mapped_at (pm s) d va" "\<not> same_page va a" using mp by auto
    show "kpage s2 (upage (pm s2) d va)" "upage (pm s2) d va \<notin> pt_pages (pm s2) d"
      using w v up pp f(5) s1(3) by (auto simp: uwf_def kpage_def)
    have "upage (pm s) d va \<noteq> ?u" using w v m unfolding uwf_def by blast
    then show "upage (pm s2) d va \<notin> set (?u # xs)" using w v up by (auto simp: uwf_def)
  next
    fix va vb assume "mapped_at (pm s2) d va" "mapped_at (pm s2) d vb" "upage (pm s2) d va = upage (pm s2) d vb"
    then show "same_page va vb" using w mp up unfolding uwf_def by auto
  next
    fix va assume "va < X_KERNBASE" "xmap (pm s2) d va AND X_PTE_P = 0"
    then show "xmap (pm s2) d va = 0" using w x2 by (auto simp: uwf_def split: if_splits)
  qed
  moreover have "?t \<in> pt_pages (pm s) d" using h by (auto simp: pt_pages_def)
  then have "changes_in (insert ?u (pt_pages (pm s) d)) (pm s) (pm s2)"
    using s1(4) f(3) by (auto simp: changes_in_def only_in_def in_page_def)
  moreover have "ld s ?pte = xmap (pm s) d a" using h by (simp add: ld_def xmap_def)
  ultimately show ?thesis
    using that [OF walk_present [OF h] tab_nonzero [OF wf h idx_bounds(2)] _ s1(1) s2_def] pp f(5,6) s1(3) kd x2 by simp
qed

subsection \<open>Releasing a range\<close>

definition in_range :: "nat \<Rightarrow> u32 \<Rightarrow> u32 \<Rightarrow> bool" where
  "in_range lo oldsz va \<longleftrightarrow> lo \<le> unat va div 4096 \<and> unat va div 4096 * 4096 < unat oldsz"

definition released :: "pmem \<Rightarrow> u32 \<Rightarrow> u32 list \<Rightarrow> nat \<Rightarrow> u32 \<Rightarrow> pmem \<Rightarrow> u32 list \<Rightarrow> bool" where
  "released s d xs lo oldsz s' fs \<longleftrightarrow> uwf s' d (fs @ xs) \<and>
     set fs = upage (pm s) d ` {va. mapped_at (pm s) d va \<and> in_range lo oldsz va} \<and>
     (\<forall>vb. xmap (pm s') d vb = (if in_range lo oldsz vb then 0 else xmap (pm s) d vb)) \<and>
     pt_pages (pm s') d = pt_pages (pm s) d \<and> kend s' = kend s \<and> kdata s' = kdata s \<and>
     changes_in (set fs \<union> pt_pages (pm s) d) (pm s) (pm s')"

lemma in_range_below: "oldsz \<le> X_KERNBASE \<Longrightarrow> in_range lo oldsz va \<Longrightarrow> va < X_KERNBASE"
proof -
  assume "oldsz \<le> X_KERNBASE" "in_range lo oldsz va"
  then have "unat va div 4096 * 4096 < 2147483648" by (simp add: in_range_def word_le_nat_alt X_KERNBASE_def)
  then have "unat va div 4096 < 524288" by simp
  then have "unat va < 2147483648" by (simp add: div_less_iff_less_mult)
  then show ?thesis by (simp add: word_less_nat_alt X_KERNBASE_def)
qed

text \<open>Where nothing in the range is mapped, nothing is released.\<close>

lemma released_none:
  assumes "uwf s d xs" "oldsz \<le> X_KERNBASE" "\<And>va. in_range lo oldsz va \<Longrightarrow> \<not> mapped_at (pm s) d va"
  shows "released s d xs lo oldsz s []"
proof -
  have "xmap (pm s) d va = 0" if r: "in_range lo oldsz va" for va
  proof -
    have "va < X_KERNBASE" by (rule in_range_below [OF assms(2) r])
    then show ?thesis using assms(1) assms(3) [OF r] unfolding uwf_def mapped_at_def by blast
  qed
  then show ?thesis using assms by (auto simp: released_def changes_in_def)
qed

lemma released_extend:
  assumes r: "released s d xs lo' oldsz s' fs" and w: "uwf s d xs" and b: "oldsz \<le> X_KERNBASE" "lo \<le> lo'"
    and n: "\<And>va. lo \<le> unat va div 4096 \<Longrightarrow> unat va div 4096 < lo' \<Longrightarrow> in_range lo oldsz va \<Longrightarrow> \<not> mapped_at (pm s) d va"
  shows "released s d xs lo oldsz s' fs"
proof -
  have sub: "in_range lo' oldsz va \<Longrightarrow> in_range lo oldsz va" for va using b(2) by (auto simp: in_range_def)
  have m: "mapped_at (pm s) d va \<and> in_range lo oldsz va \<longleftrightarrow> mapped_at (pm s) d va \<and> in_range lo' oldsz va" for va
    using n [of va] sub [of va] by (cases "lo' \<le> unat va div 4096") (auto simp: in_range_def)
  have "xmap (pm s) d va = 0" if "in_range lo oldsz va" "\<not> in_range lo' oldsz va" for va
  proof -
    have "va < X_KERNBASE" by (rule in_range_below [OF b(1) that(1)])
    moreover have "\<not> mapped_at (pm s) d va" using m that by blast
    ultimately show ?thesis using w unfolding uwf_def mapped_at_def by blast
  qed
  then show ?thesis using r sub unfolding released_def m by auto
qed

lemma released_step:
  assumes w: "uwf s d xs" and m: "mapped_at (pm s) d a" and b: "oldsz \<le> X_KERNBASE" "in_range (unat a div 4096) oldsz a"
    and u: "u = upage (pm s) d a" and s2: "uwf s2 d (u # xs)" "pt_pages (pm s2) d = pt_pages (pm s) d" "kend s2 = kend s" "kdata s2 = kdata s"
      "\<forall>vb. xmap (pm s2) d vb = (if same_page vb a then 0 else xmap (pm s) d vb)" "changes_in (insert u (pt_pages (pm s) d)) (pm s) (pm s2)"
    and r: "released s2 d (u # xs) (Suc (unat a div 4096)) oldsz s' fs"
  shows "released s d xs (unat a div 4096) oldsz s' (fs @ [u])"
proof -
  let ?lo = "unat a div 4096"
  have split: "in_range ?lo oldsz va \<longleftrightarrow> same_page va a \<or> in_range (Suc ?lo) oldsz va" for va
    using b(2) by (auto simp: in_range_def x_same_page_iff)
  have dis: "\<not> (same_page va a \<and> in_range (Suc ?lo) oldsz va)" for va by (auto simp: in_range_def x_same_page_iff)
  have ms: "mapped_at (pm s2) d va \<longleftrightarrow> mapped_at (pm s) d va \<and> \<not> same_page va a" for va using s2(5) by (auto simp: mapped_at_def)
  have up: "upage (pm s2) d va = upage (pm s) d va" if "\<not> same_page va a" for va using that s2(5) by (simp add: upage_def)
  have ua: "upage (pm s) d va = u" if "same_page va a" for va
    using that by (simp add: u upage_def xmap_def same_page_def)
  have "set fs = upage (pm s2) d ` {va. mapped_at (pm s2) d va \<and> in_range (Suc ?lo) oldsz va}" using r by (simp add: released_def)
  also have "\<dots> = upage (pm s) d ` {va. mapped_at (pm s) d va \<and> in_range (Suc ?lo) oldsz va}"
    by (rule image_cong) (use ms up dis in auto)
  finally have fs: "set fs = upage (pm s) d ` {va. mapped_at (pm s) d va \<and> in_range (Suc ?lo) oldsz va}" .
  have "set (fs @ [u]) = upage (pm s) d ` {va. mapped_at (pm s) d va \<and> in_range ?lo oldsz va}" (is "_ = upage _ _ ` ?R")
  proof -
    have "?R = {va. mapped_at (pm s) d va \<and> in_range (Suc ?lo) oldsz va} \<union> {va. mapped_at (pm s) d va \<and> same_page va a}" using split by auto
    moreover have "upage (pm s) d ` {va. mapped_at (pm s) d va \<and> same_page va a} = {u}"
      using ua m by (auto simp: same_page_def)
    ultimately show ?thesis using fs by (simp add: image_Un)
  qed
  moreover have "\<forall>vb. xmap (pm s') d vb = (if in_range ?lo oldsz vb then 0 else xmap (pm s) d vb)"
    using r s2(5) split by (auto simp: released_def)
  moreover have "changes_in (set (fs @ [u]) \<union> pt_pages (pm s) d) (pm s) (pm s')"
    using r s2(2,6) by (auto simp: released_def changes_in_def)
  ultimately show ?thesis using r s2(2,3,4) unfolding released_def by simp
qed

lemma unat_next_region:
  assumes "a < X_KERNBASE"
  shows "unat (X_PGADDR (X_PDX a + 1) 0 0) = (unat a div 4096 div 1024 + 1) * 4194304"
proof -
  have "unat a < 2147483648" using assms by (simp add: word_less_nat_alt X_KERNBASE_def)
  then have q: "unat a div 4096 div 1024 < 512" by (simp add: div_less_iff_less_mult)
  define i where "i = X_PDX a + 1"
  have u: "unat i = unat a div 4096 div 1024 + 1" using q by (simp add: i_def unat_word_ariths unat_X_PDX)
  have "X_PGADDR i 0 0 = i * 4194304" by (simp add: X_PGADDR_def push_bit_eq_mult)
  then have "unat (X_PGADDR i 0 0) = unat i * 4194304" using q u by (simp add: unat_word_ariths)
  then show ?thesis using u by (simp only: i_def)
qed

lemma deallocuvm_loop_spec:
  assumes "uwf s d xs" "unat a mod 4096 = 0" "oldsz \<le> X_KERNBASE" "lo = unat a div 4096"
  shows "\<exists>s' fs. deallocuvm_loop d oldsz a s = Some s' \<and> released s d xs lo oldsz s' fs"
  using assms
proof (induction "unat oldsz - unat a" arbitrary: s xs a lo rule: less_induct)
  case less
  note w = less.prems(1) and al = less.prems(2) and b = less.prems(3) and lo = less.prems(4)
  have ob: "unat oldsz \<le> 2147483648" using b by (simp add: word_le_nat_alt X_KERNBASE_def)
  have ae: "unat a div 4096 * 4096 = unat a" using al by (simp add: mod_eq_0_iff_dvd)
  show ?case
  proof (cases "a < oldsz")
    case False
    have "\<not> in_range lo oldsz va" for va
    proof
      assume "in_range lo oldsz va"
      then have "unat a div 4096 * 4096 \<le> unat va div 4096 * 4096" "unat va div 4096 * 4096 < unat oldsz" by (simp_all add: lo in_range_def)
      then show False using False ae by (simp add: word_less_nat_alt)
    qed
    then have "released s d xs lo oldsz s []" by (intro released_none [OF w b]) auto
    moreover have "deallocuvm_loop d oldsz a s = Some s" using False by (subst deallocuvm_loop.simps) simp
    ultimately show ?thesis by blast
  next
    case True
    then have ao: "unat a < unat oldsz" by (simp add: word_less_nat_alt)
    then have aK: "a < X_KERNBASE" using ob by (simp add: word_less_nat_alt X_KERNBASE_def)
    have ua: "unat (a + X_PGSIZE) = unat a + 4096" using ao ob by (simp add: unat_word_ariths X_PGSIZE_def)
    have next1: "unat oldsz - unat (a + X_PGSIZE) < unat oldsz - unat a" "unat (a + X_PGSIZE) mod 4096 = 0" "unat (a + X_PGSIZE) div 4096 = Suc lo"
      using ua ao al lo by simp_all
    have ir: "in_range (unat a div 4096) oldsz a" using ao ae by (simp add: in_range_def)
    show ?thesis
    proof (cases "has_tab (pm s) d (X_PDX a)")
      case False
      let ?a = "X_PGADDR (X_PDX a + 1) 0 0"
      have un: "unat ?a = (unat a div 4096 div 1024 + 1) * 4194304" by (rule unat_next_region [OF aK])
      have "unat a div 4096 div 1024 = unat a div 4194304" by (simp add: div_mult2_eq [symmetric])
      then have gt: "unat a < unat ?a" unfolding un using dividend_less_div_times [of 4194304 "unat a"] by simp
      have l: "deallocuvm_loop d oldsz a s = deallocuvm_loop d oldsz ?a s"
        using True walk_absent [OF False] by (subst deallocuvm_loop.simps) simp
      have ad: "unat ?a div 4096 = (unat a div 4096 div 1024 + 1) * 1024" "unat ?a mod 4096 = 0" unfolding un by simp_all
      obtain s' fs where r: "deallocuvm_loop d oldsz ?a s = Some s'" "released s d xs (unat ?a div 4096) oldsz s' fs"
        using less.hyps [OF diff_less_mono2 [OF gt ao] w ad(2) b refl] by blast
      have "\<not> mapped_at (pm s) d va" if "lo \<le> unat va div 4096" "unat va div 4096 < unat ?a div 4096" for va
      proof
        assume "mapped_at (pm s) d va"
        then have "has_tab (pm s) d (X_PDX va)" by (rule mapped_has_tab)
        moreover have "unat va div 4096 div 1024 = unat a div 4096 div 1024"
        proof (rule antisym)
          show "unat va div 4096 div 1024 \<le> unat a div 4096 div 1024"
            using that(2) unfolding ad(1) by (metis Suc_eq_plus1 less_Suc_eq_le less_mult_imp_div_less)
          show "unat a div 4096 div 1024 \<le> unat va div 4096 div 1024" using that(1) lo by (simp add: div_le_mono)
        qed
        then have "X_PDX va = X_PDX a" by (simp add: word_unat_eq_iff unat_X_PDX)
        ultimately show False using False by simp
      qed
      moreover have "lo \<le> unat ?a div 4096" unfolding lo using gt by (simp add: div_le_mono)
      ultimately have "released s d xs lo oldsz s' fs" by (intro released_extend [OF r(2) w b]) auto
      with l r(1) show ?thesis by auto
    next
      case h: True
      show ?thesis
      proof (cases "mapped_at (pm s) d a")
        case m: True
        obtain pte s1 s2 where st: "walkpgdir s d a False = (pte, s)" "pte \<noteq> 0" "ld s pte = xmap (pm s) d a" "kfree s (upage (pm s) d a) = Some s1" "s2 = st s1 pte 0"
          "uwf s2 d (upage (pm s) d a # xs)" "pt_pages (pm s2) d = pt_pages (pm s) d" "kend s2 = kend s" "kdata s2 = kdata s"
          "\<forall>vb. xmap (pm s2) d vb = (if same_page vb a then 0 else xmap (pm s) d vb)"
          "changes_in (insert (upage (pm s) d a) (pt_pages (pm s) d)) (pm s) (pm s2)"
          using dealloc_step [OF w m] by metis
        have nz: "X_PTE_ADDR (xmap (pm s) d a) \<noteq> 0" "xmap (pm s) d a AND X_PTE_P \<noteq> 0"
          using pte_addr_nonzero [OF w m] m by (auto simp: mapped_at_def)
        have l: "deallocuvm_loop d oldsz a s = deallocuvm_loop d oldsz (a + X_PGSIZE) s2"
          using True st(1-5) nz by (subst deallocuvm_loop.simps) (simp add: upage_def)
        obtain s' fs where r: "deallocuvm_loop d oldsz (a + X_PGSIZE) s2 = Some s'" "released s2 d (upage (pm s) d a # xs) (Suc lo) oldsz s' fs"
          using less.hyps [OF next1(1) st(6) next1(2) b next1(3) [symmetric]] by blast
        have "released s d xs lo oldsz s' (fs @ [upage (pm s) d a])"
          unfolding lo by (rule released_step [OF w m b ir refl st(6-11) r(2) [unfolded lo]])
        with l r(1) show ?thesis by auto
      next
        case nm: False
        then have np: "xmap (pm s) d a AND X_PTE_P = 0" using aK by (simp add: mapped_at_def)
        have l: "deallocuvm_loop d oldsz a s = deallocuvm_loop d oldsz (a + X_PGSIZE) s"
          using True walk_present [OF h, of False] np h tab_nonzero [of s d xs "X_PDX a" "X_PTX a"] w
          by (subst deallocuvm_loop.simps) (simp add: ld_def xmap_def uwf_def)
        obtain s' fs where r: "deallocuvm_loop d oldsz (a + X_PGSIZE) s = Some s'" "released s d xs (Suc lo) oldsz s' fs"
          using less.hyps [OF next1(1) w next1(2) b next1(3) [symmetric]] by blast
        have "\<not> mapped_at (pm s) d va" if "lo \<le> unat va div 4096" "unat va div 4096 < Suc lo" for va
        proof -
          have "same_page va a" using that lo by (simp add: x_same_page_iff)
          then have "xmap (pm s) d va = xmap (pm s) d a" by (simp add: same_page_def xmap_def)
          with np show ?thesis by (simp add: mapped_at_def)
        qed
        then have "released s d xs lo oldsz s' fs" by (intro released_extend [OF r(2) w b]) auto
        with l r(1) show ?thesis by auto
      qed
    qed
  qed
qed

subsection \<open>Adding pages\<close>

definition zeroed :: "bytes \<Rightarrow> u32 \<Rightarrow> bool" where
  "zeroed m p \<longleftrightarrow> (\<forall>a. in_page p a \<longrightarrow> m a = 0)"

definition pages_in :: "nat \<Rightarrow> nat \<Rightarrow> u32 \<Rightarrow> bool" where
  "pages_in lo hi va \<longleftrightarrow> lo \<le> unat va div 4096 \<and> unat va div 4096 < hi"

text \<open>
  The pages \<open>lo\<close> to \<open>hi - 1\<close> are mapped, user-writable, to zeroed pages taken from the free list; every other entry
  is unchanged, and every page taken is a user page or a page table.
\<close>

definition grown :: "pmem \<Rightarrow> u32 \<Rightarrow> u32 list \<Rightarrow> nat \<Rightarrow> nat \<Rightarrow> pmem \<Rightarrow> u32 list \<Rightarrow> bool" where
  "grown s d xs lo hi s' xs' \<longleftrightarrow> uwf s' d xs' \<and> kend s' = kend s \<and> kdata s' = kdata s \<and> set xs' \<subseteq> set xs \<and>
     (\<forall>va. \<not> pages_in lo hi va \<longrightarrow> xmap (pm s') d va = xmap (pm s) d va) \<and>
     (\<forall>va. pages_in lo hi va \<longrightarrow> X_PTE_FLAGS (xmap (pm s') d va) = X_PTE_W OR X_PTE_U OR X_PTE_P \<and> upage (pm s') d va \<in> set xs \<and>
        zeroed (pm s') (upage (pm s') d va)) \<and>
     set xs' \<union> pt_pages (pm s') d \<union> upage (pm s') d ` {va. pages_in lo hi va} = set xs \<union> pt_pages (pm s) d \<and>
     changes_in (set xs \<union> pt_pages (pm s) d) (pm s) (pm s')"

lemma grown_refl: "uwf s d xs \<Longrightarrow> grown s d xs lo lo s xs"
  by (auto simp: grown_def pages_in_def changes_in_def)

lemma in_page_disjoint:
  assumes "unat p mod 4096 = 0" "unat q mod 4096 = 0" "in_page p a" "in_page q a"
  shows "p = q"
proof -
  have "a = q + of_nat (unat (a - q))" by simp
  then have "unat (q + of_nat (unat (a - q)) - p) < 4096" using assms(3) by (simp add: in_page_def)
  with page_off [OF assms(1,2) this] assms(4) show ?thesis by (simp add: in_page_def)
qed

lemma zeroed_changes:
  assumes "zeroed m p" "changes_in P m m'" "p \<notin> P" "unat p mod 4096 = 0" "\<And>q. q \<in> P \<Longrightarrow> unat q mod 4096 = 0"
  shows "zeroed m' p"
  unfolding zeroed_def
proof (intro allI impI)
  fix a assume a: "in_page p a"
  then have "\<forall>q \<in> P. \<not> in_page q a" using in_page_disjoint assms(3-5) by metis
  then show "m' a = 0" using assms(1,2) a by (auto simp: changes_in_def zeroed_def)
qed

lemma owned_aligned: "uwf s d xs \<Longrightarrow> q \<in> set xs \<union> pt_pages (pm s) d \<Longrightarrow> unat q mod 4096 = 0"
  by (auto simp: uwf_def pt_wf_def pt_pages_def kmem_inv_def kpage_def)

lemma flags_present: "X_PTE_FLAGS e = X_PTE_W OR X_PTE_U OR X_PTE_P \<Longrightarrow> e AND X_PTE_P \<noteq> 0"
proof
  assume a: "X_PTE_FLAGS e = X_PTE_W OR X_PTE_U OR X_PTE_P" "e AND X_PTE_P = 0"
  have "bit (e AND 0xFFF) 0" using a(1) by (simp add: X_PTE_FLAGS_def X_PTE_W_def X_PTE_U_def X_PTE_P_def)
  then have "bit (e AND X_PTE_P) 0" by (simp add: bit_simps X_PTE_P_def)
  with a(2) show False by simp
qed

lemma grown_trans:
  assumes g1: "grown s d xs lo mid t ts" and g2: "grown t d ts mid hi u us" and b: "lo \<le> mid" "mid \<le> hi" "mid \<le> 524288"
  shows "grown s d xs lo hi u us"
proof -
  have split: "pages_in lo hi va \<longleftrightarrow> pages_in lo mid va \<or> pages_in mid hi va" "\<not> (pages_in lo mid va \<and> pages_in mid hi va)" for va
    using b by (auto simp: pages_in_def)
  have wt: "uwf t d ts" using g1 by (simp add: grown_def)
  have x1: "xmap (pm u) d va = xmap (pm t) d va" "upage (pm u) d va = upage (pm t) d va" if "pages_in lo mid va" for va
    using g2 split(2) [of va] that by (auto simp: grown_def upage_def)
  have z: "zeroed (pm u) (upage (pm t) d va)" if v: "pages_in lo mid va" for va
  proof (rule zeroed_changes)
    show "zeroed (pm t) (upage (pm t) d va)" "changes_in (set ts \<union> pt_pages (pm t) d) (pm t) (pm u)" using g1 g2 v by (auto simp: grown_def)
    have "unat va div 4096 < 524288" using v b(3) by (simp add: pages_in_def)
    then have "va < X_KERNBASE" by (simp add: div_less_iff_less_mult word_less_nat_alt X_KERNBASE_def)
    moreover have "xmap (pm t) d va AND X_PTE_P \<noteq> 0" by (rule flags_present) (use g1 v in \<open>simp add: grown_def\<close>)
    ultimately have m: "mapped_at (pm t) d va" by (simp add: mapped_at_def)
    then show "upage (pm t) d va \<notin> set ts \<union> pt_pages (pm t) d" "unat (upage (pm t) d va) mod 4096 = 0" using wt by (auto simp: uwf_def kpage_def)
  qed (rule owned_aligned [OF wt])
  have "set us \<union> pt_pages (pm u) d \<union> upage (pm u) d ` {va. pages_in lo hi va} = set xs \<union> pt_pages (pm s) d"
  proof -
    have "{va. pages_in lo hi va} = {va. pages_in mid hi va} \<union> {va. pages_in lo mid va}" using split(1) by auto
    moreover have "upage (pm u) d ` {va. pages_in lo mid va} = upage (pm t) d ` {va. pages_in lo mid va}" by (rule image_cong) (auto simp: x1)
    moreover have "set us \<union> pt_pages (pm u) d \<union> upage (pm u) d ` {va. pages_in mid hi va} = set ts \<union> pt_pages (pm t) d"
      "set ts \<union> pt_pages (pm t) d \<union> upage (pm t) d ` {va. pages_in lo mid va} = set xs \<union> pt_pages (pm s) d"
      using g1 g2 by (simp_all add: grown_def)
    ultimately show ?thesis by (simp add: image_Un) blast
  qed
  moreover have "changes_in (set xs \<union> pt_pages (pm s) d) (pm s) (pm u)"
    by (rule changes_in_trans [where m' = "pm t" and Q = "set ts \<union> pt_pages (pm t) d"]) (use g1 g2 in \<open>auto simp: grown_def\<close>)
  moreover have "X_PTE_FLAGS (xmap (pm u) d va) = X_PTE_W OR X_PTE_U OR X_PTE_P \<and> upage (pm u) d va \<in> set xs \<and> zeroed (pm u) (upage (pm u) d va)"
    if "pages_in lo hi va" for va
  proof (cases "pages_in lo mid va")
    case True
    then show ?thesis using g1 x1 z by (auto simp: grown_def)
  next
    case False
    then show ?thesis using g1 g2 split(1) that by (auto simp: grown_def)
  qed
  moreover have "xmap (pm u) d va = xmap (pm s) d va" if "\<not> pages_in lo hi va" for va
    using g1 g2 split(1) [of va] that by (simp add: grown_def)
  ultimately show ?thesis using g1 g2 unfolding grown_def by auto
qed

text \<open>Allocating, clearing and mapping one page.\<close>

lemma rounddown_self:
  assumes "unat a mod 4096 = 0"
  shows "X_PGROUNDDOWN a = a" "unat a + 4096 \<le> 4294967296 \<Longrightarrow> X_PGROUNDDOWN (a + X_PGSIZE - 1) = a"
proof -
  have r: "X_PGROUNDDOWN b = b AND NOT (mask 12)" for b by (simp add: X_PGROUNDDOWN_def X_PGSIZE_def mask_eq_decr_exp)
  show "X_PGROUNDDOWN a = a" unfolding r using assms by (simp add: word_unat_eq_iff unat_and_not_mask)
  assume "unat a + 4096 \<le> 4294967296"
  then have u: "unat (a + 4095) = unat a + 4095" by (simp add: unat_word_ariths)
  have e: "a + X_PGSIZE - 1 = a + 4095" by (simp add: X_PGSIZE_def)
  have "unat ((a + 4095) AND NOT (mask 12)) = unat a"
  proof -
    have "(unat a + 4095) mod 4096 = 4095" using mod_add_left_eq [of "unat a" 4096 4095] assms by simp
    then show ?thesis by (simp add: unat_and_not_mask u)
  qed
  then show "X_PGROUNDDOWN (a + X_PGSIZE - 1) = a" unfolding r e by (rule word_unat_eq_iff [THEN iffD2])
qed

lemma new_entry:
  assumes "kpage s x"
  shows "P2V (X_PTE_ADDR (V2P x OR (X_PTE_W OR X_PTE_U) OR X_PTE_P)) = x" "X_PTE_FLAGS (V2P x OR (X_PTE_W OR X_PTE_U) OR X_PTE_P) = X_PTE_W OR X_PTE_U OR X_PTE_P"
proof -
  have al: "unat (V2P x) mod 4096 = 0" by (rule V2P_aligned [OF assms])
  have f: "unat (X_PTE_W OR X_PTE_U OR X_PTE_P) < 4096" by (simp add: X_PTE_P_def X_PTE_W_def X_PTE_U_def)
  have as: "V2P x OR (X_PTE_W OR X_PTE_U) OR X_PTE_P = V2P x OR (X_PTE_W OR X_PTE_U OR X_PTE_P)" by (simp only: or.assoc)
  show "P2V (X_PTE_ADDR (V2P x OR (X_PTE_W OR X_PTE_U) OR X_PTE_P)) = x" unfolding as pte_addr_or [OF al f] by simp
  have "V2P x AND 0xFFF = 0" using al by (simp add: mask_12_word word_unat_eq_iff unat_and_mask)
  then show "X_PTE_FLAGS (V2P x OR (X_PTE_W OR X_PTE_U) OR X_PTE_P) = X_PTE_W OR X_PTE_U OR X_PTE_P"
    unfolding as X_PTE_FLAGS_def bit.conj_disj_distrib2 by (simp add: X_PTE_P_def X_PTE_W_def X_PTE_U_def)
qed

lemma take_page:
  assumes w: "uwf s d (x # xs)"
  defines "s2 \<equiv> zero_page (s\<lparr>freelist := load32 (pm s) x\<rparr>) x"
  shows "kalloc s = (x, s\<lparr>freelist := load32 (pm s) x\<rparr>)" "x \<noteq> 0" "kpage s x" "x \<notin> set xs" "x \<notin> pt_pages (pm s) d"
    "uwf s2 d xs" "xmap (pm s2) d = xmap (pm s) d" "pt_pages (pm s2) d = pt_pages (pm s) d" "only_in x (pm s) (pm s2)" "zeroed (pm s2) x" "kend s2 = kend s" "kdata s2 = kdata s"
proof -
  have wf: "pt_wf s d (x # xs)" using w by (simp add: uwf_def)
  then have km: "kmem_inv s (x # xs)" by (simp add: pt_wf_def)
  note k = kalloc_Cons [OF km]
  show "kalloc s = (x, s\<lparr>freelist := load32 (pm s) x\<rparr>)" "x \<noteq> 0" and kp: "kpage s x" by (rule k)+
  show xx: "x \<notin> set xs" "x \<notin> pt_pages (pm s) d" using wf by (auto simp: pt_wf_def kmem_inv_def pt_pages_def)
  have al: "unat x mod 4096 = 0" using kp by (rule kpage_aligned)
  show o: "only_in x (pm s) (pm s2)" by (simp add: s2_def zero_page_def x_memset_only_in)
  show ke: "kend s2 = kend s" "kdata s2 = kdata s" by (simp_all add: s2_def zero_page_def)
  show "zeroed (pm s2) x"
    by (simp add: zeroed_def in_page_def s2_def zero_page_def x_memset_eq memset_correct X_PGSIZE_def word_less_nat_alt)
  note e = only_in_pt [OF wf o al xx(2)]
  show xm: "xmap (pm s2) d = xmap (pm s) d" "pt_pages (pm s2) d = pt_pages (pm s) d" by (rule e)+
  have "kmem_inv s2 xs"
    using kmem_inv_only_in [OF k(2) _ al xx(1), of "pm s2"] o by (simp add: s2_def zero_page_def)
  moreover have "set xs \<inter> pt_pages (pm s) d = {}" using wf by (auto simp: pt_wf_def pt_pages_def)
  ultimately have "pt_wf s2 d xs" by (rule pt_wf_free_list [OF wf o al xx(2) ke(1)])
  then show "uwf s2 d xs"
    using w ke xm by (simp add: uwf_def mapped_at_def upage_def kpage_cong [OF ke(1)])
qed

lemma mappages_one:
  assumes w: "uwf s d xs" and a: "unat a mod 4096 = 0" "a < X_KERNBASE" "\<not> mapped_at (pm s) d a"
  shows "mappages s d a X_PGSIZE pa perm = Some (- 1, s) \<and> xs = [] \<or>
    (\<exists>s' xs'. mappages s d a X_PGSIZE pa perm = Some (0, s') \<and> grows s d xs s' xs' \<and>
       xmap (pm s') d = (\<lambda>vb. if same_page vb a then pa OR perm OR X_PTE_P else xmap (pm s) d vb))"
proof -
  have wf: "pt_wf s d xs" using w by (simp add: uwf_def)
  have b: "unat a + 4096 \<le> 4294967296" using a(2) by (simp add: word_less_nat_alt X_KERNBASE_def)
  have l: "mappages s d a X_PGSIZE pa perm = mappages_loop d a perm a pa s" by (simp add: mappages_def rounddown_self [OF a(1)] b)
  have un: "xmap (pm s) d vb AND X_PTE_P = 0" if "unat a div 4096 \<le> unat vb div 4096" "unat vb div 4096 \<le> unat a div 4096 + 0" for vb
  proof -
    have "same_page vb a" using that by (simp add: x_same_page_iff)
    then have "xmap (pm s) d vb = xmap (pm s) d a" by (simp add: same_page_def xmap_def)
    then show ?thesis using a(2,3) by (simp add: mapped_at_def)
  qed
  have rm: "range_map a (Suc 0) pa perm f = (\<lambda>vb. if same_page vb a then pa OR perm OR X_PTE_P else f vb)" for f
    by (auto simp: fun_eq_iff range_map_def x_same_page_iff)
  obtain r s' xs' where r: "mappages_loop d a perm a pa s = Some (r, s')" "grows s d xs s' xs'"
    "r = 0 \<and> xmap (pm s') d = range_map a (Suc 0) pa perm (xmap (pm s) d) \<or> r = - 1 \<and> xs' = [] \<and> length xs < Suc 0 \<and> (0 = (0::nat) \<longrightarrow> s' = s)"
    using mappages_loop_spec [OF wf _ _ a(1) un, where n = 0 and lst = a and perm = perm and pa = pa] b by auto
  then show ?thesis unfolding l rm by auto
qed

lemma alloc_step:
  assumes w: "uwf s d (x # xs)" and a: "unat a mod 4096 = 0" "a < X_KERNBASE" "\<not> mapped_at (pm s) d a"
  defines "s2 \<equiv> zero_page (s\<lparr>freelist := load32 (pm s) x\<rparr>) x"
  shows "mappages s2 d a X_PGSIZE (V2P x) (X_PTE_W OR X_PTE_U) = Some (- 1, s2) \<and> xs = [] \<or>
    (\<exists>s' xs'. mappages s2 d a X_PGSIZE (V2P x) (X_PTE_W OR X_PTE_U) = Some (0, s') \<and> grown s d (x # xs) (unat a div 4096) (Suc (unat a div 4096)) s' xs')"
proof -
  note t = take_page [OF w, folded s2_def]
  have nm: "\<not> mapped_at (pm s2) d a" using a(3) t(7) by (simp add: mapped_at_def)
  show ?thesis
    using mappages_one [OF t(6) a(1,2) nm, of "V2P x" "X_PTE_W OR X_PTE_U"]
  proof (elim disjE exE conjE)
    fix s' xs'
    let ?e = "V2P x OR (X_PTE_W OR X_PTE_U) OR X_PTE_P"
    assume m: "mappages s2 d a X_PGSIZE (V2P x) (X_PTE_W OR X_PTE_U) = Some (0, s')" and g: "grows s2 d xs s' xs'"
      and xm: "xmap (pm s') d = (\<lambda>vb. if same_page vb a then ?e else xmap (pm s2) d vb)"
    note ne = new_entry [OF t(3)]
    have wf': "pt_wf s' d xs'" "kend s' = kend s" "kdata s' = kdata s" using g t(11,12) by (simp_all add: grows_def)
    have sub: "set xs' \<subseteq> set xs" "pt_pages (pm s') d \<union> set xs' = pt_pages (pm s) d \<union> set xs" using g t(8) by (auto simp: grows_def)
    have up: "upage (pm s') d vb = (if same_page vb a then x else upage (pm s) d vb)" for vb using ne(1) t(7) by (simp add: upage_def xm)
    have mp: "mapped_at (pm s') d vb \<longleftrightarrow> vb < X_KERNBASE \<and> same_page vb a \<or> mapped_at (pm s) d vb" for vb
      using flags_present [OF ne(2)] t(7) a(3) by (auto simp: mapped_at_def xm same_page_def xmap_def)
    have old: "kpage s (upage (pm s) d vb)" "upage (pm s) d vb \<noteq> x" "upage (pm s) d vb \<notin> set xs" "upage (pm s) d vb \<notin> pt_pages (pm s) d" if "mapped_at (pm s) d vb" for vb
      using w that by (auto simp: uwf_def)
    have same_page_new: "same_page va vb" if m: "mapped_at (pm s') d va" "mapped_at (pm s') d vb"
      and e: "(if same_page va a then x else upage (pm s) d va) = (if same_page vb a then x else upage (pm s) d vb)" for va vb
    proof (cases "same_page va a")
      case True
      then have "same_page vb a" using e m(2) mp [of vb] old(2) [of vb] by (cases "same_page vb a") auto
      with True show ?thesis by (simp add: same_page_def)
    next
      case False
      then have ma: "mapped_at (pm s) d va" using m(1) mp [of va] by blast
      then have nb: "\<not> same_page vb a" using False e old(2) [of va] by (cases "same_page vb a") auto
      then have mb: "mapped_at (pm s) d vb" using m(2) mp [of vb] by blast
      have "upage (pm s) d va = upage (pm s) d vb" using e False nb by simp
      then show ?thesis using w ma mb unfolding uwf_def by blast
    qed
    have "uwf s' d xs'"
      unfolding uwf_def
    proof (intro conjI allI impI)
      show "pt_wf s' d xs'" by (rule wf'(1))
      show "X_KERNBASE < kend s'" using w wf'(2) by (simp add: uwf_def)
    next
      fix va assume "mapped_at (pm s') d va"
      moreover have "pt_pages (pm s') d \<subseteq> pt_pages (pm s) d \<union> set xs" using sub(2) by blast
      ultimately show "kpage s' (upage (pm s') d va)" "upage (pm s') d va \<notin> set xs'" "upage (pm s') d va \<notin> pt_pages (pm s') d"
        using mp [of va] old [of va] t(3-5) sub(1) by (auto simp: up kpage_cong [OF wf'(2)])
    next
      fix va vb assume "mapped_at (pm s') d va" "mapped_at (pm s') d vb" "upage (pm s') d va = upage (pm s') d vb"
      then have "mapped_at (pm s') d va" "mapped_at (pm s') d vb" "(if same_page va a then x else upage (pm s) d va) = (if same_page vb a then x else upage (pm s) d vb)"
        by (simp_all only: up)
      then show "same_page va vb" by (rule same_page_new)
    next
      fix va assume "va < X_KERNBASE" "xmap (pm s') d va AND X_PTE_P = 0"
      then show "xmap (pm s') d va = 0" using w flags_present [OF ne(2)] t(7) by (auto simp: uwf_def xm split: if_splits)
    qed
    moreover have pi: "pages_in (unat a div 4096) (Suc (unat a div 4096)) va \<longleftrightarrow> same_page va a" for va by (auto simp: pages_in_def x_same_page_iff)
    moreover have "zeroed (pm s') x"
    proof (rule zeroed_changes [OF t(10)])
      show "changes_in (pt_pages (pm s) d \<union> set xs) (pm s2) (pm s')" using g t(8) by (simp add: grows_def)
      show "x \<notin> pt_pages (pm s) d \<union> set xs" "unat x mod 4096 = 0" using t(3-5) by (auto simp: kpage_def)
      show "unat q mod 4096 = 0" if "q \<in> pt_pages (pm s) d \<union> set xs" for q using owned_aligned [OF w] that by auto
    qed
    moreover have "upage (pm s') d ` {va. same_page va a} = {x}" by (auto simp: up same_page_def)
    then have "set xs' \<union> pt_pages (pm s') d \<union> upage (pm s') d ` {va. same_page va a} = set (x # xs) \<union> pt_pages (pm s) d"
      using sub(2) by auto
    moreover have "changes_in (set (x # xs) \<union> pt_pages (pm s) d) (pm s) (pm s')"
      by (rule changes_in_trans [where m' = "pm s2" and Q = "pt_pages (pm s2) d \<union> set xs"])
         (use g t(8,9) in \<open>auto simp: grows_def changes_in_def only_in_def in_page_def\<close>)
    ultimately have "grown s d (x # xs) (unat a div 4096) (Suc (unat a div 4096)) s' xs'"
      using wf' sub(1) t(7) ne(2) unfolding grown_def by (auto simp: up xm)
    with m show ?thesis by blast
  qed auto
qed

subsection \<open>Growing\<close>

lemma kfree_uwf:
  assumes w: "uwf s d xs" and x: "kpage s x" "x \<notin> set xs" "x \<notin> pt_pages (pm s) d" "\<And>va. mapped_at (pm s) d va \<Longrightarrow> upage (pm s) d va \<noteq> x"
  shows "\<exists>s'. kfree s x = Some s' \<and> uwf s' d (x # xs) \<and> xmap (pm s') d = xmap (pm s) d \<and> pt_pages (pm s') d = pt_pages (pm s) d \<and>
    kend s' = kend s \<and> kdata s' = kdata s \<and> only_in x (pm s) (pm s')"
proof -
  have wf: "pt_wf s d xs" using w by (simp add: uwf_def)
  obtain s' where s': "kfree s x = Some s'" "kmem_inv s' (x # xs)" "kend s' = kend s" "only_in x (pm s) (pm s')"
    using kfree_spec [OF _ x(1,2)] wf by (auto simp: pt_wf_def)
  have kd: "kdata s' = kdata s" using s'(1) by (auto simp: kfree_def Let_def split: if_splits)
  note al = kpage_aligned(1) [OF x(1)]
  note e = only_in_pt [OF wf s'(4) al x(3)]
  have "set (x # xs) \<inter> pt_pages (pm s) d = {}" using wf x(3) by (auto simp: pt_wf_def pt_pages_def)
  then have "pt_wf s' d (x # xs)" by (rule pt_wf_free_list [OF wf s'(4) al x(3) s'(3,2)])
  moreover have "mapped_at (pm s') d va = mapped_at (pm s) d va" "upage (pm s') d va = upage (pm s) d va" for va
    using e(3) by (simp_all add: mapped_at_def upage_def)
  ultimately have "uwf s' d (x # xs)"
    using w x(4) s'(3) e(3,4) by (auto simp: uwf_def kpage_cong [OF s'(3)])
  then show ?thesis using s' kd e(3,4) by blast
qed

text \<open>Nothing of an attempt to grow is left: the mapping is as before, and every page is free or a page table.\<close>

definition undone :: "pmem \<Rightarrow> u32 \<Rightarrow> u32 list \<Rightarrow> pmem \<Rightarrow> u32 list \<Rightarrow> bool" where
  "undone s d xs s' xs' \<longleftrightarrow> uwf s' d xs' \<and> xmap (pm s') d = xmap (pm s) d \<and> set xs' \<union> pt_pages (pm s') d = set xs \<union> pt_pages (pm s) d \<and>
     kend s' = kend s \<and> kdata s' = kdata s \<and> changes_in (set xs \<union> pt_pages (pm s) d) (pm s) (pm s')"

lemma grown_mapped:
  assumes "grown s d xs lo cur t ts" "cur \<le> 524288" "pages_in lo cur va"
  shows "mapped_at (pm t) d va"
proof -
  have "unat va div 4096 < 524288" using assms(2,3) by (simp add: pages_in_def)
  then have "va < X_KERNBASE" by (simp add: div_less_iff_less_mult word_less_nat_alt X_KERNBASE_def)
  moreover have "xmap (pm t) d va AND X_PTE_P \<noteq> 0" by (rule flags_present) (use assms(1,3) in \<open>simp add: grown_def\<close>)
  ultimately show ?thesis by (simp add: mapped_at_def)
qed

definition page_end :: "u32 \<Rightarrow> nat" where
  "page_end newsz = (unat newsz + 4095) div 4096"

lemma page_end_bound: "newsz < X_KERNBASE \<Longrightarrow> page_end newsz \<le> 524288"
  by (simp add: page_end_def word_less_nat_alt X_KERNBASE_def)

lemma undo:
  assumes w: "uwf s d xs" and g: "grown s d xs lo cur t ts" and u: "uwf u d us" "xmap (pm u) d = xmap (pm t) d" "pt_pages (pm u) d = pt_pages (pm t) d"
    and o: "newsz < X_KERNBASE" "oldsz < newsz" "lo = unat (X_PGROUNDUP oldsz) div 4096" "cur \<le> page_end newsz"
    and n: "\<And>va. in_range lo newsz va \<Longrightarrow> \<not> mapped_at (pm s) d va"
  shows "\<exists>s' fs. deallocuvm u d newsz oldsz = Some (oldsz, s') \<and> uwf s' d (fs @ us) \<and> xmap (pm s') d = xmap (pm s) d \<and>
    pt_pages (pm s') d = pt_pages (pm t) d \<and> set fs = upage (pm t) d ` {va. pages_in lo cur va} \<and> kend s' = kend u \<and> kdata s' = kdata u \<and>
    changes_in (set fs \<union> pt_pages (pm t) d) (pm u) (pm s')"
proof -
  have nb: "unat newsz < 2147483648" using o(1) by (simp add: word_less_nat_alt X_KERNBASE_def)
  then have "unat (X_PGROUNDUP oldsz) = (unat oldsz + 4095) div 4096 * 4096"
    using o(2) by (intro unat_X_PGROUNDUP) (simp add: word_less_nat_alt)
  then have al: "unat (X_PGROUNDUP oldsz) mod 4096 = 0" by simp
  have nK: "newsz \<le> X_KERNBASE" using o(1) by simp
  obtain s' fs where l: "deallocuvm_loop d newsz (X_PGROUNDUP oldsz) u = Some s'" "released u d us lo newsz s' fs"
    using deallocuvm_loop_spec [OF u(1) al nK o(3)] by blast
  have cur: "cur \<le> 524288" using o(4) page_end_bound [OF o(1)] by simp
  have pr: "pages_in lo cur va \<Longrightarrow> in_range lo newsz va" for va
  proof -
    assume p: "pages_in lo cur va"
    then have "unat va div 4096 < (unat newsz + 4095) div 4096" using o(4) by (simp add: pages_in_def page_end_def)
    then have "unat va div 4096 * 4096 < unat newsz" by linarith
    with p show ?thesis by (simp add: pages_in_def in_range_def)
  qed
  have mu: "mapped_at (pm u) d = mapped_at (pm t) d" "upage (pm u) d = upage (pm t) d" using u(2) by (simp_all add: fun_eq_iff mapped_at_def upage_def)
  have "{va. mapped_at (pm u) d va \<and> in_range lo newsz va} = {va. pages_in lo cur va}"
  proof (intro set_eqI iffI; simp only: mem_Collect_eq mu)
    fix va assume m: "mapped_at (pm t) d va \<and> in_range lo newsz va"
    show "pages_in lo cur va"
    proof (rule ccontr)
      assume "\<not> pages_in lo cur va"
      then have "xmap (pm t) d va = xmap (pm s) d va" using g by (simp add: grown_def)
      then have "mapped_at (pm s) d va" using m by (simp add: mapped_at_def)
      with n m show False by blast
    qed
  qed (use grown_mapped [OF g cur] pr in blast)
  then have fs: "set fs = upage (pm t) d ` {va. pages_in lo cur va}" using l(2) mu by (simp add: released_def)
  have "xmap (pm s') d vb = xmap (pm s) d vb" for vb
  proof (cases "in_range lo newsz vb")
    case True
    then have "xmap (pm s) d vb = 0" using n [OF True] in_range_below [OF nK True] w unfolding uwf_def mapped_at_def by blast
    then show ?thesis using l(2) True by (simp add: released_def)
  next
    case False
    then have "xmap (pm t) d vb = xmap (pm s) d vb" using g pr by (auto simp: grown_def)
    then show ?thesis using l(2) False u(2) by (simp add: released_def)
  qed
  then have x: "xmap (pm s') d = xmap (pm s) d" by (rule ext)
  have "deallocuvm u d newsz oldsz = Some (oldsz, s')" using o(2) l(1) by (auto simp: deallocuvm_def)
  moreover have "uwf s' d (fs @ us)" "pt_pages (pm s') d = pt_pages (pm t) d" "kend s' = kend u" "kdata s' = kdata u"
    "changes_in (set fs \<union> pt_pages (pm t) d) (pm u) (pm s')"
    using l(2) unfolding released_def u(3) by blast+
  ultimately show ?thesis using x fs by blast
qed

lemma undo_pages:
  assumes "grown s d xs lo cur t ts"
  shows "upage (pm t) d ` {va. pages_in lo cur va} \<union> set ts \<union> pt_pages (pm t) d = set xs \<union> pt_pages (pm s) d"
    "changes_in (set xs \<union> pt_pages (pm s) d) (pm s) (pm t)" "kend t = kend s" "kdata t = kdata s"
  using assms by (auto simp: grown_def)

lemma alloc_none:
  assumes w: "uwf s d xs" and g: "grown s d xs lo cur t []"
    and o: "newsz < X_KERNBASE" "oldsz < newsz" "lo = unat (X_PGROUNDUP oldsz) div 4096" "cur \<le> page_end newsz"
    and n: "\<And>va. in_range lo newsz va \<Longrightarrow> \<not> mapped_at (pm s) d va"
  shows "\<exists>s' fs. deallocuvm t d newsz oldsz = Some (oldsz, s') \<and> undone s d xs s' fs"
proof -
  have "uwf t d []" using g by (simp add: grown_def)
  from undo [OF w g this refl refl o n] obtain s' fs where d: "deallocuvm t d newsz oldsz = Some (oldsz, s')" "uwf s' d (fs @ [])"
    "xmap (pm s') d = xmap (pm s) d" "pt_pages (pm s') d = pt_pages (pm t) d" "set fs = upage (pm t) d ` {va. pages_in lo cur va}"
    "kend s' = kend t" "kdata s' = kdata t" "changes_in (set fs \<union> pt_pages (pm t) d) (pm t) (pm s')" by blast
  note p = undo_pages [OF g]
  have "changes_in (set xs \<union> pt_pages (pm s) d) (pm s) (pm s')"
    by (rule changes_in_trans [OF p(2) d(8)]) (use p(1) d(5) in blast)
  moreover have "set fs \<union> pt_pages (pm s') d = set xs \<union> pt_pages (pm s) d" using p(1) d(4,5) by simp
  ultimately have "undone s d xs s' fs" using d p by (simp add: undone_def)
  with d(1) show ?thesis by blast
qed

lemma alloc_no_table:
  assumes w: "uwf s d xs" and g: "grown s d xs lo cur t [x]"
    and o: "newsz < X_KERNBASE" "oldsz < newsz" "lo = unat (X_PGROUNDUP oldsz) div 4096" "cur \<le> page_end newsz"
    and n: "\<And>va. in_range lo newsz va \<Longrightarrow> \<not> mapped_at (pm s) d va"
  defines "u \<equiv> zero_page (t\<lparr>freelist := load32 (pm t) x\<rparr>) x"
  shows "\<exists>s1 s' fs. deallocuvm u d newsz oldsz = Some (oldsz, s1) \<and> kfree s1 x = Some s' \<and> undone s d xs s' fs"
proof -
  have wt: "uwf t d [x]" using g by (simp add: grown_def)
  note tp = take_page [OF wt, folded u_def]
  from undo [OF w g tp(6,7,8) o n] obtain s1 fs where d: "deallocuvm u d newsz oldsz = Some (oldsz, s1)" "uwf s1 d (fs @ [])"
    "xmap (pm s1) d = xmap (pm s) d" "pt_pages (pm s1) d = pt_pages (pm t) d" "set fs = upage (pm t) d ` {va. pages_in lo cur va}"
    "kend s1 = kend u" "kdata s1 = kdata u" "changes_in (set fs \<union> pt_pages (pm t) d) (pm u) (pm s1)" by blast
  have nb: "cur \<le> 524288" using o(4) page_end_bound [OF o(1)] by simp
  have mx: "upage (pm t) d va \<noteq> x" if "mapped_at (pm t) d va" for va using wt that by (auto simp: uwf_def)
  have x1: "kpage s1 x" "x \<notin> set (fs @ [])" "x \<notin> pt_pages (pm s1) d"
    using tp(3,5,11) d(4,5,6) grown_mapped [OF g nb] mx by (auto simp: kpage_def)
  have xm: "upage (pm s1) d va \<noteq> x" if "mapped_at (pm s1) d va" for va
  proof -
    have m: "mapped_at (pm s) d va" "upage (pm s1) d va = upage (pm s) d va" using that d(3) by (simp_all add: mapped_at_def upage_def)
    moreover have "x \<in> set xs" using g by (simp add: grown_def)
    ultimately show ?thesis using w unfolding uwf_def by metis
  qed
  obtain s' where s': "kfree s1 x = Some s'" "uwf s' d (x # fs @ [])" "xmap (pm s') d = xmap (pm s1) d" "pt_pages (pm s') d = pt_pages (pm s1) d"
    "kend s' = kend s1" "kdata s' = kdata s1" "only_in x (pm s1) (pm s')"
    using kfree_uwf [OF d(2) x1 xm] by blast
  note p = undo_pages [OF g]
  let ?P = "set xs \<union> pt_pages (pm s) d"
  have sub: "x \<in> ?P" "set fs \<union> pt_pages (pm t) d \<subseteq> ?P" using p(1) d(5) by auto
  have ox: "changes_in {x} (pm t) (pm u)" "changes_in {x} (pm s1) (pm s')" using tp(9) s'(7) by (auto simp: changes_in_def only_in_def in_page_def)
  have "changes_in ?P (pm s) (pm u)" by (rule changes_in_trans [OF p(2) ox(1)]) (use sub in blast)
  then have "changes_in ?P (pm s) (pm s1)" by (rule changes_in_trans [OF _ d(8) sub(2)])
  then have "changes_in ?P (pm s) (pm s')" by (rule changes_in_trans [OF _ ox(2)]) (use sub in blast)
  moreover have "set (x # fs) \<union> pt_pages (pm s') d = ?P" using p(1) d(4,5) s'(4) by auto
  ultimately have "undone s d xs s' (x # fs)" using d s' p tp(11,12) by (simp add: undone_def)
  with d(1) s'(1) show ?thesis by blast
qed

lemma allocuvm_loop_spec:
  assumes w: "uwf s d xs" and o: "newsz < X_KERNBASE" "oldsz \<le> newsz" "lo = unat (X_PGROUNDUP oldsz) div 4096"
    and n: "\<And>va. in_range lo newsz va \<Longrightarrow> \<not> mapped_at (pm s) d va"
    and g: "grown s d xs lo cur t ts" "unat a = cur * 4096" "lo \<le> cur" "cur \<le> page_end newsz"
  shows "\<exists>r s' xs'. allocuvm_loop d oldsz newsz a t = Some (r, s') \<and>
    (r = newsz \<and> grown s d xs lo (page_end newsz) s' xs' \<or> r = 0 \<and> oldsz < newsz \<and> undone s d xs s' xs')"
  using g
proof (induction "page_end newsz - cur" arbitrary: cur a t ts)
  case 0
  then have c: "cur = page_end newsz" by simp
  then have "\<not> a < newsz" using 0(3) by (simp add: page_end_def word_less_nat_alt)
  then have "allocuvm_loop d oldsz newsz a t = Some (newsz, t)" by (subst allocuvm_loop.simps) simp
  with 0(2) c show ?case by blast
next
  case (Suc k)
  note g = Suc.prems(1) and ua = Suc.prems(2) and lc = Suc.prems(3)
  have nb: "unat newsz < 2147483648" using o(1) by (simp add: word_less_nat_alt X_KERNBASE_def)
  have cn: "cur * 4096 < unat newsz" using Suc.hyps(2) unfolding page_end_def by linarith
  then have an: "a < newsz" using ua by (simp add: word_less_nat_alt)
  have aK: "a < X_KERNBASE" using an o(1) by (rule less_trans)
  have r: "unat (X_PGROUNDUP oldsz) = (unat oldsz + 4095) div 4096 * 4096"
    using o(2) nb by (intro unat_X_PGROUNDUP) (simp add: word_le_nat_alt)
  have "lo = (unat oldsz + 4095) div 4096" unfolding o(3) r by simp
  then have "unat oldsz \<le> lo * 4096" by linarith
  then have on: "oldsz < newsz" using lc cn unfolding word_less_nat_alt by linarith
  have al: "unat a mod 4096 = 0" "unat a div 4096 = cur" using ua by simp_all
  have wt: "uwf t d ts" using g by (simp add: grown_def)
  have na: "\<not> mapped_at (pm t) d a"
  proof -
    have "\<not> pages_in lo cur a" "in_range lo newsz a" using al ua cn lc by (simp_all add: pages_in_def in_range_def)
    then have "xmap (pm t) d a = xmap (pm s) d a" "\<not> mapped_at (pm s) d a" using g n by (auto simp: grown_def)
    then show ?thesis by (simp add: mapped_at_def)
  qed
  show ?case
  proof (cases ts)
    case Nil
    then have "kalloc t = (0, t)" using wt kalloc_Nil [of t] by (simp add: uwf_def pt_wf_def)
    moreover obtain s' fs where "deallocuvm t d newsz oldsz = Some (oldsz, s')" "undone s d xs s' fs"
      using alloc_none [OF w g [unfolded Nil] o(1) on o(3) Suc.prems(4) n] by blast
    ultimately show ?thesis using an on by (subst allocuvm_loop.simps) auto
  next
    case (Cons x us)
    note tp = take_page [OF wt [unfolded Cons]]
    let ?u = "zero_page (t\<lparr>freelist := load32 (pm t) x\<rparr>) x"
    show ?thesis
      using alloc_step [OF wt [unfolded Cons] al(1) aK na]
    proof (elim disjE exE conjE)
      assume m: "mappages ?u d a X_PGSIZE (V2P x) (X_PTE_W OR X_PTE_U) = Some (- 1, ?u)" and u: "us = []"
      obtain s1 s' fs where "deallocuvm ?u d newsz oldsz = Some (oldsz, s1)" "kfree s1 x = Some s'" "undone s d xs s' fs"
        using alloc_no_table [OF w g [unfolded Cons u] o(1) on o(3) Suc.prems(4) n] by blast
      then show ?thesis using an on m tp(1,2) by (subst allocuvm_loop.simps) auto
    next
      fix t' ts'
      assume m: "mappages ?u d a X_PGSIZE (V2P x) (X_PTE_W OR X_PTE_U) = Some (0, t')"
        and g': "grown t d (x # us) (unat a div 4096) (Suc (unat a div 4096)) t' ts'"
      have l: "allocuvm_loop d oldsz newsz a t = allocuvm_loop d oldsz newsz (a + X_PGSIZE) t'"
        using an m tp(1,2) by (subst allocuvm_loop.simps) simp
      have "cur \<le> 524288" using cn nb by simp
      then have "grown s d xs lo (Suc cur) t' ts'"
        using grown_trans [OF g [unfolded Cons] g' [unfolded al(2)] lc] by simp
      moreover have "unat (a + X_PGSIZE) = Suc cur * 4096" using ua cn nb by (simp add: unat_word_ariths X_PGSIZE_def)
      ultimately show ?thesis
        unfolding l using Suc.hyps(1) [of "Suc cur" t' ts' "a + X_PGSIZE"] Suc.hyps(2) lc by simp
    qed
  qed
qed

lemma allocuvm_spec:
  assumes w: "uwf s d xs" and o: "newsz < X_KERNBASE" "oldsz \<le> newsz" "lo = unat (X_PGROUNDUP oldsz) div 4096"
    and n: "\<And>va. in_range lo newsz va \<Longrightarrow> \<not> mapped_at (pm s) d va"
  shows "\<exists>r s' xs'. allocuvm s d oldsz newsz = Some (r, s') \<and>
    (r = newsz \<and> grown s d xs lo (page_end newsz) s' xs' \<or> r = 0 \<and> oldsz < newsz \<and> undone s d xs s' xs')"
proof -
  have nb: "unat newsz < 2147483648" using o(1) by (simp add: word_less_nat_alt X_KERNBASE_def)
  have on: "unat oldsz \<le> unat newsz" using o(2) by (simp add: word_le_nat_alt)
  have r: "unat (X_PGROUNDUP oldsz) = (unat oldsz + 4095) div 4096 * 4096" using on nb by (intro unat_X_PGROUNDUP) simp
  then have lo: "lo = (unat oldsz + 4095) div 4096" using o(3) by simp
  have a: "allocuvm s d oldsz newsz = allocuvm_loop d oldsz newsz (X_PGROUNDUP oldsz) s" using o(1,2) by (auto simp: allocuvm_def)
  have "lo \<le> page_end newsz" unfolding lo page_end_def using on by (intro div_le_mono) simp
  then show ?thesis unfolding a by (intro allocuvm_loop_spec [OF w o n grown_refl [OF w]]) (simp_all add: r lo)
qed

text \<open>C20. Growing user memory with \<open>allocuvm\<close>: on success exactly the new pages are mapped, writable for the user, each to a
  zeroed page of its own that was free before; on failure nothing is mapped and every page taken is free again or a page
  table of the directory. Shrinking back with \<open>deallocuvm\<close> restores the mapping, and frees all pages but the page tables.\<close>

theorem allocuvm_deallocuvm:
  assumes w: "uwf s d xs" and o: "newsz < X_KERNBASE" "oldsz < newsz" "lo = unat (X_PGROUNDUP oldsz) div 4096"
    and n: "\<And>va. in_range lo newsz va \<Longrightarrow> \<not> mapped_at (pm s) d va"
  shows "\<exists>r s'. allocuvm s d oldsz newsz = Some (r, s') \<and>
    (r = newsz \<and> (\<exists>xs'. grown s d xs lo (page_end newsz) s' xs') \<and>
       (\<exists>s'' xs''. deallocuvm s' d newsz oldsz = Some (oldsz, s'') \<and> undone s d xs s'' xs'') \<or>
     r = 0 \<and> (\<exists>xs'. undone s d xs s' xs'))"
proof -
  obtain r s' xs' where a: "allocuvm s d oldsz newsz = Some (r, s')"
    "r = newsz \<and> grown s d xs lo (page_end newsz) s' xs' \<or> r = 0 \<and> oldsz < newsz \<and> undone s d xs s' xs'"
    using allocuvm_spec [OF w o(1) less_imp_le [OF o(2)] o(3) n] by blast
  show ?thesis
  proof (cases "r = newsz \<and> grown s d xs lo (page_end newsz) s' xs'")
    case True
    then have g: "grown s d xs lo (page_end newsz) s' xs'" by simp
    then have w': "uwf s' d xs'" by (simp add: grown_def)
    from undo [OF w g w' refl refl o order_refl n] obtain s'' fs where u: "deallocuvm s' d newsz oldsz = Some (oldsz, s'')" "uwf s'' d (fs @ xs')"
      "xmap (pm s'') d = xmap (pm s) d" "pt_pages (pm s'') d = pt_pages (pm s') d" "set fs = upage (pm s') d ` {va. pages_in lo (page_end newsz) va}"
      "kend s'' = kend s'" "kdata s'' = kdata s'" "changes_in (set fs \<union> pt_pages (pm s') d) (pm s') (pm s'')" by blast
    note p = undo_pages [OF g]
    have "changes_in (set xs \<union> pt_pages (pm s) d) (pm s) (pm s'')"
      by (rule changes_in_trans [OF p(2) u(8)]) (use p(1) u(5) in blast)
    moreover have "set (fs @ xs') \<union> pt_pages (pm s'') d = set xs \<union> pt_pages (pm s) d" using p(1) u(4,5) by simp
    ultimately have "undone s d xs s'' (fs @ xs')" using u p by (simp add: undone_def)
    with a(1) True u(1) show ?thesis by blast
  next
    case False
    with a show ?thesis by blast
  qed
qed

text \<open>An address space with an empty directory and two free pages.\<close>

definition small_mem :: pmem where
  "small_mem = \<lparr>pm = store32 (\<lambda>_. 0) 0x80401000 0x80402000, freelist = 0x80401000, kend = 0x80115000, kdata = 0x8010a000\<rparr>"

lemma small_mem_uwf: "uwf small_mem 0x80400000 [0x80401000, 0x80402000]" "\<not> mapped_at (pm small_mem) 0x80400000 va"
proof -
  have o: "only_in 0x80401000 (\<lambda>_. 0) (pm small_mem)"
    using store_slot_only_in [of 0 "0x80401000" "\<lambda>_. 0" "0x80402000"] by (simp add: small_mem_def)
  have "load32 (pm small_mem) (0x80400000 + 4 * i) = 0" if "unat i < 1024" for i
    using load_other_page [OF o, of "0x80400000" i] that by (simp add: load32_def)
  then have h: "\<not> has_tab (pm small_mem) 0x80400000 i" for i by (auto simp: has_tab_def)
  then have x: "xmap (pm small_mem) 0x80400000 va = 0" for va by (simp add: xmap_def)
  then show m: "\<not> mapped_at (pm small_mem) 0x80400000 va" for va by (simp add: mapped_at_def)
  have "load32 (pm small_mem) 0x80401000 = 0x80402000" by (simp add: small_mem_def load_store32_same)
  moreover have "load32 (pm small_mem) 0x80402000 = 0"
    using load_other_page [OF o, of "0x80402000" 0] by (simp add: load32_def)
  ultimately have "kmem_inv small_mem [0x80401000, 0x80402000]"
    by (simp add: kmem_inv_def kpage_def V2P_def X_KERNBASE_def PHYSTOP_def) (simp add: small_mem_def)
  then have "pt_wf small_mem 0x80400000 [0x80401000, 0x80402000]"
    using h by (simp add: pt_wf_def kpage_def V2P_def X_KERNBASE_def PHYSTOP_def small_mem_def)
  then show "uwf small_mem 0x80400000 [0x80401000, 0x80402000]"
    using m x by (simp add: uwf_def) (simp add: small_mem_def X_KERNBASE_def)
qed

lemma allocuvm_deallocuvm_witness:
  "\<exists>r s'. allocuvm small_mem 0x80400000 0 4096 = Some (r, s') \<and> (r = 4096 \<or> r = 0)"
proof -
  have "(4096 :: u32) < X_KERNBASE" "(0 :: u32) < 4096" by (simp_all add: X_KERNBASE_def)
  from allocuvm_deallocuvm [OF small_mem_uwf(1) this refl small_mem_uwf(2)] show ?thesis by blast
qed

subsection \<open>Releasing an address space\<close>

text \<open>\<open>deallocuvm\<close> unmaps exactly the pages from \<open>newsz\<close>, rounded up, to \<open>oldsz\<close>, and puts each of them on the free list once.
  It returns the new size; when \<open>newsz\<close> is not below \<open>oldsz\<close> it returns \<open>oldsz\<close> and does nothing.\<close>

theorem deallocuvm_correct:
  assumes w: "uwf s d xs" and o: "oldsz \<le> X_KERNBASE"
  shows "\<exists>s' fs. deallocuvm s d oldsz newsz = Some (if newsz < oldsz then newsz else oldsz, s') \<and>
    (if newsz < oldsz then released s d xs (unat (X_PGROUNDUP newsz) div 4096) oldsz s' fs else s' = s)"
proof (cases "newsz < oldsz")
  case True
  have "unat newsz < 2147483648" using True o by (simp add: word_less_nat_alt word_le_nat_alt X_KERNBASE_def)
  then have "unat (X_PGROUNDUP newsz) = (unat newsz + 4095) div 4096 * 4096" by (intro unat_X_PGROUNDUP) simp
  then have "unat (X_PGROUNDUP newsz) mod 4096 = 0" by simp
  from deallocuvm_loop_spec [OF w this o refl] True show ?thesis by (auto simp: deallocuvm_def)
qed (auto simp: deallocuvm_def)

lemma deallocuvm_correct_witness:
  "\<exists>s'. deallocuvm small_mem 0x80400000 8192 100 = Some (100, s')"
proof -
  have "(8192 :: u32) \<le> X_KERNBASE" by (simp add: X_KERNBASE_def)
  from deallocuvm_correct [OF small_mem_uwf(1) this, of 100] show ?thesis by auto
qed

definition free_tables :: "u32 \<Rightarrow> nat \<Rightarrow> pmem \<Rightarrow> pmem option" where
  "free_tables d n s = fold_opt (\<lambda>i s. if ld s (d + 4 * of_nat i) AND X_PTE_P \<noteq> 0
     then kfree s (P2V (X_PTE_ADDR (ld s (d + 4 * of_nat i)))) else Some s) [0..<n] s"

definition tables_below :: "bytes \<Rightarrow> u32 \<Rightarrow> nat \<Rightarrow> u32 list" where
  "tables_below m d n = rev (map (\<lambda>i. tab m d (of_nat i)) (filter (\<lambda>i. has_tab m d (of_nat i)) [0..<n]))"

lemma free_tables_spec:
  assumes wf: "pt_wf s d xs" and n: "n \<le> 1024"
  shows "\<exists>s'. free_tables d n s = Some s' \<and> kmem_inv s' (tables_below (pm s) d n @ xs) \<and> kend s' = kend s \<and>
    (\<forall>i < 1024. ld s' (d + 4 * of_nat i) = ld s (d + 4 * of_nat i))"
  using n
proof (induction n)
  case 0
  then show ?case using wf by (simp add: free_tables_def tables_below_def pt_wf_def)
next
  case (Suc n)
  then obtain s1 where s1: "free_tables d n s = Some s1" "kmem_inv s1 (tables_below (pm s) d n @ xs)" "kend s1 = kend s"
    "\<forall>i < 1024. ld s1 (d + 4 * of_nat i) = ld s (d + 4 * of_nat i)" by auto
  have un: "unat (of_nat i :: u32) = i" if "i < 1024" for i using that by (simp add: unat_of_nat)
  have e: "ld s1 (d + 4 * of_nat n) = load32 (pm s) (d + 4 * of_nat n)" using s1(4) Suc.prems by (simp add: ld_def)
  show ?case
  proof (cases "has_tab (pm s) d (of_nat n)")
    case False
    then have "load32 (pm s) (d + 4 * of_nat n) AND X_PTE_P = 0" using un [of n] Suc.prems by (simp add: has_tab_def)
    then have "free_tables d (Suc n) s = Some s1" using s1(1) e by (simp add: free_tables_def fold_opt_append)
    moreover have "tables_below (pm s) d (Suc n) = tables_below (pm s) d n" using False by (simp add: tables_below_def)
    ultimately show ?thesis using s1 by simp
  next
    case True
    let ?t = "tab (pm s) d (of_nat n)"
    have t: "kpage s1 ?t" "?t \<notin> set xs" "?t \<noteq> d" "unat ?t mod 4096 = 0" "unat d mod 4096 = 0"
      using wf True s1(3) by (auto simp: pt_wf_def kpage_def)
    have "?t \<notin> set (tables_below (pm s) d n)"
    proof
      assume "?t \<in> set (tables_below (pm s) d n)"
      then obtain i where i: "i < n" "has_tab (pm s) d (of_nat i)" "tab (pm s) d (of_nat i) = ?t" by (auto simp: tables_below_def)
      then have "(of_nat i :: u32) = of_nat n" using wf True unfolding pt_wf_def inj_on_def by blast
      then have "unat (of_nat i :: u32) = unat (of_nat n :: u32)" by (rule arg_cong)
      then show False using i(1) un Suc.prems by simp
    qed
    then obtain s2 where s2: "kfree s1 ?t = Some s2" "kmem_inv s2 (?t # tables_below (pm s) d n @ xs)" "kend s2 = kend s1" "only_in ?t (pm s1) (pm s2)"
      using kfree_spec [OF s1(2) t(1)] t(2) by auto
    have "free_tables d (Suc n) s = Some s2"
      using s1(1) s2(1) True e by (simp add: free_tables_def fold_opt_append has_tab_def tab_def)
    moreover have "tables_below (pm s) d (Suc n) = ?t # tables_below (pm s) d n" using True by (simp add: tables_below_def)
    moreover have "ld s2 (d + 4 * of_nat i) = ld s1 (d + 4 * of_nat i)" if "i < 1024" for i
      using load_other_page [OF s2(4) t(4,5) t(3) [symmetric], of "of_nat i"] un [OF that] that by (simp add: ld_def)
    ultimately show ?thesis using s1 s2 by simp
  qed
qed

lemma set_tables_below: "set (tables_below m d 1024) = tab m d ` {i. has_tab m d i}"
proof
  show "set (tables_below m d 1024) \<subseteq> tab m d ` {i. has_tab m d i}" by (auto simp: tables_below_def)
  show "tab m d ` {i. has_tab m d i} \<subseteq> set (tables_below m d 1024)"
  proof
    fix x assume "x \<in> tab m d ` {i. has_tab m d i}"
    then obtain i where i: "has_tab m d i" "x = tab m d i" by blast
    then have "unat i < 1024" "(of_nat (unat i) :: u32) = i" by (simp_all add: has_tab_def)
    with i show "x \<in> set (tables_below m d 1024)" by (auto simp: tables_below_def intro!: image_eqI [of _ _ "unat i"])
  qed
qed

text \<open>C22. \<open>freevm\<close> puts every user page, every page table and the directory on the free list, each once, and nothing else.\<close>

theorem freevm_correct:
  assumes w: "uwf s d xs"
  shows "\<exists>s' fs. freevm s d = Some s' \<and> kmem_inv s' (fs @ xs) \<and>
    set fs = pt_pages (pm s) d \<union> upage (pm s) d ` {va. mapped_at (pm s) d va}"
proof -
  have d0: "d \<noteq> 0" using w by (auto simp: uwf_def pt_wf_def kpage_def)
  have r0: "X_PGROUNDUP 0 = 0" by (simp add: X_PGROUNDUP_def X_PGSIZE_def)
  obtain s1 us where s1: "deallocuvm_loop d X_KERNBASE 0 s = Some s1" "released s d xs 0 X_KERNBASE s1 us"
    using deallocuvm_loop_spec [OF w, of 0 X_KERNBASE 0] by auto
  have wf1: "pt_wf s1 d (us @ xs)" using s1(2) by (simp add: released_def uwf_def)
  obtain s2 where s2: "free_tables d 1024 s1 = Some s2" "kmem_inv s2 (tables_below (pm s1) d 1024 @ us @ xs)" "kend s2 = kend s1"
    using free_tables_spec [OF wf1, of 1024] by auto
  have "kpage s2 d" "d \<notin> set (tables_below (pm s1) d 1024 @ us @ xs)"
    using wf1 s2(3) unfolding set_append set_tables_below by (auto simp: pt_wf_def kpage_def)
  then obtain s3 where s3: "kfree s2 d = Some s3" "kmem_inv s3 (d # tables_below (pm s1) d 1024 @ us @ xs)"
    using kfree_spec [OF s2(2)] by blast
  have "freevm s d = Some s3"
    using d0 s1(1) s2(1) s3(1) by (simp add: freevm_def deallocuvm_def r0 free_tables_def NPDENTRIES_def X_KERNBASE_def)
  moreover have "{va. mapped_at (pm s) d va \<and> in_range 0 X_KERNBASE va} = {va. mapped_at (pm s) d va}"
  proof -
    have "in_range 0 X_KERNBASE va" if "mapped_at (pm s) d va" for va
    proof -
      have "unat va < unat X_KERNBASE" using that by (simp add: mapped_at_def word_less_nat_alt)
      moreover have "unat va div 4096 * 4096 \<le> unat va" by simp
      ultimately show ?thesis unfolding in_range_def by linarith
    qed
    then show ?thesis by blast
  qed
  then have "set us = upage (pm s) d ` {va. mapped_at (pm s) d va}" using s1(2) by (simp add: released_def)
  moreover have "insert d (set (tables_below (pm s1) d 1024)) = pt_pages (pm s) d"
    using s1(2) by (simp add: released_def set_tables_below) (simp add: pt_pages_def)
  ultimately show ?thesis using s3(2)
    by (intro exI [of _ s3] exI [of _ "d # tables_below (pm s1) d 1024 @ us"]) auto
qed

lemma freevm_correct_witness: "\<exists>s'. freevm small_mem 0x80400000 = Some s'"
  using freevm_correct [OF small_mem_uwf(1)] by blast

end
