(* ===== verification/X6State.thy ===== *)
theory X6State
  imports X6Txn X6Uvm
begin

text \<open>
  The state of the xv6 kernel above memory, cache and log: processes (proc.h), spin locks and interrupts
  (spinlock.c), cached inodes and open files (file.h), pipes (pipe.c) and the console buffer (console.c). The record
  \<open>xk\<close> extends the state of the log, so that the operations of the lower layers apply to it unchanged.

  Pointers to entries of the tables \<open>ptable\<close>, \<open>icache\<close> and \<open>ftable\<close> are indices, the null pointer is \<open>None\<close>. A
  pipe is a typed view of the page it was allocated in. There is one CPU. The spin locks that code may sleep with are
  explicit; the locks of the inode, file and buffer tables, of the log and of the page allocator are only held over
  straight-line code and left out. A panic, or a spin that never ends, is \<open>None\<close>.
\<close>

subsection \<open>Data\<close>

definition NPROC :: nat where "NPROC = 64"
definition KSTACKSIZE :: u32 where "KSTACKSIZE = 4096"
definition NOFILE :: nat where "NOFILE = 16"
definition NFILE :: nat where "NFILE = 100"
definition NINODE :: nat where "NINODE = 50"
definition NDEV :: nat where "NDEV = 10"
definition NDIRECT :: nat where "NDIRECT = 12"
definition PIPESIZE :: nat where "PIPESIZE = 512"
definition CONSOLE :: nat where "CONSOLE = 1"
definition INPUT_BUF :: nat where "INPUT_BUF = 128"

datatype procstate = UNUSED | EMBRYO | SLEEPING | RUNNABLE | RUNNING | ZOMBIE

datatype lock = PtableLock | PipeLock u32 | ConsLock | TicksLock

text \<open>The addresses that processes sleep on; different objects have different addresses.\<close>

datatype chan = ChProc nat | ChTicks | ChNread u32 | ChNwrite u32 | ChInput | ChOther u32

text \<open>
  Where a kernel thread goes on when the scheduler switches back to it: this is what the saved \<open>context\<close> and the stack
  frames above it hold. \<open>InSched b\<close> is the call of \<open>sched\<close> in \<open>yield\<close>, with \<open>b\<close> the saved \<open>intena\<close>; \<open>InSleep b lk\<close> the one
  in \<open>sleep\<close>; \<open>InExit\<close> the one in \<open>exit\<close>.
\<close>

datatype resume = AtForkret | InSched bool | InSleep bool lock | InExit

text \<open>\<open>enum priority\<close> has no negative constant, so the compiler represents it as \<open>unsigned int\<close>.\<close>

record proc =
  p_sz :: u32
  p_pgdir :: u32
  p_kstack :: u32
  p_state :: procstate
  p_pid :: int
  p_parent :: "nat option"
  p_tf :: u32
  p_context :: u32
  p_resume :: resume
  p_chan :: "chan option"
  p_killed :: bool
  p_ofile :: "nat option list"
  p_cwd :: "nat option"
  p_name :: bytes
  p_ctime :: int
  p_rutime :: int
  p_retime :: int
  p_sltime :: int
  p_priority :: u32

record inode =
  i_dev :: u32
  i_inum :: u32
  i_ref :: int
  i_lock :: sleeplock
  i_valid :: bool
  i_type :: u16
  i_major :: u16
  i_minor :: u16
  i_nlink :: u16
  i_size :: u32
  i_addrs :: "u32 list"

datatype ftype = FD_NONE | FD_PIPE | FD_INODE

record xfile =
  f_type :: ftype
  f_ref :: int
  f_readable :: bool
  f_writable :: bool
  f_pipe :: u32
  f_ip :: "nat option"
  f_off :: u32

record pipe =
  p_data :: "u8 list"
  nread :: u32
  nwrite :: u32
  readopen :: bool
  writeopen :: bool

record input =
  in_buf :: "u8 list"
  in_r :: u32
  in_w :: u32
  in_e :: u32

text \<open>The functions that \<open>devsw\<close> may point to: the console is the only device driver.\<close>

datatype devfn = ConsoleDev

record xk = logst +
  ptable :: "proc list"
  cpu_proc :: "nat option"
  cr3 :: u32
  kpgdir :: u32
  esp0 :: u32
  ncli :: int
  intena :: bool
  iflag :: bool
  locks :: "lock set"
  initproc :: "nat option"
  nextpid :: int
  ticks :: u32
  first :: bool
  mem :: pmem
  forkret_addr :: u32
  trapret_addr :: u32
  sb :: superblock
  icache :: "inode list"
  ftable :: "xfile list"
  pipes :: "u32 \<Rightarrow> pipe"
  devsw :: "devfn option list"
  inp :: input
  uart :: bool
  cons_out :: "u8 list"
  crt :: "nat \<Rightarrow> u16"
  crt_pos :: u16

definition upd_proc :: "xk \<Rightarrow> nat \<Rightarrow> (proc \<Rightarrow> proc) \<Rightarrow> xk" where
  "upd_proc s i f = s\<lparr>ptable := (ptable s)[i := f (ptable s ! i)]\<rparr>"

definition upd_inode :: "xk \<Rightarrow> nat \<Rightarrow> (inode \<Rightarrow> inode) \<Rightarrow> xk" where
  "upd_inode s i f = s\<lparr>icache := (icache s)[i := f (icache s ! i)]\<rparr>"

definition upd_file :: "xk \<Rightarrow> nat \<Rightarrow> (xfile \<Rightarrow> xfile) \<Rightarrow> xk" where
  "upd_file s i f = s\<lparr>ftable := (ftable s)[i := f (ftable s ! i)]\<rparr>"

definition upd_pipe :: "xk \<Rightarrow> u32 \<Rightarrow> (pipe \<Rightarrow> pipe) \<Rightarrow> xk" where
  "upd_pipe s p f = s\<lparr>pipes := (pipes s)(p := f (pipes s p))\<rparr>"

subsection \<open>Spin locks and interrupts\<close>

definition pushcli :: "xk \<Rightarrow> xk" where
  "pushcli s =
     (let e = iflag s;
          s = s\<lparr>iflag := False\<rparr>;
          s = (if ncli s = 0 then s\<lparr>intena := e\<rparr> else s)
      in s\<lparr>ncli := ncli s + 1\<rparr>)"

definition popcli :: "xk \<Rightarrow> xk option" where
  "popcli s =
     (if iflag s then None
      else let s = s\<lparr>ncli := ncli s - 1\<rparr>
           in if ncli s < 0 then None
              else Some (if ncli s = 0 \<and> intena s then s\<lparr>iflag := True\<rparr> else s))"

definition holding :: "xk \<Rightarrow> lock \<Rightarrow> (bool \<times> xk) option" where
  "holding s lk =
     (let s = pushcli s; r = lk \<in> locks s
      in do { s \<leftarrow> popcli s; Some (r, s) })"

definition acquire :: "xk \<Rightarrow> lock \<Rightarrow> xk option" where
  "acquire s lk = do {
     let s = pushcli s;
     (h, s) \<leftarrow> holding s lk;
     if h then None else Some (s\<lparr>locks := insert lk (locks s)\<rparr>)
   }"

definition release :: "xk \<Rightarrow> lock \<Rightarrow> xk option" where
  "release s lk = do {
     (h, s) \<leftarrow> holding s lk;
     if \<not> h then None else popcli (s\<lparr>locks := locks s - {lk}\<rparr>)
   }"

text \<open>
  The locking state is consistent: interrupts are off exactly while locks are held or somebody turned them off, the
  depth counts the held locks. \<open>enters\<close> and \<open>leaves\<close> are what taking and dropping a lock does to it.
\<close>

definition cpu_ok :: "xk \<Rightarrow> bool" where
  "cpu_ok s \<longleftrightarrow> finite (locks s) \<and> ncli s = int (card (locks s)) \<and> (0 < ncli s \<longrightarrow> \<not> iflag s)"

definition enters :: "xk \<Rightarrow> lock \<Rightarrow> xk" where
  "enters s lk = s\<lparr>iflag := False, intena := (if ncli s = 0 then iflag s else intena s), ncli := ncli s + 1, locks := insert lk (locks s)\<rparr>"

definition leaves :: "xk \<Rightarrow> lock \<Rightarrow> xk" where
  "leaves s lk = s\<lparr>iflag := (ncli s = 1 \<and> intena s), ncli := ncli s - 1, locks := locks s - {lk}\<rparr>"

named_theorems lock_simps

lemma pushcli_eq: "pushcli s = s\<lparr>iflag := False, intena := (if ncli s = 0 then iflag s else intena s), ncli := ncli s + 1\<rparr>"
  by (simp add: pushcli_def Let_def)

lemma iflag_same: "\<not> iflag s \<Longrightarrow> s\<lparr>iflag := False\<rparr> = s"
  by (cases s) simp

lemma popcli_eq: "\<not> iflag s \<Longrightarrow> 1 \<le> ncli s \<Longrightarrow> popcli s = Some (s\<lparr>iflag := (ncli s = 1 \<and> intena s), ncli := ncli s - 1\<rparr>)"
  using iflag_same [of s] by (auto simp: popcli_def Let_def)

lemma push_pop:
  "0 \<le> ncli s \<Longrightarrow> (0 < ncli s \<longrightarrow> \<not> iflag s) \<Longrightarrow> popcli (pushcli s) = Some (s\<lparr>intena := (if ncli s = 0 then iflag s else intena s)\<rparr>)"
  by (auto simp: popcli_eq pushcli_eq)

lemma holding_eq:
  "0 \<le> ncli s \<Longrightarrow> (0 < ncli s \<longrightarrow> \<not> iflag s) \<Longrightarrow>
     holding s lk = Some (lk \<in> locks s, s\<lparr>intena := (if ncli s = 0 then iflag s else intena s)\<rparr>)"
  by (simp add: holding_def push_pop Let_def) (simp add: pushcli_eq)

lemma acquire_eq:
  "0 \<le> ncli s \<Longrightarrow> acquire s lk = (if lk \<in> locks s then None else Some (enters s lk))"
  by (simp add: acquire_def holding_eq pushcli_eq enters_def)

lemma release_eq:
  assumes "1 \<le> ncli s" "\<not> iflag s"
  shows "release s lk = (if lk \<in> locks s then Some (leaves s lk) else None)"
  using assms by (simp add: release_def holding_eq popcli_eq leaves_def)

lemma cpu_ok_enters: "cpu_ok s \<Longrightarrow> lk \<notin> locks s \<Longrightarrow> cpu_ok (enters s lk)"
  by (simp add: cpu_ok_def enters_def)

lemma cpu_ok_leaves:
  assumes "cpu_ok s" "lk \<in> locks s"
  shows "cpu_ok (leaves s lk)"
proof -
  have "0 < card (locks s)" using assms by (auto simp: cpu_ok_def card_gt_0_iff)
  then show ?thesis using assms by (auto simp: cpu_ok_def leaves_def card_Diff_singleton of_nat_diff)
qed

lemma cpu_ok_acquire [lock_simps]: "cpu_ok s \<Longrightarrow> acquire s lk = (if lk \<in> locks s then None else Some (enters s lk))"
  by (simp add: acquire_eq cpu_ok_def)

lemma cpu_ok_release [lock_simps]:
  assumes "cpu_ok s"
  shows "release s lk = (if lk \<in> locks s then Some (leaves s lk) else None)"
proof (cases "lk \<in> locks s")
  case True
  then have "0 < card (locks s)" using assms by (auto simp: cpu_ok_def card_gt_0_iff)
  then show ?thesis using assms by (simp add: release_eq cpu_ok_def)
next
  case False
  then show ?thesis using assms by (simp add: release_def holding_eq cpu_ok_def)
qed

lemma leaves_enters:
  assumes "cpu_ok s" "lk \<notin> locks s"
  shows "leaves (enters s lk) lk = s\<lparr>intena := (if ncli s = 0 then iflag s else intena s)\<rparr>"
proof -
  have l: "locks s - {lk} = locks s" using assms by simp
  have "(ncli s + 1 = 1 \<and> (if ncli s = 0 then iflag s else intena s)) = iflag s" using assms by (auto simp: cpu_ok_def)
  then show ?thesis by (simp add: enters_def leaves_def l)
qed

end
