(* ===== verification/X6Cons.thy ===== *)
theory X6Cons
  imports X6State
begin

text \<open>
  Console output of xv6: the serial line (uart.c), the screen and formatted output (console.c). A character goes to both. The console lock is in use
  (\<open>cons.locking\<close> is set by \<open>consoleinit\<close> and only a panic clears it). The memory that a format string and its string arguments are read from is a byte
  function.
\<close>

unbundle bit_operations_syntax

subsection \<open>The code\<close>

definition BACKSPACE :: int where "BACKSPACE = 0x100"

definition uartputc :: "xk \<Rightarrow> int \<Rightarrow> xk" where
  "uartputc s c = (if uart s then s\<lparr>cons_out := cons_out s @ [word_of_int c]\<rparr> else s)"

text \<open>
  The screen has 25 rows of 80 cells; the cursor position is kept in two registers of the controller. When it reaches the last row, the screen scrolls up.
\<close>

definition cga_scroll :: "(nat \<Rightarrow> u16) \<times> nat \<Rightarrow> (nat \<Rightarrow> u16) \<times> nat" where
  "cga_scroll = (\<lambda>(cells, pos).
     let cells = (\<lambda>i. if i < 23 * 80 then cells (i + 80) else cells i);
         pos = pos - 80
     in (\<lambda>i. if pos \<le> i \<and> i < 24 * 80 then 0 else cells i, pos))"

definition cga_put :: "int \<Rightarrow> (nat \<Rightarrow> u16) \<times> nat \<Rightarrow> ((nat \<Rightarrow> u16) \<times> nat) option" where
  "cga_put c = (\<lambda>(cells, pos).
     let (cells, pos) =
           (if c = 10 then (cells, pos + (80 - pos mod 80))
            else if c = BACKSPACE then (cells, if pos > 0 then pos - 1 else pos)
            else (cells(pos := word_of_int c AND 0xff OR 0x0700), pos + 1))
     in if pos > 25 * 80 then None
        else
          let (cells, pos) = (if pos div 80 \<ge> 24 then cga_scroll (cells, pos) else (cells, pos))
          in Some (cells(pos := 0x0720), pos))"

definition cgaputc :: "xk \<Rightarrow> int \<Rightarrow> xk option" where
  "cgaputc s c = do {
     (cells, pos) \<leftarrow> cga_put c (crt s, unat (crt_pos s));
     Some (s\<lparr>crt := cells, crt_pos := of_nat pos\<rparr>)
   }"

definition consputc :: "xk \<Rightarrow> int \<Rightarrow> xk option" where
  "consputc s c =
     cgaputc (if c = BACKSPACE then uartputc (uartputc (uartputc s 8) 32) 8 else uartputc s c) c"

text \<open>\<open>printint\<close>: the digits come out least significant first and are printed in reverse.\<close>

function int_digits :: "u32 \<Rightarrow> u32 \<Rightarrow> u32 list" where
  "int_digits x base = (if base < 2 then [] else x mod base # (if x div base = 0 then [] else int_digits (x div base) base))"
  by auto

termination
proof (relation "measure (\<lambda>(x, base). unat x)")
  fix x base :: u32
  assume a: "\<not> base < 2" "x div base \<noteq> 0"
  have "2 \<le> unat base" using a(1) by (simp add: word_less_nat_alt)
  moreover have "x \<noteq> 0" using a(2) by auto
  then have "0 < unat x" by (simp add: unat_gt_0)
  ultimately have "unat x div unat base < unat x" by (intro div_less_dividend) auto
  then show "((x div base, base), x, base) \<in> measure (\<lambda>(x, base). unat x)" by (simp add: unat_div)
qed simp

definition digit_char :: "u32 \<Rightarrow> int" where
  "digit_char d = (if d < 10 then 48 + uint d else 87 + uint d)"

definition printint :: "xk \<Rightarrow> u32 \<Rightarrow> u32 \<Rightarrow> bool \<Rightarrow> xk option" where
  "printint s xx base sign =
     (let neg = (sign \<and> sint xx < 0);
          x = (if neg then - xx else xx);
          buf = map digit_char (int_digits x base) @ (if neg then [45] else [])
      in fold_opt (\<lambda>c s. consputc s c) (rev buf) s)"

partial_function (option) put_string :: "bytes \<Rightarrow> u32 \<Rightarrow> xk \<Rightarrow> xk option" where
  "put_string m p s = (if m p = 0 then Some s else Option.bind (consputc s (sint (m p))) (\<lambda>s. put_string m (p + 1) s))"

text \<open>A string constant, at address 1 of a memory of its own.\<close>

definition literal :: "string \<Rightarrow> bytes" where
  "literal xs = (\<lambda>a. if a = 0 \<or> unat a > length xs then 0 else of_char (xs ! (unat a - 1)))"

text \<open>The loop of \<open>cprintf\<close> over the format at \<open>p\<close>, with the arguments that are left. A missing argument would be read from beyond them on the stack.\<close>

partial_function (option) cprintf_loop :: "bytes \<Rightarrow> u32 \<Rightarrow> u32 list \<Rightarrow> xk \<Rightarrow> xk option" where
  "cprintf_loop m p args s =
     (if m p = 0 then Some s
      else if m p \<noteq> 37 then Option.bind (consputc s (uint (m p))) (\<lambda>s. cprintf_loop m (p + 1) args s)
      else
        let c = m (p + 1)
        in if c = 0 then Some s
           else if c = 100 then (case args of [] \<Rightarrow> None | a # args \<Rightarrow> Option.bind (printint s a 10 True) (\<lambda>s. cprintf_loop m (p + 2) args s))
           else if c = 120 \<or> c = 112 then (case args of [] \<Rightarrow> None | a # args \<Rightarrow> Option.bind (printint s a 16 False) (\<lambda>s. cprintf_loop m (p + 2) args s))
           else if c = 115 then
             (case args of
                [] \<Rightarrow> None
              | a # args \<Rightarrow> Option.bind (if a = 0 then put_string (literal ''(null)'') 1 s else put_string m a s) (\<lambda>s. cprintf_loop m (p + 2) args s))
           else if c = 37 then Option.bind (consputc s 37) (\<lambda>s. cprintf_loop m (p + 2) args s)
           else Option.bind (consputc s 37) (\<lambda>s. Option.bind (consputc s (uint c)) (\<lambda>s. cprintf_loop m (p + 2) args s)))"

definition xcprintf :: "xk \<Rightarrow> bytes \<Rightarrow> u32 \<Rightarrow> u32 list \<Rightarrow> xk option" where
  "xcprintf s m fmt args = do {
     s \<leftarrow> acquire s ConsLock;
     s \<leftarrow> (if fmt = 0 then None else cprintf_loop m fmt args s);
     release s ConsLock
   }"

subsection \<open>The cursor stays on the screen\<close>

lemma consputc_frame:
  assumes "consputc s c = Some s'"
  shows "inp s' = inp s" "ptable s' = ptable s" "cpu_proc s' = cpu_proc s" "locks s' = locks s" "mem s' = mem s"
proof -
  define u where "u = (if c = BACKSPACE then uartputc (uartputc (uartputc s 8) 32) 8 else uartputc s c)"
  have "inp u = inp s" "ptable u = ptable s" "cpu_proc u = cpu_proc s" "locks u = locks s" "mem u = mem s" by (simp_all add: u_def uartputc_def)
  moreover obtain x y where "s' = u\<lparr>crt := x, crt_pos := y\<rparr>"
    using assms by (auto simp: consputc_def cgaputc_def u_def [symmetric] bind_eq_Some_conv)
  ultimately show "inp s' = inp s" "ptable s' = ptable s" "cpu_proc s' = cpu_proc s" "locks s' = locks s" "mem s' = mem s" by simp_all
qed

text \<open>Rows 0 to 23 hold the text; from there \<open>cgaputc\<close> cannot panic and does not leave them.\<close>

definition cursor_ok :: "xk \<Rightarrow> bool" where
  "cursor_ok s \<longleftrightarrow> unat (crt_pos s) < 24 * 80"

lemma cga_put_ok:
  assumes "pos < 24 * 80"
  shows "\<exists>cells' pos'. cga_put c (cells, pos) = Some (cells', pos') \<and> pos' < 24 * 80 \<and> cells' pos' = 0x0720"
proof -
  have n: "pos + (80 - pos mod 80) \<le> 1920"
  proof -
    obtain q r where q: "pos = q * 80 + r" "r < 80" by (metis div_mult_mod_eq mod_less_divisor zero_less_numeral)
    then have "pos mod 80 = r" by simp
    moreover have "q < 24" using q assms by linarith
    ultimately show ?thesis using q by linarith
  qed
  have s: "\<exists>cells' pos'. (let (cells, pos) = (if p div 80 \<ge> 24 then cga_scroll (x, p) else (x, p)) in Some (cells(pos := 0x0720 :: u16), pos)) =
      Some (cells', pos') \<and> pos' < 24 * 80 \<and> cells' pos' = 0x0720" if "p \<le> 1920" for x p
    using that by (auto simp: cga_scroll_def Let_def)
  have "\<exists>x p. cga_put c (cells, pos) = (let (cells, pos) = (if p div 80 \<ge> 24 then cga_scroll (x, p) else (x, p)) in Some (cells(pos := 0x0720), pos)) \<and> p \<le> 1920"
    using assms n by (cases "c = 10"; cases "c = BACKSPACE") (fastforce simp: cga_put_def)+
  then show ?thesis using s by fastforce
qed

lemma consputc_ok:
  assumes "cursor_ok s"
  shows "\<exists>s'. consputc s c = Some s' \<and> cursor_ok s' \<and> crt s' (unat (crt_pos s')) = 0x0720"
proof -
  define u where "u = (if c = BACKSPACE then uartputc (uartputc (uartputc s 8) 32) 8 else uartputc s c)"
  have "unat (crt_pos u) < 24 * 80" using assms by (simp add: u_def cursor_ok_def uartputc_def)
  from cga_put_ok [OF this, of c "crt u"] obtain x p where p: "cga_put c (crt u, unat (crt_pos u)) = Some (x, p)" "p < 24 * 80" "x p = 0x0720" by blast
  then have "consputc s c = Some (u\<lparr>crt := x, crt_pos := of_nat p\<rparr>)" by (simp add: consputc_def cgaputc_def u_def [symmetric])
  moreover have "unat (of_nat p :: u16) = p" using p(2) by (simp add: unat_of_nat take_bit_nat_eq_self)
  ultimately show ?thesis using p by (simp add: cursor_ok_def)
qed

end
