(* ===== verification/X6Inode.thy ===== *)
theory X6Inode
  imports X6Cons
begin

text \<open>
  The block and inode layers of the xv6 file system (fs.c): the free-block bitmap, the on-disk inodes and their cache,
  and the block list of an inode. All of it works through the buffer cache and the log. A panic or a wait for a lock
  that is taken is \<open>None\<close>. The \<open>data\<close> array of a buffer is a byte function from 0 to \<open>BSIZE\<close>.
\<close>

subsection \<open>Blocks\<close>

definition NINDIRECT :: nat where "NINDIRECT = 128"
definition MAXFILE :: nat where "MAXFILE = NDIRECT + NINDIRECT"
definition IPB :: u32 where "IPB = 8"
definition IBLOCK :: "u32 \<Rightarrow> superblock \<Rightarrow> u32" where "IBLOCK i sp = i div IPB + sb_inodestart sp"
definition BPB :: u32 where "BPB = BSIZE * 8"
definition BBLOCK :: "u32 \<Rightarrow> superblock \<Rightarrow> u32" where "BBLOCK b sp = b div BPB + sb_bmapstart sp"

definition T_DIR :: u16 where "T_DIR = 1"
definition T_FILE :: u16 where "T_FILE = 2"
definition T_DEV :: u16 where "T_DEV = 3"

definition bzero :: "xk \<Rightarrow> u32 \<Rightarrow> u32 \<Rightarrow> xk option" where
  "bzero s dev bno = do {
     (bp, s) \<leftarrow> bread s dev bno;
     s \<leftarrow> log_write (upd_buf s bp (\<lambda>b. b\<lparr>b_data := snd (x_memset (b_data b) 0 0 BSIZE)\<rparr>)) bp;
     brelse s bp
   }"

text \<open>The bit of block \<open>bi\<close> in a block of the bitmap: tested, set and cleared with the mask \<open>1 << (bi % 8)\<close>.\<close>

definition bit_mask :: "nat \<Rightarrow> u8" where "bit_mask bi = push_bit (bi mod 8) 1"

definition bit_used :: "bytes \<Rightarrow> nat \<Rightarrow> bool" where
  "bit_used d bi \<longleftrightarrow> d (of_nat (bi div 8)) AND bit_mask bi \<noteq> 0"

definition bit_mark :: "bytes \<Rightarrow> nat \<Rightarrow> bytes" where
  "bit_mark d bi = d(of_nat (bi div 8) := d (of_nat (bi div 8)) OR bit_mask bi)"

definition bit_clear :: "bytes \<Rightarrow> nat \<Rightarrow> bytes" where
  "bit_clear d bi = d(of_nat (bi div 8) := d (of_nat (bi div 8)) AND NOT (bit_mask bi))"

text \<open>The outer loop of \<open>balloc\<close> runs over the first block number of each bitmap block.\<close>

fun balloc_loop :: "u32 \<Rightarrow> u32 list \<Rightarrow> xk \<Rightarrow> (u32 \<times> xk) option" where
  "balloc_loop dev [] s = None"
| "balloc_loop dev (b # bs) s = do {
     (bp, s) \<leftarrow> bread s dev (BBLOCK b (sb s));
     case find (\<lambda>bi. \<not> bit_used (b_data (bufs s ! bp)) bi)
            (takeWhile (\<lambda>bi. b + of_nat bi < sb_size (sb s)) [0..<unat BPB]) of
       Some bi \<Rightarrow> do {
         s \<leftarrow> log_write (upd_buf s bp (\<lambda>v. v\<lparr>b_data := bit_mark (b_data v) bi\<rparr>)) bp;
         s \<leftarrow> brelse s bp;
         s \<leftarrow> bzero s dev (b + of_nat bi);
         Some (b + of_nat bi, s)
       }
     | None \<Rightarrow> do {
         s \<leftarrow> brelse s bp;
         balloc_loop dev bs s
       }
   }"

definition balloc :: "xk \<Rightarrow> u32 \<Rightarrow> (u32 \<times> xk) option" where
  "balloc s dev = balloc_loop dev (map (\<lambda>k. of_nat k * BPB) [0..<(unat (sb_size (sb s)) + unat BPB - 1) div unat BPB]) s"

definition bfree :: "xk \<Rightarrow> u32 \<Rightarrow> u32 \<Rightarrow> xk option" where
  "bfree s dev b = do {
     (sp, s) \<leftarrow> readsb s dev;
     let s = s\<lparr>sb := sp\<rparr>;
     (bp, s) \<leftarrow> bread s dev (BBLOCK b (sb s));
     let bi = unat (b mod BPB);
     if \<not> bit_used (b_data (bufs s ! bp)) bi then None
     else do {
       s \<leftarrow> log_write (upd_buf s bp (\<lambda>v. v\<lparr>b_data := bit_clear (b_data v) bi\<rparr>)) bp;
       brelse s bp
     }
   }"

subsection \<open>Inodes\<close>

definition load16 :: "bytes \<Rightarrow> u32 \<Rightarrow> u16" where
  "load16 m p = ucast (m p) OR push_bit 8 (ucast (m (p + 1)))"

definition store16 :: "bytes \<Rightarrow> u32 \<Rightarrow> u16 \<Rightarrow> bytes" where
  "store16 m p x = m(p := ucast x, p + 1 := ucast (drop_bit 8 x))"

definition dinode_off :: "u32 \<Rightarrow> u32" where
  "dinode_off inum = inum mod IPB * 64"

definition get_dinode :: "bytes \<Rightarrow> u32 \<Rightarrow> inode \<Rightarrow> inode" where
  "get_dinode d p x = x\<lparr>i_type := load16 d p, i_major := load16 d (p + 2), i_minor := load16 d (p + 4), i_nlink := load16 d (p + 6),
     i_size := load32 d (p + 8), i_addrs := map (\<lambda>k. load32 d (p + 12 + 4 * of_nat k)) [0..<NDIRECT + 1]\<rparr>"

definition put_dinode :: "bytes \<Rightarrow> u32 \<Rightarrow> inode \<Rightarrow> bytes" where
  "put_dinode d p x =
     (let d = store16 d p (i_type x);
          d = store16 d (p + 2) (i_major x);
          d = store16 d (p + 4) (i_minor x);
          d = store16 d (p + 6) (i_nlink x);
          d = store32 d (p + 8) (i_size x)
      in fold (\<lambda>k d. store32 d (p + 12 + 4 * of_nat k) (i_addrs x ! k)) [0..<NDIRECT + 1] d)"

definition iinit_fmt :: bytes where
  "iinit_fmt = literal (''sb: size %d nblocks %d ninodes %d nlog %d logstart %d inodestart %d bmap start %d'' @ [CHR 0x0A])"

definition iinit :: "xk \<Rightarrow> u32 \<Rightarrow> xk option" where
  "iinit s dev = do {
     let s = s\<lparr>icache := map (\<lambda>x. x\<lparr>i_lock := initsleeplock\<rparr>) (icache s)\<rparr>;
     (sp, s) \<leftarrow> readsb s dev;
     xcprintf (s\<lparr>sb := sp\<rparr>) iinit_fmt 1
       [sb_size sp, sb_nblocks sp, sb_ninodes sp, sb_nlog sp, sb_logstart sp, sb_inodestart sp, sb_bmapstart sp]
   }"

definition iget :: "xk \<Rightarrow> u32 \<Rightarrow> u32 \<Rightarrow> (nat \<times> xk) option" where
  "iget s dev inum =
     (case find (\<lambda>i. i_ref (icache s ! i) > 0 \<and> i_dev (icache s ! i) = dev \<and> i_inum (icache s ! i) = inum) [0..<NINODE] of
        Some i \<Rightarrow> Some (i, upd_inode s i (\<lambda>x. x\<lparr>i_ref := i_ref x + 1\<rparr>))
      | None \<Rightarrow>
          (case find (\<lambda>i. i_ref (icache s ! i) = 0) [0..<NINODE] of
             Some i \<Rightarrow> Some (i, upd_inode s i (\<lambda>x. x\<lparr>i_dev := dev, i_inum := inum, i_ref := 1, i_valid := False\<rparr>))
           | None \<Rightarrow> None))"

fun ialloc_loop :: "u32 \<Rightarrow> u16 \<Rightarrow> nat list \<Rightarrow> xk \<Rightarrow> (nat \<times> xk) option" where
  "ialloc_loop dev type [] s = None"
| "ialloc_loop dev type (inum # inums) s = do {
     (bp, s) \<leftarrow> bread s dev (IBLOCK (of_nat inum) (sb s));
     let dip = dinode_off (of_nat inum);
     if load16 (b_data (bufs s ! bp)) dip = 0
     then do {
       s \<leftarrow> log_write (upd_buf s bp (\<lambda>v. v\<lparr>b_data := store16 (snd (x_memset (b_data v) dip 0 64)) dip type\<rparr>)) bp;
       s \<leftarrow> brelse s bp;
       iget s dev (of_nat inum)
     }
     else do {
       s \<leftarrow> brelse s bp;
       ialloc_loop dev type inums s
     }
   }"

definition ialloc :: "xk \<Rightarrow> u32 \<Rightarrow> u16 \<Rightarrow> (nat \<times> xk) option" where
  "ialloc s dev type = ialloc_loop dev type [1..<unat (sb_ninodes (sb s))] s"

definition iupdate :: "xk \<Rightarrow> nat \<Rightarrow> xk option" where
  "iupdate s ip = do {
     let x = icache s ! ip;
     (bp, s) \<leftarrow> bread s (i_dev x) (IBLOCK (i_inum x) (sb s));
     s \<leftarrow> log_write (upd_buf s bp (\<lambda>v. v\<lparr>b_data := put_dinode (b_data v) (dinode_off (i_inum x)) x\<rparr>)) bp;
     brelse s bp
   }"

definition idup :: "xk \<Rightarrow> nat \<Rightarrow> nat \<times> xk" where
  "idup s ip = (ip, upd_inode s ip (\<lambda>x. x\<lparr>i_ref := i_ref x + 1\<rparr>))"

definition ilock :: "xk \<Rightarrow> nat \<Rightarrow> xk option" where
  "ilock s ip =
     (if i_ref (icache s ! ip) < 1 then None
      else do {
        lk \<leftarrow> acquiresleep (mypid s) (i_lock (icache s ! ip));
        let s = upd_inode s ip (\<lambda>x. x\<lparr>i_lock := lk\<rparr>);
        if i_valid (icache s ! ip) then Some s
        else do {
          let x = icache s ! ip;
          (bp, s) \<leftarrow> bread s (i_dev x) (IBLOCK (i_inum x) (sb s));
          let s = upd_inode s ip (get_dinode (b_data (bufs s ! bp)) (dinode_off (i_inum x)));
          s \<leftarrow> brelse s bp;
          let s = upd_inode s ip (\<lambda>x. x\<lparr>i_valid := True\<rparr>);
          if i_type (icache s ! ip) = 0 then None else Some s
        }
      })"

definition iunlock :: "xk \<Rightarrow> nat \<Rightarrow> xk option" where
  "iunlock s ip =
     (if \<not> holdingsleep (mypid s) (i_lock (icache s ! ip)) \<or> i_ref (icache s ! ip) < 1 then None
      else Some (upd_inode s ip (\<lambda>x. x\<lparr>i_lock := releasesleep (i_lock x)\<rparr>)))"

text \<open>\<open>bmap\<close> returns the address of the \<open>bn\<close>-th block of an inode, allocating it where there is none.\<close>

definition bmap :: "xk \<Rightarrow> nat \<Rightarrow> u32 \<Rightarrow> (u32 \<times> xk) option" where
  "bmap s ip bn =
     (if unat bn < NDIRECT
      then let addr = i_addrs (icache s ! ip) ! unat bn
           in if addr = 0
              then do {
                (addr, s) \<leftarrow> balloc s (i_dev (icache s ! ip));
                Some (addr, upd_inode s ip (\<lambda>x. x\<lparr>i_addrs := (i_addrs x)[unat bn := addr]\<rparr>))
              }
              else Some (addr, s)
      else
        let bn = unat bn - NDIRECT
        in if bn < NINDIRECT
           then do {
             (addr, s) \<leftarrow>
               (if i_addrs (icache s ! ip) ! NDIRECT = 0
                then do {
                  (addr, s) \<leftarrow> balloc s (i_dev (icache s ! ip));
                  Some (addr, upd_inode s ip (\<lambda>x. x\<lparr>i_addrs := (i_addrs x)[NDIRECT := addr]\<rparr>))
                }
                else Some (i_addrs (icache s ! ip) ! NDIRECT, s));
             (bp, s) \<leftarrow> bread s (i_dev (icache s ! ip)) addr;
             let addr = load32 (b_data (bufs s ! bp)) (4 * of_nat bn);
             (addr, s) \<leftarrow>
               (if addr = 0
                then do {
                  (addr, s) \<leftarrow> balloc s (i_dev (icache s ! ip));
                  s \<leftarrow> log_write (upd_buf s bp (\<lambda>v. v\<lparr>b_data := store32 (b_data v) (4 * of_nat bn) addr\<rparr>)) bp;
                  Some (addr, s)
                }
                else Some (addr, s));
             s \<leftarrow> brelse s bp;
             Some (addr, s)
           }
           else None)"

text \<open>The bodies of the two loops of \<open>itrunc\<close>.\<close>

definition itrunc_direct :: "nat \<Rightarrow> nat \<Rightarrow> xk \<Rightarrow> xk option" where
  "itrunc_direct ip i s =
     (if i_addrs (icache s ! ip) ! i \<noteq> 0
      then do {
        s \<leftarrow> bfree s (i_dev (icache s ! ip)) (i_addrs (icache s ! ip) ! i);
        Some (upd_inode s ip (\<lambda>x. x\<lparr>i_addrs := (i_addrs x)[i := 0]\<rparr>))
      }
      else Some s)"

definition itrunc_indirect :: "nat \<Rightarrow> nat \<Rightarrow> nat \<Rightarrow> xk \<Rightarrow> xk option" where
  "itrunc_indirect ip bp j s =
     (let a = load32 (b_data (bufs s ! bp)) (4 * of_nat j)
      in if a \<noteq> 0 then bfree s (i_dev (icache s ! ip)) a else Some s)"

definition itrunc :: "xk \<Rightarrow> nat \<Rightarrow> xk option" where
  "itrunc s ip = do {
     s \<leftarrow> fold_opt (itrunc_direct ip) [0..<NDIRECT] s;
     s \<leftarrow>
       (if i_addrs (icache s ! ip) ! NDIRECT \<noteq> 0
        then do {
          (bp, s) \<leftarrow> bread s (i_dev (icache s ! ip)) (i_addrs (icache s ! ip) ! NDIRECT);
          s \<leftarrow> fold_opt (itrunc_indirect ip bp) [0..<NINDIRECT] s;
          s \<leftarrow> brelse s bp;
          s \<leftarrow> bfree s (i_dev (icache s ! ip)) (i_addrs (icache s ! ip) ! NDIRECT);
          Some (upd_inode s ip (\<lambda>x. x\<lparr>i_addrs := (i_addrs x)[NDIRECT := 0]\<rparr>))
        }
        else Some s);
     iupdate (upd_inode s ip (\<lambda>x. x\<lparr>i_size := 0\<rparr>)) ip
   }"

definition iput :: "xk \<Rightarrow> nat \<Rightarrow> xk option" where
  "iput s ip = do {
     lk \<leftarrow> acquiresleep (mypid s) (i_lock (icache s ! ip));
     let s = upd_inode s ip (\<lambda>x. x\<lparr>i_lock := lk\<rparr>);
     s \<leftarrow>
       (if i_valid (icache s ! ip) \<and> i_nlink (icache s ! ip) = 0 \<and> i_ref (icache s ! ip) = 1
        then do {
          s \<leftarrow> itrunc s ip;
          s \<leftarrow> iupdate (upd_inode s ip (\<lambda>x. x\<lparr>i_type := 0\<rparr>)) ip;
          Some (upd_inode s ip (\<lambda>x. x\<lparr>i_valid := False\<rparr>))
        }
        else Some s);
     let s = upd_inode s ip (\<lambda>x. x\<lparr>i_lock := releasesleep (i_lock x)\<rparr>);
     Some (upd_inode s ip (\<lambda>x. x\<lparr>i_ref := i_ref x - 1\<rparr>))
   }"

definition iunlockput :: "xk \<Rightarrow> nat \<Rightarrow> xk option" where
  "iunlockput s ip = do {
     s \<leftarrow> iunlock s ip;
     iput s ip
   }"


subsection \<open>Frames\<close>

lemma xk_more:
  fixes s :: xk
  assumes "logst.more s' = logst.more s"
  shows "ptable s' = ptable s" "cpu_proc s' = cpu_proc s" "sb s' = sb s" "icache s' = icache s" "ftable s' = ftable s" "mem s' = mem s"
    "pipes s' = pipes s" "inp s' = inp s" "cons_out s' = cons_out s" "locks s' = locks s" "ncli s' = ncli s" "intena s' = intena s"
    "iflag s' = iflag s" "initproc s' = initproc s" "nextpid s' = nextpid s" "ticks s' = ticks s"
  using assms by (cases s; cases s'; simp)+

lemma tx_frame_xk:
  fixes s :: xk
  assumes "tx_frame K s s'"
  shows "ptable s' = ptable s" "cpu_proc s' = cpu_proc s" "sb s' = sb s" "icache s' = icache s" "ftable s' = ftable s" "mem s' = mem s"
    "mypid s' = mypid s"
  using assms xk_more [of s' s] by (simp_all add: tx_frame_def)

subsection \<open>The bitmap\<close>

lemma bit_used_iff: "bit_used d bi \<longleftrightarrow> bit (d (of_nat (bi div 8))) (bi mod 8)"
proof -
  have "and w (push_bit n 1) = 0 \<longleftrightarrow> \<not> bit w n" if "n < 8" for w :: u8 and n
  proof
    assume "and w (push_bit n 1) = 0"
    then have "bit (and w (push_bit n 1)) n = bit (0 :: u8) n" by simp
    then show "\<not> bit w n" using that by (simp add: bit_simps)
  next
    assume "\<not> bit w n"
    then show "and w (push_bit n 1) = 0" by (intro bit_word_eqI) (auto simp: bit_simps)
  qed
  then show ?thesis by (simp add: bit_used_def bit_mask_def)
qed

lemma block_byte_eq: "a < 4096 \<Longrightarrow> b < 4096 \<Longrightarrow> (of_nat (a div 8) :: u32) = of_nat (b div 8) \<longleftrightarrow> a div 8 = b div 8"
  by (simp add: word_unat_eq_iff off_of_nat)

lemma bit_used_mark:
  assumes "a < 4096" "b < 4096"
  shows "bit_used (bit_mark d a) b \<longleftrightarrow> b = a \<or> bit_used d b"
proof (cases "b div 8 = a div 8")
  case True
  then have "b mod 8 = a mod 8 \<longleftrightarrow> b = a" by (metis div_mult_mod_eq)
  then show ?thesis using True by (auto simp: bit_used_iff bit_mark_def bit_mask_def bit_simps)
next
  case False
  then show ?thesis using block_byte_eq [OF assms] by (auto simp: bit_used_iff bit_mark_def)
qed

lemma bit_used_clear:
  assumes "a < 4096" "b < 4096"
  shows "bit_used (bit_clear d a) b \<longleftrightarrow> b \<noteq> a \<and> bit_used d b"
proof (cases "b div 8 = a div 8")
  case True
  then have "b mod 8 = a mod 8 \<longleftrightarrow> b = a" by (metis div_mult_mod_eq)
  then show ?thesis using True by (auto simp: bit_used_iff bit_clear_def bit_mask_def bit_simps)
next
  case False
  then show ?thesis using block_byte_eq [OF assms] by (auto simp: bit_used_iff bit_clear_def)
qed

lemma bit_clear_mark:
  assumes "\<not> bit_used d a"
  shows "bit_clear (bit_mark d a) a = d"
proof -
  let ?w = "d (of_nat (a div 8))"
  have "\<not> bit ?w (a mod 8)" using assms by (simp add: bit_used_iff)
  then have "and (or ?w (bit_mask a)) (not (bit_mask a)) = ?w"
    by (intro bit_word_eqI) (auto simp: bit_mask_def bit_simps)
  then show ?thesis by (simp add: bit_clear_def bit_mark_def)
qed

lemma bit_mark_wf: "wf_block d \<Longrightarrow> a < 4096 \<Longrightarrow> wf_block (bit_mark d a)" "wf_block d \<Longrightarrow> a < 4096 \<Longrightarrow> wf_block (bit_clear d a)"
  by (auto simp: wf_block_def bit_mark_def bit_clear_def BSIZE_def word_le_nat_alt off_of_nat)


text \<open>
  The disk layout the code relies on: the bitmap is one block, it and the inode blocks are logged like data, the cached
  superblock is the one on the disk, and only blocks outside these areas are free.
\<close>

definition bm_block :: "xk \<Rightarrow> u32" where "bm_block s = sb_bmapstart (sb s)"

definition blk_used :: "xk \<Rightarrow> nat \<Rightarrow> bool" where
  "blk_used s b \<longleftrightarrow> bit_used (rview s (bm_block s)) b"

definition inode_area :: "xk \<Rightarrow> u32 set" where
  "inode_area s = (\<lambda>i. IBLOCK i (sb s)) ` {i. i < sb_ninodes (sb s)}"

definition fs_geo :: "xk \<Rightarrow> bool" where
  "fs_geo s \<longleftrightarrow> unat (sb_size (sb s)) \<le> 1000 \<and> data_block s (bm_block s) \<and> (\<forall>b \<in> inode_area s. data_block s b \<and> b \<noteq> bm_block s) \<and>
     superblock_of (rview s 1) = sb s \<and>
     (\<forall>b < unat (sb_size (sb s)). \<not> blk_used s b \<longrightarrow> data_block s (of_nat b) \<and> of_nat b \<noteq> bm_block s \<and> of_nat b \<notin> inode_area s)"

text \<open>The blocks whose buffers are held.\<close>

definition held_blocks :: "xk \<Rightarrow> nat set \<Rightarrow> u32 set" where
  "held_blocks s H = {n. \<exists>i \<in> H. holds_block s i n}"

lemma held_blocksD: "n \<notin> held_blocks s H \<Longrightarrow> i \<in> H \<Longrightarrow> \<not> holds_block s i n"
  by (auto simp: held_blocks_def)

lemma held_blocks_frame: "tx_frame H s s' \<Longrightarrow> held_blocks s' H = held_blocks s H"
  by (auto simp: held_blocks_def tx_frame_holds)

lemma memset_block: "wf_block d \<Longrightarrow> snd (x_memset d 0 0 BSIZE) = (\<lambda>_. 0)"
  by (auto simp: x_memset_eq memset_correct wf_block_def fun_eq_iff not_less)

lemma bzero_spec:
  assumes t: "tx s H (Suc k)" and h: "card H \<le> 2" "b \<notin> held_blocks s H" and b: "data_block s b"
  shows "\<exists>s'. bzero s ROOTDEV b = Some s' \<and> tx s' H k \<and> tx_frame H s s' \<and> rview s' = (rview s)(b := (\<lambda>_. 0))"
proof -
  have w: "wf_block (rview s b)" using t rview_wf by (auto simp: tx_def)
  have z: "snd (x_memset (rview s b) 0 0 BSIZE) = (\<lambda>_. 0)" by (rule memset_block [OF w])
  define f where "f = (\<lambda>d :: bytes. snd (x_memset d 0 0 BSIZE))"
  have w0: "wf_block (f (rview s b))" using z by (simp add: f_def zero_wf)
  obtain i s1 s2 s3 where r: "bread s ROOTDEV b = Some (i, s1)" "b_data (bufs s1 ! i) = rview s b" "logst.more s1 = logst.more s"
    "log_write (upd_buf s1 i (\<lambda>v. v\<lparr>b_data := f (b_data v)\<rparr>)) i = Some s2"
    "brelse s2 i = Some s3" "tx s3 H k" "tx_frame H s s3" "rview s3 = (rview s)(b := f (rview s b))"
    using tx_update [where f = f, OF t h(1) held_blocksD [OF h(2)] b w0] by blast
  show ?thesis using r z unfolding bzero_def f_def by simp
qed


lemma balloc_first:
  assumes "0 < unat (sb_size (sb s))" "unat (sb_size (sb s)) \<le> 1000"
  shows "balloc s dev = balloc_loop dev [0] s"
proof -
  have "(unat (sb_size (sb s)) + unat BPB - 1) div unat BPB = 1" using assms by (simp add: BPB_def BSIZE_def div_nat_eqI)
  then show ?thesis by (simp add: balloc_def)
qed

lemma takeWhile_size:
  assumes "unat (n :: u32) \<le> 1000"
  shows "takeWhile (\<lambda>bi. 0 + of_nat bi < n) [0..<unat BPB] = [0..<unat n]"
proof -
  have e: "[0..<unat BPB] = [0..<unat n] @ [unat n..<4096]"
    using assms upt_add_eq_append [of 0 "unat n" "4096 - unat n"] by (simp add: BPB_def BSIZE_def)
  have a: "of_nat bi < n \<longleftrightarrow> bi < unat n" if "bi < 4096" for bi using that by (simp add: word_less_nat_alt off_of_nat)
  have "unat n < 4096" using assms by simp
  then have "[unat n..<4096] = unat n # [Suc (unat n)..<4096]" by (simp add: upt_conv_Cons)
  then show ?thesis unfolding e using assms a by (subst takeWhile_append2) auto
qed

lemma balloc_spec:
  assumes t: "tx s H (k + 2)" and g: "fs_geo s" and h: "card H \<le> 2" "bm_block s \<notin> held_blocks s H"
    and f: "\<And>b. b < unat (sb_size (sb s)) \<Longrightarrow> \<not> blk_used s b \<Longrightarrow> of_nat b \<notin> held_blocks s H"
  shows "case find (\<lambda>b. \<not> blk_used s b) [0..<unat (sb_size (sb s))] of
     None \<Rightarrow> balloc s ROOTDEV = None
   | Some b \<Rightarrow> \<exists>s'. balloc s ROOTDEV = Some (of_nat b, s') \<and> tx s' H k \<and> tx_frame H s s' \<and>
       rview s' = (rview s)(bm_block s := bit_mark (rview s (bm_block s)) b, of_nat b := (\<lambda>_. 0))"
proof (cases "unat (sb_size (sb s)) = 0")
  case True
  then show ?thesis by (simp add: balloc_def BPB_def BSIZE_def)
next
  case False
  let ?bm = "bm_block s"
  have n: "0 < unat (sb_size (sb s))" "unat (sb_size (sb s)) \<le> 1000" "data_block s ?bm" "?bm < FSSIZE" using False g by (auto simp: fs_geo_def data_block_def)
  have bb: "BBLOCK 0 (sb s) = ?bm" by (simp add: BBLOCK_def bm_block_def)
  note l = balloc_first [OF n(1,2)]
  show ?thesis
  proof (cases "find (\<lambda>b. \<not> blk_used s b) [0..<unat (sb_size (sb s))]")
    case None
    obtain i s1 s2 where r: "bread s ROOTDEV ?bm = Some (i, s1)" "b_data (bufs s1 ! i) = rview s ?bm" "logst.more s1 = logst.more s" "brelse s1 i = Some s2"
      using tx_read [OF t h(1) held_blocksD [OF h(2)] n(4)] by blast
    have "sb s1 = sb s" using xk_more(3) [OF r(3)] .
    then show ?thesis using None r takeWhile_size [OF n(2)] by (simp add: l bb blk_used_def)
  next
    case (Some b)
    then have b: "b < unat (sb_size (sb s))" "\<not> blk_used s b" "b < 4096" using n by (auto simp: find_Some_iff)
    have w: "wf_block (bit_mark (rview s ?bm) b)" using t rview_wf b(3) by (auto simp: tx_def intro: bit_mark_wf)
    have t2: "tx s H (Suc (Suc k))" using t by simp
    obtain i s1 s2 s3 where r: "bread s ROOTDEV ?bm = Some (i, s1)" "b_data (bufs s1 ! i) = rview s ?bm" "logst.more s1 = logst.more s"
      "log_write (upd_buf s1 i (\<lambda>v. v\<lparr>b_data := bit_mark (b_data v) b\<rparr>)) i = Some s2" "brelse s2 i = Some s3" "tx s3 H (Suc k)" "tx_frame H s s3"
      "rview s3 = (rview s)(?bm := bit_mark (rview s ?bm) b)"
      using tx_update [where f = "\<lambda>d. bit_mark d b", OF t2 h(1) held_blocksD [OF h(2)] n(3) w] by blast
    have d: "data_block s3 (of_nat b)" "of_nat b \<notin> held_blocks s3 H"
      using g b f [OF b(1,2)] tx_frame_data [OF r(7)] held_blocks_frame [OF r(7)] by (auto simp: fs_geo_def)
    obtain s4 where z: "bzero s3 ROOTDEV (of_nat b) = Some s4" "tx s4 H k" "tx_frame H s3 s4" "rview s4 = (rview s3)(of_nat b := (\<lambda>_. 0))"
      using bzero_spec [OF r(6) h(1) d(2,1)] by blast
    have "sb s1 = sb s" using xk_more(3) [OF r(3)] .
    then have "balloc s ROOTDEV = Some (of_nat b, s4)" using Some r z(1) takeWhile_size [OF n(2)] by (simp add: l bb blk_used_def)
    moreover have "tx_frame H s s4" using r(7) z(3) by (meson order_refl tx_frame_trans)
    ultimately show ?thesis using Some z r(8) by simp
  qed
qed


lemma sb_same: "s\<lparr>sb := sb s\<rparr> = s"
  by (cases s) simp

lemma readsb_tx:
  assumes t: "tx s H k" and g: "superblock_of (rview s 1) = sb s" and h: "card H \<le> 2" "1 \<notin> held_blocks s H"
  obtains s1 where "readsb s ROOTDEV = Some (sb s, s1)" "tx s1 H k" "tx_frame H s s1" "rview s1 = rview s"
proof -
  have n: "(1 :: u32) < FSSIZE" by (simp add: FSSIZE_def)
  obtain i s1 s2 where r: "bread s ROOTDEV 1 = Some (i, s1)" "b_data (bufs s1 ! i) = rview s 1" "logst.more s1 = logst.more s" "brelse s1 i = Some s2"
    "tx s2 H k" "tx_frame H s s2" "rview s2 = rview s"
    using tx_read [OF t h(1) held_blocksD [OF h(2)] n] by blast
  then have "readsb s ROOTDEV = Some (sb s, s2)" using g by (simp add: readsb_def)
  then show ?thesis using that r(5-7) by blast
qed

lemma bfree_spec:
  assumes t: "tx s H (Suc k)" and g: "data_block s (bm_block s)" "superblock_of (rview s 1) = sb s" and h: "card H \<le> 2" "1 \<notin> held_blocks s H" "bm_block s \<notin> held_blocks s H"
    and b: "b < 4096"
  shows "if blk_used s b
    then \<exists>s'. bfree s ROOTDEV (of_nat b) = Some s' \<and> tx s' H k \<and> tx_frame H s s' \<and> rview s' = (rview s)(bm_block s := bit_clear (rview s (bm_block s)) b)
    else bfree s ROOTDEV (of_nat b) = None"
proof -
  let ?bm = "bm_block s"
  obtain s1 where r1: "readsb s ROOTDEV = Some (sb s, s1)" "tx s1 H (Suc k)" "tx_frame H s s1" "rview s1 = rview s"
    using readsb_tx [OF t g(2) h(1,2)] by blast
  have e: "sb s1 = sb s" using tx_frame_xk(3) [OF r1(3)] .
  then have e1: "s1\<lparr>sb := sb s\<rparr> = s1" using sb_same [of s1] by simp
  have "(of_nat b :: u32) div BPB = 0" "unat (of_nat b mod BPB) = b"
    using b by (simp_all add: BPB_def BSIZE_def off_of_nat unat_mod word_unat_eq_iff unat_div)
  then have bb: "BBLOCK (of_nat b) (sb s) = ?bm" "unat (of_nat b mod BPB) = b" by (simp_all add: BBLOCK_def bm_block_def)
  have n: "?bm < FSSIZE" "data_block s1 ?bm" "?bm \<notin> held_blocks s1 H"
    using g tx_frame_data [OF r1(3)] held_blocks_frame [OF r1(3)] h(3) by (auto simp: data_block_def)
  show ?thesis
  proof (cases "blk_used s b")
    case True
    have w: "wf_block (bit_clear (rview s1 ?bm) b)" using r1(2) rview_wf b by (auto simp: tx_def intro: bit_mark_wf)
    obtain i s2 s3 s4 where r: "bread s1 ROOTDEV ?bm = Some (i, s2)" "b_data (bufs s2 ! i) = rview s1 ?bm" "logst.more s2 = logst.more s1"
      "log_write (upd_buf s2 i (\<lambda>v. v\<lparr>b_data := bit_clear (b_data v) b\<rparr>)) i = Some s3" "brelse s3 i = Some s4" "tx s4 H k" "tx_frame H s1 s4"
      "rview s4 = (rview s1)(?bm := bit_clear (rview s1 ?bm) b)"
      using tx_update [where f = "\<lambda>d. bit_clear d b", OF r1(2) h(1) held_blocksD [OF n(3)] n(2) w] by blast
    have "bfree s ROOTDEV (of_nat b) = Some s4" using True r1 r e by (simp add: bfree_def bb blk_used_def e1)
    moreover have "tx_frame H s s4" using r1(3) r(7) by (meson order_refl tx_frame_trans)
    ultimately show ?thesis using True r(6,8) r1(4) by simp
  next
    case False
    obtain i s2 s3 where r: "bread s1 ROOTDEV ?bm = Some (i, s2)" "b_data (bufs s2 ! i) = rview s1 ?bm" "logst.more s2 = logst.more s1" "brelse s2 i = Some s3"
      using tx_read [OF r1(2) h(1) held_blocksD [OF n(3)] n(1)] by blast
    then show ?thesis using False r1 e by (simp add: bfree_def bb blk_used_def e1)
  qed
qed


subsection \<open>Inodes on the disk\<close>

lemma load32_bytes:
  assumes "m p = byte_of x 0" "m (p + 1) = byte_of x 1" "m (p + 2) = byte_of x 2" "m (p + 3) = byte_of x 3"
  shows "load32 m p = x"
proof -
  have "load32 m p = load32 (store32 m p x) p" using assms by (simp add: load32_def store32_def)
  then show ?thesis by (simp add: load_store32_same)
qed

lemma load16_bytes:
  assumes "m p = ucast x" "m (p + 1) = ucast (drop_bit 8 x)"
  shows "load16 m p = x"
  unfolding load16_def assms by (rule bit_word_eqI) (auto simp: bit_simps)

lemma store32_at:
  assumes "unat p < 509"
  shows "store32 d p x a = (if unat p \<le> unat a \<and> unat a < unat p + 4 then byte_of x (unat a - unat p) else d a)"
proof -
  have u: "unat (p + 1) = unat p + 1" "unat (p + 2) = unat p + 2" "unat (p + 3) = unat p + 3" using assms by (simp_all add: unat_word_ariths)
  have e: "a = p \<longleftrightarrow> unat a = unat p" "a = p + 1 \<longleftrightarrow> unat a = unat p + 1" "a = p + 2 \<longleftrightarrow> unat a = unat p + 2" "a = p + 3 \<longleftrightarrow> unat a = unat p + 3"
    by (simp_all add: word_unat_eq_iff u)
  consider "unat a < unat p" | "unat a = unat p" | "unat a = unat p + 1" | "unat a = unat p + 2" | "unat a = unat p + 3" | "unat p + 4 \<le> unat a" by linarith
  then show ?thesis by cases (simp_all add: store32_def e)
qed

lemma store16_at:
  assumes "unat p < 509"
  shows "store16 d p x a = (if unat a = unat p then ucast x else if unat a = unat p + 1 then ucast (drop_bit 8 x) else d a)"
proof -
  have "unat (p + 1) = unat p + 1" using assms by (simp add: unat_word_ariths)
  then have e: "a = p \<longleftrightarrow> unat a = unat p" "a = p + 1 \<longleftrightarrow> unat a = unat p + 1" by (simp_all add: word_unat_eq_iff)
  show ?thesis by (simp add: store16_def e)
qed

lemma addr_off: "unat (p :: u32) \<le> 448 \<Longrightarrow> k < 13 \<Longrightarrow> unat (p + 12 + 4 * of_nat k) = unat p + 12 + 4 * k"
  by (simp add: unat_word_ariths off_of_nat)

text \<open>The fields of a \<open>dinode\<close> at their offsets; \<open>put_addrs\<close> is the \<open>memmove\<close> of the block addresses.\<close>

definition put_addrs :: "u32 \<Rightarrow> u32 list \<Rightarrow> nat \<Rightarrow> bytes \<Rightarrow> bytes" where
  "put_addrs p as n d = fold (\<lambda>k d. store32 d (p + 12 + 4 * of_nat k) (as ! k)) [0..<n] d"

lemma put_addrs_at:
  assumes "unat p \<le> 448" "n \<le> 13"
  shows "put_addrs p as n d a = (if unat p + 12 \<le> unat a \<and> unat a < unat p + 12 + 4 * n
    then byte_of (as ! ((unat a - unat p - 12) div 4)) ((unat a - unat p - 12) mod 4) else d a)"
  using assms(2)
proof (induction n)
  case (Suc n)
  let ?q = "p + 12 + 4 * of_nat n :: u32"
  have q: "unat ?q = unat p + 12 + 4 * n" using assms(1) Suc.prems by (intro addr_off) auto
  have s: "put_addrs p as (Suc n) d a = store32 (put_addrs p as n d) ?q (as ! n) a" by (simp add: put_addrs_def)
  show ?case
  proof (cases "unat ?q \<le> unat a \<and> unat a < unat ?q + 4")
    case True
    define r where "r = unat a - unat ?q"
    have r: "unat a - unat p - 12 = 4 * n + r" "r < 4" using True unfolding r_def q by linarith+
    then have "(unat a - unat p - 12) div 4 = n" "(unat a - unat p - 12) mod 4 = r" by simp_all
    moreover have "unat a - unat ?q = r" by (simp add: r_def)
    moreover have "unat ?q < 509" using q assms(1) Suc.prems by linarith
    ultimately show ?thesis unfolding s using True q by (subst store32_at) auto
  next
    case False
    have "unat ?q < 509" using q assms(1) Suc.prems by linarith
    then have "store32 (put_addrs p as n d) ?q (as ! n) a = put_addrs p as n d a" using False by (subst store32_at) auto
    then show ?thesis unfolding s using Suc False q by auto
  qed
qed (auto simp: put_addrs_def)

lemma put_dinode_eq:
  "put_dinode d p x = put_addrs p (i_addrs x) 13
     (store32 (store16 (store16 (store16 (store16 d p (i_type x)) (p + 2) (i_major x)) (p + 4) (i_minor x)) (p + 6) (i_nlink x)) (p + 8) (i_size x))"
  by (simp add: put_dinode_def put_addrs_def Let_def NDIRECT_def)

lemma field_off:
  assumes "unat (p :: u32) \<le> 448"
  shows "unat (p + 1) = unat p + 1" "unat (p + 2) = unat p + 2" "unat (p + 4) = unat p + 4" "unat (p + 6) = unat p + 6" "unat (p + 8) = unat p + 8"
    "unat (p + 2 + 1) = unat p + 3" "unat (p + 4 + 1) = unat p + 5" "unat (p + 6 + 1) = unat p + 7"
    "unat (p + 8 + 1) = unat p + 9" "unat (p + 8 + 2) = unat p + 10" "unat (p + 8 + 3) = unat p + 11"
    "unat (3 + p) = unat p + 3" "unat (5 + p) = unat p + 5" "unat (7 + p) = unat p + 7" "unat (9 + p) = unat p + 9" "unat (10 + p) = unat p + 10"
    "unat (11 + p) = unat p + 11"
  using assms by (simp_all add: unat_word_ariths)

lemma put_dinode_other:
  assumes "unat p \<le> 448" "unat a < unat p \<or> unat p + 64 \<le> unat a"
  shows "put_dinode d p x a = d a"
  using assms by (auto simp: put_dinode_eq put_addrs_at store32_at store16_at field_off [OF assms(1)])

lemma get_put_dinode:
  assumes "length (i_addrs x) = 13" "unat p \<le> 448"
  shows "get_dinode (put_dinode d p x) p y =
    y\<lparr>i_type := i_type x, i_major := i_major x, i_minor := i_minor x, i_nlink := i_nlink x, i_size := i_size x, i_addrs := i_addrs x\<rparr>"
proof -
  let ?d = "put_dinode d p x"
  have b: "unat p < 509" "unat (p + 2) < 509" "unat (p + 4) < 509" "unat (p + 6) < 509" "unat (p + 8) < 509"
    using assms(2) by (simp_all add: field_off)
  note at = put_dinode_eq put_addrs_at [OF assms(2)] store32_at [OF b(5)] store16_at [OF b(1)] store16_at [OF b(2)] store16_at [OF b(3)]
    store16_at [OF b(4)] field_off [OF assms(2)]
  have h: "load16 ?d p = i_type x" "load16 ?d (p + 2) = i_major x" "load16 ?d (p + 4) = i_minor x" "load16 ?d (p + 6) = i_nlink x"
    by (rule load16_bytes; simp add: at)+
  have z: "load32 ?d (p + 8) = i_size x" by (rule load32_bytes; simp add: at)
  have "load32 ?d (p + 12 + 4 * of_nat k) = i_addrs x ! k" if k: "k < 13" for k
  proof -
    define q where "q = p + 12 + 4 * of_nat k"
    have q: "unat q = unat p + 12 + 4 * k" unfolding q_def by (rule addr_off [OF assms(2) k])
    then have "unat q < 509" using assms(2) k by simp
    then have u: "unat (q + 1) = unat q + 1" "unat (q + 2) = unat q + 2" "unat (q + 3) = unat q + 3" by (simp_all add: unat_word_ariths)
    have m: "Suc (4 * k) div 4 = k" "Suc (Suc (4 * k)) div 4 = k" "Suc (Suc (4 * k)) mod 4 = 2" by presburger+
    have "4 * k + 3 < 52" using k by simp
    then have "load32 ?d q = i_addrs x ! k" by (intro load32_bytes) (simp_all add: put_dinode_eq put_addrs_at [OF assms(2)] u q m)
    then show ?thesis by (simp add: q_def)
  qed
  then have "map (\<lambda>k. load32 ?d (p + 12 + 4 * of_nat k)) [0..<13] = i_addrs x" using assms by (intro nth_equalityI) auto
  then show ?thesis using h z by (simp add: get_dinode_def NDIRECT_def)
qed


lemma put_dinode_wf:
  assumes "wf_block d" "unat p \<le> 448"
  shows "wf_block (put_dinode d p x)"
  unfolding wf_block_def
proof (intro allI impI)
  fix a assume "BSIZE \<le> a"
  then have "unat p + 64 \<le> unat a" using assms(2) by (simp add: BSIZE_def word_le_nat_alt)
  then show "put_dinode d p x a = 0" using put_dinode_other [OF assms(2)] assms(1) \<open>BSIZE \<le> a\<close> by (auto simp: wf_block_def)
qed

lemma dinode_off_bound: "unat (dinode_off i) = unat i mod 8 * 64" "unat (dinode_off i) \<le> 448"
proof -
  have "unat i mod 8 < 8" by simp
  then show "unat (dinode_off i) = unat i mod 8 * 64" by (simp add: dinode_off_def IPB_def unat_word_ariths unat_mod)
  then show "unat (dinode_off i) \<le> 448" using \<open>unat i mod 8 < 8\<close> by simp
qed

text \<open>The inode \<open>inum\<close> as the disk will have it, read into a cache entry.\<close>

definition disk_inode :: "xk \<Rightarrow> u32 \<Rightarrow> inode \<Rightarrow> inode" where
  "disk_inode s inum x = get_dinode (rview s (IBLOCK inum (sb s))) (dinode_off inum) x"

lemma iupdate_spec:
  assumes t: "tx s H (Suc k)" and g: "fs_geo s" and x: "i_dev (icache s ! ip) = ROOTDEV" "i_inum (icache s ! ip) < sb_ninodes (sb s)"
    and h: "card H \<le> 2" "IBLOCK (i_inum (icache s ! ip)) (sb s) \<notin> held_blocks s H"
  defines "b \<equiv> IBLOCK (i_inum (icache s ! ip)) (sb s)"
  shows "\<exists>s'. iupdate s ip = Some s' \<and> tx s' H k \<and> tx_frame H s s' \<and>
    rview s' = (rview s)(b := put_dinode (rview s b) (dinode_off (i_inum (icache s ! ip))) (icache s ! ip))"
proof -
  let ?x = "icache s ! ip"
  have "b \<in> inode_area s" using x(2) by (auto simp: b_def inode_area_def)
  then have d: "data_block s b" using g by (auto simp: fs_geo_def)
  define f where "f = (\<lambda>d. put_dinode d (dinode_off (i_inum ?x)) ?x)"
  have w: "wf_block (f (rview s b))" unfolding f_def by (rule put_dinode_wf [OF rview_wf [of s H] dinode_off_bound(2)]) (use t in \<open>simp add: tx_def\<close>)
  have h2: "b \<notin> held_blocks s H" using h(2) by (simp add: b_def)
  obtain i s1 s2 s3 where r: "bread s ROOTDEV b = Some (i, s1)" "b_data (bufs s1 ! i) = rview s b" "logst.more s1 = logst.more s"
    "log_write (upd_buf s1 i (\<lambda>v. v\<lparr>b_data := f (b_data v)\<rparr>)) i = Some s2" "brelse s2 i = Some s3" "tx s3 H k" "tx_frame H s s3"
    "rview s3 = (rview s)(b := f (rview s b))"
    using tx_update [where f = f, OF t h(1) held_blocksD [OF h2] d w] by blast
  have "iupdate s ip = Some s3" using r(1,4,5) x(1) by (simp add: iupdate_def f_def b_def)
  with r(6-8) show ?thesis by (simp add: f_def)
qed

text \<open>Two inodes share a block but not their bytes.\<close>

lemma disk_inode_other:
  assumes "unat i mod 8 \<noteq> unat j mod 8"
  shows "get_dinode (put_dinode d (dinode_off i) x) (dinode_off j) y = get_dinode d (dinode_off j) y"
proof -
  let ?p = "dinode_off i" and ?q = "dinode_off j"
  define u v where "u = unat i mod 8" and "v = unat j mod 8"
  have b: "unat ?p = u * 64" "unat ?q = v * 64" "unat ?p \<le> 448" "unat ?q \<le> 448" "u \<noteq> v"
    using assms by (simp_all add: dinode_off_bound u_def v_def)
  have far: "put_dinode d ?p x a = d a" if "unat ?q \<le> unat a" "unat a < unat ?q + 64" for a
  proof (rule put_dinode_other [OF b(3)])
    consider "Suc u \<le> v" | "Suc v \<le> u" using b(5) by linarith
    then show "unat a < unat ?p \<or> unat ?p + 64 \<le> unat a" using that unfolding b(1,2) by cases linarith+
  qed
  have o: "unat (?q + of_nat c) = unat ?q + c" if "c < 64" for c using b(4) that by (simp add: unat_word_ariths off_of_nat)
  have e: "put_dinode d ?p x (?q + of_nat c) = d (?q + of_nat c)" if "c < 64" for c by (rule far) (use o [OF that] that in auto)
  have l16: "load16 (put_dinode d ?p x) (?q + of_nat c) = load16 d (?q + of_nat c)" if "c < 62" for c
    using e [of c] e [of "c + 1"] that by (simp add: load16_def ac_simps)
  have l32: "load32 (put_dinode d ?p x) (?q + of_nat c) = load32 d (?q + of_nat c)" if "c < 61" for c
    using e [of c] e [of "c + 1"] e [of "c + 2"] e [of "c + 3"] that by (simp add: load32_def ac_simps)
  have "load32 (put_dinode d ?p x) (?q + 12 + 4 * of_nat k) = load32 d (?q + 12 + 4 * of_nat k)" if "k < 13" for k
    using l32 [of "12 + 4 * k"] that by (simp add: add.assoc)
  then show ?thesis using l16 [of 0] l16 [of 2] l16 [of 4] l16 [of 6] l32 [of 8] by (simp add: get_dinode_def NDIRECT_def)
qed

end
