(* ===== verification/X6Fs.thy ===== *)
theory X6Fs
  imports X6Inode
begin

text \<open>
  What the block and inode layers of fs.c promise: the allocator of disk blocks, the cache of inodes with its reference
  counts, the write-through of inodes, and the block list of a file.
\<close>

subsection \<open>A made file system\<close>

text \<open>
  The layout that mkfs.c computes for 1000 blocks, 200 inodes and a log of 30 blocks: inodes from block 32 on, the bitmap in block 58,
  blocks below 59 in use. The root directory is inode 1 with its data in block 59.
\<close>

definition image_sb :: superblock where
  "image_sb = \<lparr>sb_size = 1000, sb_nblocks = 941, sb_ninodes = 200, sb_nlog = 30, sb_logstart = 2, sb_inodestart = 32, sb_bmapstart = 58\<rparr>"

definition image_root :: inode where
  "image_root = \<lparr>i_dev = ROOTDEV, i_inum = 1, i_ref = 0, i_lock = initsleeplock, i_valid = False, i_type = T_DIR, i_major = 0, i_minor = 0, i_nlink = 1,
     i_size = 512, i_addrs = 59 # replicate 12 0\<rparr>"

definition fs_image :: "u32 \<Rightarrow> bytes" where
  "fs_image b =
     (if b = 1 then store32 (store32 (store32 (store32 (store32 (store32 (store32 (\<lambda>_. 0) 0 1000) 4 941) 8 200) 12 30) 16 2) 20 32) 24 58
      else if b = 32 then put_dinode (\<lambda>_. 0) 64 image_root
      else if b = 58 then (\<lambda>a. if a < 7 then 255 else if a = 7 then 15 else 0)
      else (\<lambda>_. 0))"

definition no_inode :: inode where
  "no_inode = \<lparr>i_dev = 0, i_inum = 0, i_ref = 0, i_lock = initsleeplock, i_valid = False, i_type = 0, i_major = 0, i_minor = 0, i_nlink = 0,
     i_size = 0, i_addrs = replicate 13 0\<rparr>"

definition no_proc :: proc where
  "no_proc = \<lparr>p_sz = 0, p_pgdir = 0, p_kstack = 0, p_state = UNUSED, p_pid = 0, p_parent = None, p_tf = 0, p_context = 0, p_resume = AtForkret,
     p_chan = None, p_killed = False, p_ofile = replicate NOFILE None, p_cwd = None, p_name = (\<lambda>_. 0), p_ctime = 0, p_rutime = 0, p_retime = 0,
     p_sltime = 0, p_priority = 0\<rparr>"

definition no_file :: xfile where
  "no_file = \<lparr>f_type = FD_NONE, f_ref = 0, f_readable = False, f_writable = False, f_pipe = 0, f_ip = None, f_off = 0\<rparr>"

definition no_pipe :: pipe where
  "no_pipe = \<lparr>p_data = replicate PIPESIZE 0, nread = 0, nwrite = 0, readopen = False, writeopen = False\<rparr>"

text \<open>A kernel at rest with that file system on its disk and one operation begun.\<close>

definition at_rest :: xk where
  "at_rest = boot_cache \<lparr>bufs = [], mru = [], disk = (\<lambda>x. fs_image (snd x)), dwrites = [], havedisk1 = True, io_error = (\<lambda>_. False), mypid = 1,
     l_start = 2, l_size = 30, outstanding = 1, committing = False, l_dev = ROOTDEV, lh_n = 0, lh_block = replicate 30 0,
     ptable = replicate NPROC no_proc, cpu_proc = None, cr3 = 0, kpgdir = 0, esp0 = 0, ncli = 0, intena = False, iflag = True, locks = {},
     initproc = None, nextpid = 1, ticks = 0, first = True, mem = small_mem, forkret_addr = 0x80103500, trapret_addr = 0x80105500,
     sb = image_sb, icache = replicate NINODE no_inode, ftable = replicate NFILE no_file, pipes = (\<lambda>_. no_pipe),
     devsw = (replicate NDEV None)[CONSOLE := Some ConsoleDev],
     inp = \<lparr>in_buf = replicate INPUT_BUF 0, in_r = 0, in_w = 0, in_e = 0\<rparr>, uart = True, cons_out = [], crt = (\<lambda>_. 0), crt_pos = 0\<rparr>"

lemma image_wf: "wf_block (fs_image b)"
proof -
  have "wf_block (put_dinode (\<lambda>_. 0) 64 image_root)" by (rule put_dinode_wf) (simp_all add: zero_wf)
  moreover have "wf_block (\<lambda>a. if a < 7 then 255 else if a = 7 then 15 else 0 :: u8)"
    by (auto simp: wf_block_def BSIZE_def word_less_nat_alt word_le_nat_alt)
  ultimately show ?thesis by (auto simp: fs_image_def intro!: store32_wf zero_wf)
qed

lemma at_rest_eq:
  "rview at_rest = fs_image" "cst at_rest {}" "rdirty at_rest = {}" "sb at_rest = image_sb" "icache at_rest = replicate NINODE no_inode"
  "l_start at_rest = 2" "l_size at_rest = 30" "outstanding at_rest = 1" "lh_n at_rest = 0" "lh_block at_rest = replicate 30 0"
  "l_dev at_rest = ROOTDEV" "mypid at_rest = 1" "ptable at_rest = replicate NPROC no_proc" "mem at_rest = small_mem"
proof -
  define z where "z = at_rest\<lparr>bufs := [], mru := []\<rparr>"
  have z: "at_rest = boot_cache z" by (simp add: z_def at_rest_def boot_cache_eq)
  have d: "disk_ready z" "disk z = (\<lambda>x. fs_image (snd x))" by (simp_all add: z_def at_rest_def boot_cache_eq disk_ready_def)
  note b = boot_cache_ok [of z, OF d(1), folded z]
  show "rview at_rest = fs_image" "cst at_rest {}" "rdirty at_rest = {}" using b d(2) by (auto simp: image_wf rdisk_def fun_eq_iff)
qed (simp_all add: at_rest_def boot_cache_eq)

lemma image_sb_of: "superblock_of (fs_image 1) = image_sb"
  by (simp add: superblock_of_def fs_image_def image_sb_def load_store32_same load_store32_other)

lemma image_bit: "b < 1000 \<Longrightarrow> bit_used (fs_image 58) b \<longleftrightarrow> b < 60"
proof -
  assume b: "b < 1000"
  have u: "unat (of_nat (b div 8) :: u32) = b div 8" using b by (intro off_of_nat) simp
  have m: "(255 :: u8) = mask 8" "(15 :: u8) = mask 4" by (simp_all add: mask_eq_decr_exp)
  have e: "b = 8 * (b div 8) + b mod 8" by simp
  have l: "of_nat (b div 8) < (7 :: u32) \<longleftrightarrow> b div 8 < 7" "of_nat (b div 8) = (7 :: u32) \<longleftrightarrow> b div 8 = 7"
    by (simp_all add: word_less_nat_alt word_unat_eq_iff u)
  have v: "fs_image 58 (of_nat (b div 8)) = (if b div 8 < 7 then mask 8 else if b div 8 = 7 then mask 4 else 0)"
    by (simp add: fs_image_def l m)
  consider "b div 8 < 7" | "b div 8 = 7" | "7 < b div 8" by linarith
  then show ?thesis
  proof cases
    case 1
    then show ?thesis by (auto simp: bit_used_iff v bit_mask_iff)
  next
    case 2
    then have "b < 60 \<longleftrightarrow> b mod 8 < 4" using e by linarith
    with 2 show ?thesis unfolding bit_used_iff v by (simp add: bit_mask_iff)
  next
    case 3
    then show ?thesis by (auto simp: bit_used_iff v)
  qed
qed


lemma at_rest_tx: "k \<le> 27 \<Longrightarrow> tx at_rest {} k"
  by (simp add: tx_def at_rest_eq log_geo_def homes_ok_def logged_def LOGSIZE_30)

lemma at_rest_data: "data_block at_rest b \<longleftrightarrow> unat b < 1000 \<and> b \<noteq> 1 \<and> (unat b < 2 \<or> 32 \<le> unat b)"
  by (auto simp: data_block_def log_area_def at_rest_eq FSSIZE_def word_less_nat_alt)

lemma at_rest_inodes: "b \<in> inode_area at_rest \<Longrightarrow> 32 \<le> unat b \<and> unat b < 58"
proof -
  assume "b \<in> inode_area at_rest"
  then obtain i where i: "b = i div 8 + 32" "unat i < 200" by (auto simp: inode_area_def at_rest_eq image_sb_def IBLOCK_def IPB_def word_less_nat_alt)
  have "unat b = unat i div 8 + 32" using i by (simp add: unat_word_ariths unat_div)
  with i(2) show ?thesis by auto
qed

lemma at_rest_geo: "fs_geo at_rest"
proof -
  have s: "sb_size (sb at_rest) = 1000" "bm_block at_rest = 58" by (simp_all add: at_rest_eq image_sb_def bm_block_def)
  have u: "blk_used at_rest b \<longleftrightarrow> b < 60" if "b < 1000" for b using image_bit [OF that] by (simp add: blk_used_def s at_rest_eq)
  have "data_block at_rest b \<and> b \<noteq> 58" if "b \<in> inode_area at_rest" for b using at_rest_inodes [OF that] by (auto simp: at_rest_data)
  moreover have "data_block at_rest (of_nat b) \<and> of_nat b \<noteq> (58 :: u32) \<and> of_nat b \<notin> inode_area at_rest" if "b < 1000" "\<not> blk_used at_rest b" for b
  proof -
    have b: "60 \<le> b" "unat (of_nat b :: u32) = b" using that u by (auto intro: off_of_nat)
    then have "of_nat b \<notin> inode_area at_rest" using at_rest_inodes [of "of_nat b"] by auto
    then show ?thesis using b that(1) by (auto simp: at_rest_data word_unat_eq_iff)
  qed
  moreover have "superblock_of (rview at_rest 1) = sb at_rest" by (simp add: at_rest_eq image_sb_of)
  moreover have "data_block at_rest 58" by (simp add: at_rest_data)
  ultimately show ?thesis by (simp add: fs_geo_def s)
qed

subsection \<open>Disk blocks\<close>

lemma fs_geo_view:
  assumes g: "fs_geo s" and f: "tx_frame K s s'" and n: "rview s' 1 = rview s 1"
    and u: "\<And>b. b < unat (sb_size (sb s)) \<Longrightarrow> \<not> blk_used s' b \<Longrightarrow>
      \<not> blk_used s b \<or> data_block s (of_nat b) \<and> of_nat b \<noteq> bm_block s \<and> of_nat b \<notin> inode_area s"
  shows "fs_geo s'"
proof -
  have e: "sb s' = sb s" "data_block s' = data_block s" "bm_block s' = bm_block s" "inode_area s' = inode_area s"
    using tx_frame_xk(3) [OF f] tx_frame_data [OF f] by (simp_all add: bm_block_def inode_area_def)
  show ?thesis using g n u unfolding fs_geo_def e by auto
qed

text \<open>C12. \<open>balloc\<close> finds the first block that the bitmap marks free, marks that block and no other, and hands it out zeroed; every other block
  keeps its contents and the disk layout stays valid. When no block is free it panics.\<close>

theorem balloc_correct:
  assumes t: "tx s H (k + 2)" and g: "fs_geo s" and h: "card H \<le> 2" "bm_block s \<notin> held_blocks s H"
    and f: "\<And>b. b < unat (sb_size (sb s)) \<Longrightarrow> \<not> blk_used s b \<Longrightarrow> of_nat b \<notin> held_blocks s H"
  shows "if \<forall>b < unat (sb_size (sb s)). blk_used s b then balloc s ROOTDEV = None
    else \<exists>b s'. balloc s ROOTDEV = Some (of_nat b, s') \<and> b < unat (sb_size (sb s)) \<and> \<not> blk_used s b \<and> (\<forall>c < b. blk_used s c) \<and>
      (\<forall>c < 4096. blk_used s' c \<longleftrightarrow> c = b \<or> blk_used s c) \<and> rview s' (of_nat b) = (\<lambda>_. 0) \<and>
      (\<forall>c. c \<noteq> of_nat b \<longrightarrow> c \<noteq> bm_block s \<longrightarrow> rview s' c = rview s c) \<and> tx s' H k \<and> tx_frame H s s' \<and> fs_geo s'"
proof (cases "find (\<lambda>b. \<not> blk_used s b) [0..<unat (sb_size (sb s))]")
  case None
  then have "balloc s ROOTDEV = None" using balloc_spec [OF t g h f] by simp
  then show ?thesis using None by (auto simp: find_None_iff)
next
  case (Some b)
  then have b: "b < unat (sb_size (sb s))" "\<not> blk_used s b" "\<forall>c < b. blk_used s c" by (auto simp: find_upt_Some)
  have b4: "b < 4096" using b(1) g by (auto simp: fs_geo_def)
  have db: "data_block s (of_nat b)" "of_nat b \<noteq> bm_block s" "data_block s (bm_block s)" using g b by (auto simp: fs_geo_def)
  obtain s' where s': "balloc s ROOTDEV = Some (of_nat b, s')" "tx s' H k" "tx_frame H s s'"
    "rview s' = (rview s)(bm_block s := bit_mark (rview s (bm_block s)) b, of_nat b := (\<lambda>_. 0))"
    using balloc_spec [OF t g h f] Some by auto
  have bm: "bm_block s' = bm_block s" using tx_frame_xk(3) [OF s'(3)] by (simp add: bm_block_def)
  have u: "blk_used s' c \<longleftrightarrow> c = b \<or> blk_used s c" if "c < 4096" for c
    using bit_used_mark [OF b4 that] db(2) by (simp add: blk_used_def bm s'(4))
  have "rview s' 1 = rview s 1" using db by (auto simp: s'(4) data_block_def)
  moreover have "\<not> blk_used s c" if "c < unat (sb_size (sb s))" "\<not> blk_used s' c" for c using that u [of c] g by (auto simp: fs_geo_def)
  ultimately have "fs_geo s'" by (intro fs_geo_view [OF g s'(3)]) auto
  then show ?thesis using s' b u db(2) by auto
qed

lemma balloc_correct_witness: "\<exists>b s'. balloc at_rest ROOTDEV = Some (of_nat b, s') \<and> b < 1000 \<and> \<not> blk_used at_rest b"
proof -
  have "held_blocks at_rest {} = {}" by (simp add: held_blocks_def)
  moreover have "\<not> blk_used at_rest 60" using image_bit [of 60] by (simp add: blk_used_def at_rest_eq bm_block_def image_sb_def)
  moreover have "unat (sb_size (sb at_rest)) = 1000" by (simp add: at_rest_eq image_sb_def)
  ultimately show ?thesis using balloc_correct [OF at_rest_tx at_rest_geo, of 1] by (auto split: if_splits)
qed


text \<open>C25. Giving a block back: after \<open>balloc\<close> returned a block, \<open>bfree\<close> of it succeeds and leaves the bitmap as it was before; freeing it a second
  time panics.\<close>

theorem balloc_bfree:
  assumes t: "tx s {} (k + 4)" and g: "fs_geo s" and a: "balloc s ROOTDEV = Some (b, s1)"
  shows "\<exists>s2. bfree s1 ROOTDEV b = Some s2 \<and> rview s2 (bm_block s) = rview s (bm_block s) \<and> fs_geo s2 \<and> tx s2 {} k \<and> bfree s2 ROOTDEV b = None"
proof -
  have hb: "held_blocks s {} = {}" for s by (simp add: held_blocks_def)
  have t4: "tx s {} ((k + 2) + 2)" using t by (simp add: numeral_eq_Suc)
  obtain c where c: "find (\<lambda>b. \<not> blk_used s b) [0..<unat (sb_size (sb s))] = Some c"
    using balloc_spec [OF t4 g] a hb by (auto split: option.splits)
  then have fc: "\<not> blk_used s c" "c < unat (sb_size (sb s))" by (auto simp: find_upt_Some)
  have c4: "c < 4096" using fc g by (auto simp: fs_geo_def)
  have db: "data_block s (of_nat c)" "of_nat c \<noteq> bm_block s" "data_block s (bm_block s)" "of_nat c \<notin> inode_area s" using g fc by (auto simp: fs_geo_def)
  have s1: "b = of_nat c" "tx s1 {} (k + 2)" "tx_frame {} s s1"
    "rview s1 = (rview s)(bm_block s := bit_mark (rview s (bm_block s)) c, of_nat c := (\<lambda>_. 0))"
    using balloc_spec [OF t4 g] a hb c by auto
  have bm1: "bm_block s1 = bm_block s" "sb s1 = sb s" "data_block s1 = data_block s" using tx_frame_xk(3) [OF s1(3)] tx_frame_data [OF s1(3)] by (simp_all add: bm_block_def)
  have one: "rview s1 1 = rview s 1" using db by (auto simp: s1(4) data_block_def)
  have sb1: "superblock_of (rview s1 1) = sb s1" using g one bm1 by (simp add: fs_geo_def)
  have u1: "blk_used s1 c" using bit_used_mark [OF c4 c4] db(2) by (simp add: blk_used_def bm1 s1(4))
  have t1: "tx s1 {} (Suc (Suc k))" using s1(2) by simp
  have d1: "data_block s1 (bm_block s1)" using db(3) bm1 by simp
  have nh: "1 \<notin> held_blocks s1 {}" "bm_block s1 \<notin> held_blocks s1 {}" by (simp_all add: hb)
  obtain s2 where s2: "bfree s1 ROOTDEV (of_nat c) = Some s2" "tx s2 {} (Suc k)" "tx_frame {} s1 s2"
    "rview s2 = (rview s1)(bm_block s1 := bit_clear (rview s1 (bm_block s1)) c)"
    using bfree_spec [OF t1 d1 sb1 _ nh c4] u1 by auto
  have bm2: "bm_block s2 = bm_block s" "sb s2 = sb s" using tx_frame_xk(3) [OF s2(3)] bm1 by (simp_all add: bm_block_def)
  have v: "rview s2 (bm_block s) = rview s (bm_block s)"
    using bit_clear_mark [of "rview s (bm_block s)" c] fc(1) db(2) by (simp add: s2(4) s1(4) bm1 blk_used_def)
  have one2: "rview s2 1 = rview s 1" using db one by (auto simp: s2(4) bm1 data_block_def)
  have f: "tx_frame {} s s2" using s1(3) s2(3) tx_frame_trans by blast
  have u2: "blk_used s2 = blk_used s" by (rule ext) (simp add: blk_used_def bm2 v)
  have g2: "fs_geo s2" by (rule fs_geo_view [OF g f one2]) (simp add: u2)
  have "bfree s2 ROOTDEV (of_nat c) = None"
  proof -
    have "data_block s2 (bm_block s2)" "superblock_of (rview s2 1) = sb s2" using g2 by (simp_all add: fs_geo_def)
    then show ?thesis using bfree_spec [OF s2(2), of c] c4 fc(1) u2 by (simp add: hb)
  qed
  moreover have "tx s2 {} k" using s2(2) by (rule tx_less) simp
  ultimately show ?thesis using s2(1) s1(1) v g2 by blast
qed

lemma balloc_bfree_witness: "\<exists>b s1 s2. balloc at_rest ROOTDEV = Some (b, s1) \<and> bfree s1 ROOTDEV b = Some s2 \<and> bfree s2 ROOTDEV b = None"
proof -
  have "\<not> blk_used at_rest 60" using image_bit [of 60] by (simp add: blk_used_def at_rest_eq bm_block_def image_sb_def)
  moreover have "unat (sb_size (sb at_rest)) = 1000" by (simp add: at_rest_eq image_sb_def)
  ultimately have "find (\<lambda>b. \<not> blk_used at_rest b) [0..<unat (sb_size (sb at_rest))] \<noteq> None"
    by (auto simp: find_None_iff intro!: exI [of _ 60])
  moreover have "tx at_rest {} (4 + 2)" "tx at_rest {} (4 + 4)" by (simp_all add: at_rest_tx)
  moreover have "held_blocks at_rest {} = {}" by (simp add: held_blocks_def)
  ultimately obtain b s1 where "balloc at_rest ROOTDEV = Some (b, s1)"
    using balloc_spec [OF _ at_rest_geo, of "{}" 4] by (auto split: option.splits)
  with balloc_bfree [OF \<open>tx at_rest {} (4 + 4)\<close> at_rest_geo] show ?thesis by blast
qed

subsection \<open>The inode cache\<close>

text \<open>Entries in use are for different inodes; the other entries may be recycled.\<close>

definition icache_inv :: "xk \<Rightarrow> bool" where
  "icache_inv s \<longleftrightarrow> length (icache s) = NINODE \<and> (\<forall>i < NINODE. 0 \<le> i_ref (icache s ! i) \<and> length (i_addrs (icache s ! i)) = 13) \<and>
     (\<forall>i < NINODE. \<forall>j < NINODE. i_ref (icache s ! i) > 0 \<longrightarrow> i_ref (icache s ! j) > 0 \<longrightarrow>
        i_dev (icache s ! i) = i_dev (icache s ! j) \<longrightarrow> i_inum (icache s ! i) = i_inum (icache s ! j) \<longrightarrow> i = j)"

lemma upd_inode_nth: "i < length (icache s) \<Longrightarrow> icache (upd_inode s i f) ! j = (if j = i then f (icache s ! i) else icache s ! j)"
  by (simp add: upd_inode_def)

lemma icache_inv_upd:
  assumes "icache_inv s" "i < NINODE" "i_dev (f (icache s ! i)) = i_dev (icache s ! i)" "i_inum (f (icache s ! i)) = i_inum (icache s ! i)"
    "0 \<le> i_ref (f (icache s ! i))" "i_ref (f (icache s ! i)) > 0 \<longrightarrow> i_ref (icache s ! i) > 0" "length (i_addrs (f (icache s ! i))) = 13"
  shows "icache_inv (upd_inode s i f)"
  using assms unfolding icache_inv_def by (auto simp: upd_inode_nth) (auto simp: upd_inode_def)

text \<open>C19. \<open>iget\<close> returns the one cache entry for an inode. If the inode is cached its reference count grows by one and nothing else changes;
  otherwise a free entry is taken over with one reference and marked as not yet read. It panics exactly when the inode is not cached and all entries are in use.\<close>

theorem iget_correct:
  assumes inv: "icache_inv s"
  shows "case iget s dev inum of
     None \<Rightarrow> \<forall>i < NINODE. i_ref (icache s ! i) > 0 \<and> (i_dev (icache s ! i), i_inum (icache s ! i)) \<noteq> (dev, inum)
   | Some (i, s') \<Rightarrow> i < NINODE \<and> icache_inv s' \<and> s' = s\<lparr>icache := icache s'\<rparr> \<and> (\<forall>j. j \<noteq> i \<longrightarrow> icache s' ! j = icache s ! j) \<and>
       i_dev (icache s' ! i) = dev \<and> i_inum (icache s' ! i) = inum \<and> i_ref (icache s' ! i) = i_ref (icache s ! i) + 1 \<and>
       (if i_ref (icache s ! i) > 0 then icache s' ! i = (icache s ! i)\<lparr>i_ref := i_ref (icache s ! i) + 1\<rparr> else \<not> i_valid (icache s' ! i))"
proof -
  let ?hit = "\<lambda>i. i_ref (icache s ! i) > 0 \<and> i_dev (icache s ! i) = dev \<and> i_inum (icache s ! i) = inum"
  have l: "length (icache s) = NINODE" using inv by (simp add: icache_inv_def)
  show ?thesis
  proof (cases "find ?hit [0..<NINODE]")
    case (Some i)
    then have i: "i < NINODE" "?hit i" by (auto simp: find_Some_iff)
    then have "icache_inv (upd_inode s i (\<lambda>x. x\<lparr>i_ref := i_ref x + 1\<rparr>))" using inv by (intro icache_inv_upd) (auto simp: icache_inv_def)
    with Some i l show ?thesis by (simp add: iget_def upd_inode_nth) (simp add: upd_inode_def)
  next
    case miss: None
    then have m: "\<not> ?hit i" if "i < NINODE" for i using that by (auto simp: find_None_iff)
    show ?thesis
    proof (cases "find (\<lambda>i. i_ref (icache s ! i) = 0) [0..<NINODE]")
      case None
      then have "i_ref (icache s ! i) \<noteq> 0" if "i < NINODE" for i using that by (auto simp: find_None_iff)
      then have "i_ref (icache s ! i) > 0" if "i < NINODE" for i using that inv by (fastforce simp: icache_inv_def)
      with miss None m show ?thesis by (auto simp: iget_def)
    next
      case (Some i)
      then have i: "i < NINODE" "i_ref (icache s ! i) = 0" by (auto simp: find_Some_iff)
      let ?s = "upd_inode s i (\<lambda>x. x\<lparr>i_dev := dev, i_inum := inum, i_ref := 1, i_valid := False\<rparr>)"
      have n: "icache ?s ! j = (if j = i then (icache s ! i)\<lparr>i_dev := dev, i_inum := inum, i_ref := 1, i_valid := False\<rparr> else icache s ! j)" for j
        using i l by (simp add: upd_inode_nth)
      have "length (icache ?s) = NINODE" using l by (simp add: upd_inode_def)
      then have "icache_inv ?s" using inv m unfolding icache_inv_def n by auto
      with miss Some i n show ?thesis by (simp add: iget_def) (simp add: upd_inode_def)
    qed
  qed
qed

lemma iget_correct_witness: "\<exists>i s'. iget at_rest ROOTDEV 1 = Some (i, s') \<and> i_ref (icache s' ! i) = 1"
proof -
  have inv: "icache_inv at_rest" by (simp add: icache_inv_def at_rest_eq no_inode_def)
  have "i_ref (icache at_rest ! i) = 0" if "i < NINODE" for i using that by (simp add: at_rest_eq no_inode_def)
  moreover have "0 < NINODE" by (simp add: NINODE_def)
  ultimately show ?thesis using iget_correct [OF inv, of ROOTDEV 1] by (fastforce split: option.splits prod.splits)
qed


lemma at_rest_icache: "icache_inv at_rest"
  by (simp add: icache_inv_def at_rest_eq no_inode_def)

subsection \<open>Updates above the log\<close>

lemma tx_above:
  fixes s s' :: xk
  assumes "logst.truncate s' = logst.truncate s"
  shows "rview s' = rview s" "tx s' H k = tx s H k" "held_blocks s' H = held_blocks s H" "data_block s' = data_block s" "mypid s' = mypid s"
    "l_dev s' = l_dev s" "disk s' = disk s" "bufs s' = bufs s" "log_same s s'" "dwrites s' = dwrites s"
proof -
  have e: "bufs s' = bufs s" "mru s' = mru s" "disk s' = disk s" "disk_ready s' = disk_ready s" "mypid s' = mypid s" "l_start s' = l_start s" "l_size s' = l_size s"
    "outstanding s' = outstanding s" "committing s' = committing s" "l_dev s' = l_dev s" "lh_n s' = lh_n s" "lh_block s' = lh_block s" "dwrites s' = dwrites s"
    using assms by (simp_all add: logst.truncate_def disk_ready_def)
  show "rview s' = rview s" by (rule ext) (simp only: rview_def e)
  show "data_block s' = data_block s" by (rule ext) (simp add: data_block_def log_area_def e)
  show "tx s' H k = tx s H k"
    by (simp add: tx_def cst_def log_geo_def homes_ok_def rdirty_def pinned_def logged_def data_block_def log_area_def holds_block_def e)
  show "held_blocks s' H = held_blocks s H" by (simp add: held_blocks_def holds_block_def e)
  show "log_same s s'" by (simp add: log_same_def e)
qed (use assms in \<open>simp_all add: logst.truncate_def\<close>)

lemma upd_above [simp]:
  "logst.truncate (upd_inode s i f) = logst.truncate s" "logst.truncate (upd_proc s i g) = logst.truncate s"
  "logst.truncate (upd_file s i h) = logst.truncate s" "logst.truncate (upd_pipe s p q) = logst.truncate s"
  "logst.truncate (s\<lparr>sb := v\<rparr>) = logst.truncate s" "logst.truncate (s\<lparr>icache := ic\<rparr>) = logst.truncate s" "logst.truncate (s\<lparr>mem := m\<rparr>) = logst.truncate s"
  by (simp_all add: logst.truncate_def upd_inode_def upd_proc_def upd_file_def upd_pipe_def)

lemma upd_inode_simps [simp]: "sb (upd_inode s i f) = sb s" "icache (upd_inode s i f) = (icache s)[i := f (icache s ! i)]" "mypid (upd_inode s i f) = mypid s"
  "bm_block (upd_inode s i f) = bm_block s" "inode_area (upd_inode s i f) = inode_area s"
  by (simp_all add: upd_inode_def bm_block_def inode_area_def)

lemmas tx_upd_inode = tx_above [OF upd_above(1)]

lemma brelse_upd_inode: "brelse (upd_inode s ip f) i = map_option (\<lambda>s. upd_inode s ip f) (brelse s i)"
  by (simp add: brelse_def upd_buf_def upd_inode_def Let_def)

lemma fs_geo_upd_inode: "fs_geo (upd_inode s i f) = fs_geo s"
  by (simp add: fs_geo_def blk_used_def tx_upd_inode)

subsection \<open>Inodes are written through\<close>

lemma get_dinode_lock: "get_dinode d p (x\<lparr>i_lock := l\<rparr>) = (get_dinode d p x)\<lparr>i_lock := l\<rparr>"
  by (cases x) (simp add: get_dinode_def)

lemma ilock_read:
  assumes t: "tx s H k" and g: "fs_geo s" and h: "card H \<le> 2" "IBLOCK (i_inum (icache s ! ip)) (sb s) \<notin> held_blocks s H"
    and x: "ip < length (icache s)" "i_dev (icache s ! ip) = ROOTDEV" "i_inum (icache s ! ip) < sb_ninodes (sb s)" "1 \<le> i_ref (icache s ! ip)"
      "\<not> sl_locked (i_lock (icache s ! ip))" "\<not> i_valid (icache s ! ip)"
  defines "y \<equiv> disk_inode s (i_inum (icache s ! ip)) (icache s ! ip)"
  shows "if i_type y = 0 then ilock s ip = None
    else \<exists>s'. ilock s ip = Some s' \<and> icache s' = (icache s)[ip := y\<lparr>i_lock := \<lparr>sl_locked = True, sl_pid = mypid s\<rparr>, i_valid := True\<rparr>] \<and>
      tx s' H k \<and> rview s' = rview s"
proof -
  let ?x = "icache s ! ip" and ?lk = "\<lparr>sl_locked = True, sl_pid = mypid s\<rparr>"
  let ?b = "IBLOCK (i_inum ?x) (sb s)"
  define s1 where "s1 = upd_inode s ip (\<lambda>x. x\<lparr>i_lock := ?lk\<rparr>)"
  have t1: "tx s1 H k" "?b \<notin> held_blocks s1 H" "rview s1 = rview s" "icache s1 ! ip = ?x\<lparr>i_lock := ?lk\<rparr>" "sb s1 = sb s"
    using t h x(1) by (simp_all add: s1_def tx_upd_inode)
  have "?b \<in> inode_area s" using x(3) by (auto simp: inode_area_def)
  then have b: "?b < FSSIZE" using g by (auto simp: fs_geo_def data_block_def)
  obtain i s2 s3 where r: "bread s1 ROOTDEV ?b = Some (i, s2)" "b_data (bufs s2 ! i) = rview s1 ?b" "logst.more s2 = logst.more s1" "brelse s2 i = Some s3"
    "tx s3 H k" "tx_frame H s1 s3" "rview s3 = rview s1"
    using tx_read [OF t1(1) h(1) held_blocksD [OF t1(2)] b] by blast
  have ic: "icache s2 = icache s1" "icache s3 = icache s1" "sb s2 = sb s" using xk_more(4,3) [OF r(3)] tx_frame_xk(4) [OF r(6)] t1(5) by simp_all
  let ?d = "rview s ?b"
  have il: "ilock s ip = do {
      s \<leftarrow> Some (upd_inode (upd_inode s3 ip (get_dinode ?d (dinode_off (i_inum ?x)))) ip (\<lambda>x. x\<lparr>i_valid := True\<rparr>));
      if i_type (icache s ! ip) = 0 then None else Some s }"
    using x r(1,2,4) t1 ic by (simp add: ilock_def acquiresleep_def s1_def [symmetric] brelse_upd_inode)
  have y: "icache (upd_inode (upd_inode s3 ip (get_dinode ?d (dinode_off (i_inum ?x)))) ip (\<lambda>x. x\<lparr>i_valid := True\<rparr>)) =
      (icache s)[ip := y\<lparr>i_lock := ?lk, i_valid := True\<rparr>]"
    using x(1) t1(4) by (simp add: ic s1_def y_def disk_inode_def get_dinode_lock)
  have ty: "i_type ((icache s)[ip := y\<lparr>i_lock := ?lk, i_valid := True\<rparr>] ! ip) = i_type y" using x(1) by simp
  show ?thesis using il y ty r(5,7) t1(3) by (auto simp: tx_upd_inode)
qed


lemma inode_block_cases:
  assumes "i \<noteq> j"
  shows "IBLOCK i sp \<noteq> IBLOCK j sp \<or> unat i mod 8 \<noteq> unat j mod 8"
proof (rule ccontr)
  assume "\<not> ?thesis"
  then have d: "i div 8 = j div 8" and m: "unat i mod 8 = unat j mod 8" by (auto simp: IBLOCK_def IPB_def)
  have "unat i div 8 = unat j div 8" using arg_cong [OF d, of unat] by (simp add: unat_div)
  note this m
  then have "unat i = unat j" by (metis div_mult_mod_eq)
  with assms show False by (simp add: word_unat_eq_iff)
qed

definition same_dinode :: "inode \<Rightarrow> inode \<Rightarrow> bool" where
  "same_dinode x y \<longleftrightarrow> i_type x = i_type y \<and> i_major x = i_major y \<and> i_minor x = i_minor y \<and> i_nlink x = i_nlink y \<and> i_size x = i_size y \<and>
     i_addrs x = i_addrs y"

text \<open>C16. Write-through of inodes: after \<open>iupdate\<close> the disk holds the inode as it is in the cache and every other inode as before. Whenever the entry
  is later recycled and the inode is read again by \<open>ilock\<close>, the same type, device numbers, link count, size and block addresses come back.\<close>

theorem iupdate_ilock:
  assumes t: "tx s {} (Suc k)" and g: "fs_geo s" and x: "i_dev (icache s ! ip) = ROOTDEV" "i_inum (icache s ! ip) < sb_ninodes (sb s)"
    "length (i_addrs (icache s ! ip)) = 13" "i_type (icache s ! ip) \<noteq> 0"
    and z: "i_dev z = ROOTDEV" "i_inum z = i_inum (icache s ! ip)" "1 \<le> i_ref z" "\<not> sl_locked (i_lock z)" "\<not> i_valid z" and j: "j < length (icache s)"
  shows "\<exists>s1 s2. iupdate s ip = Some s1 \<and> icache s1 = icache s \<and>
    (\<forall>inum y. inum \<noteq> i_inum (icache s ! ip) \<longrightarrow> disk_inode s1 inum y = disk_inode s inum y) \<and>
    ilock (upd_inode s1 j (\<lambda>_. z)) j = Some s2 \<and> same_dinode (icache s2 ! j) (icache s ! ip) \<and> i_valid (icache s2 ! j)"
proof -
  let ?x = "icache s ! ip"
  let ?b = "IBLOCK (i_inum ?x) (sb s)"
  have hb: "held_blocks s {} = {}" for s by (simp add: held_blocks_def)
  obtain s1 where s1: "iupdate s ip = Some s1" "tx s1 {} k" "tx_frame {} s s1"
    "rview s1 = (rview s)(?b := put_dinode (rview s ?b) (dinode_off (i_inum ?x)) ?x)"
    using iupdate_spec [OF t g x(1,2)] by (auto simp: hb)
  have e: "icache s1 = icache s" "sb s1 = sb s" using tx_frame_xk(3,4) [OF s1(3)] by simp_all
  have "?b \<in> inode_area s" using x(2) by (auto simp: inode_area_def)
  then have b: "data_block s ?b" "?b \<noteq> bm_block s" using g by (auto simp: fs_geo_def)
  have one: "rview s1 1 = rview s 1" "rview s1 (bm_block s) = rview s (bm_block s)" using b by (auto simp: s1(4) data_block_def)
  have bm: "bm_block s1 = bm_block s" using e by (simp add: bm_block_def)
  have g1: "fs_geo s1" by (rule fs_geo_view [OF g s1(3) one(1)]) (simp add: blk_used_def bm one(2))
  have other: "disk_inode s1 inum y = disk_inode s inum y" if "inum \<noteq> i_inum ?x" for inum y
    using inode_block_cases [OF that, of "sb s"] disk_inode_other [of "i_inum ?x" inum] by (auto simp: disk_inode_def e s1(4))
  define u where "u = upd_inode s1 j (\<lambda>_. z)"
  have u: "icache u ! j = z" "tx u {} k" "fs_geo u" "sb u = sb s" "j < length (icache u)" "rview u = rview s1"
    using s1(2) g1 j e by (simp_all add: u_def tx_upd_inode fs_geo_upd_inode)
  have dy: "disk_inode u (i_inum z) z = z\<lparr>i_type := i_type ?x, i_major := i_major ?x, i_minor := i_minor ?x, i_nlink := i_nlink ?x, i_size := i_size ?x,
      i_addrs := i_addrs ?x\<rparr>"
    using get_put_dinode [OF x(3) dinode_off_bound(2)] by (simp add: disk_inode_def u z s1(4))
  obtain s2 where "ilock u j = Some s2" "icache s2 = (icache u)[j := (disk_inode u (i_inum z) z)\<lparr>i_lock := \<lparr>sl_locked = True, sl_pid = mypid u\<rparr>, i_valid := True\<rparr>]"
    using ilock_read [OF u(2,3), of j] u z x dy by (auto simp: hb)
  moreover from this have "same_dinode (icache s2 ! j) ?x \<and> i_valid (icache s2 ! j)" using u(5) by (simp add: dy same_dinode_def)
  ultimately show ?thesis using s1(1) e other unfolding u_def by blast
qed

lemma iupdate_ilock_witness:
  "\<exists>s1 s2. iupdate (at_rest\<lparr>icache := [image_root]\<rparr>) 0 = Some s1 \<and> ilock (upd_inode s1 0 (\<lambda>_. image_root\<lparr>i_ref := 1\<rparr>)) 0 = Some s2 \<and>
     same_dinode (icache s2 ! 0) image_root"
proof -
  let ?s = "at_rest\<lparr>icache := [image_root]\<rparr>"
  have t: "tx ?s {} (Suc 1)" using at_rest_tx [of 2] by (simp add: tx_above [OF upd_above(6)] numeral_eq_Suc)
  have g: "fs_geo ?s" using at_rest_geo by (simp add: fs_geo_def blk_used_def bm_block_def inode_area_def tx_above [OF upd_above(6)])
  show ?thesis using iupdate_ilock [OF t g, of 0 "image_root\<lparr>i_ref := 1\<rparr>" 0]
    by (auto simp: image_root_def at_rest_eq image_sb_def T_DIR_def initsleeplock_def)
qed

end
