(* ===== verification/X6Sched.thy ===== *)
theory X6Sched
  imports X6Fs
begin

text \<open>
  The process table of xv6 and its scheduler (proc.c): allocation of a slot, sleeping and waking, the switch between a
  process and the scheduler. A call of \<open>sched\<close> leaves the kernel thread of the caller and goes on in the scheduler; a
  round of the scheduler goes on in the thread it chose, at the place its \<open>resume\<close> field names. One CPU runs.
\<close>

subsection \<open>The code\<close>

definition switchuvm :: "xk \<Rightarrow> nat \<Rightarrow> xk option" where
  "switchuvm s p =
     (if p_kstack (ptable s ! p) = 0 then None
      else if p_pgdir (ptable s ! p) = 0 then None
      else do {
        let s = pushcli s;
        let s = s\<lparr>esp0 := p_kstack (ptable s ! p) + KSTACKSIZE\<rparr>;
        let s = s\<lparr>cr3 := V2P (p_pgdir (ptable s ! p))\<rparr>;
        popcli s
      })"

definition switchkvm :: "xk \<Rightarrow> xk" where
  "switchkvm s = s\<lparr>cr3 := V2P (kpgdir s)\<rparr>"

definition poke :: "xk \<Rightarrow> (bytes \<Rightarrow> bytes) \<Rightarrow> xk" where
  "poke s f = s\<lparr>mem := (mem s)\<lparr>pm := f (pm (mem s))\<rparr>\<rparr>"

text \<open>A \<open>trapframe\<close> has 76 bytes, a \<open>context\<close> 20 with \<open>eip\<close> last.\<close>

definition alloc_kstack :: "xk \<Rightarrow> nat \<Rightarrow> nat option \<times> xk" where
  "alloc_kstack s p =
     (let (k, m) = kalloc (mem s);
          s = upd_proc (s\<lparr>mem := m\<rparr>) p (\<lambda>q. q\<lparr>p_kstack := k\<rparr>)
      in if k = 0 then (None, upd_proc s p (\<lambda>q. q\<lparr>p_state := UNUSED\<rparr>))
         else
           let sp = k + KSTACKSIZE - 76;
               s = upd_proc s p (\<lambda>q. q\<lparr>p_tf := sp\<rparr>);
               sp = sp - 4;
               s = poke s (\<lambda>m. store32 m sp (trapret_addr s));
               sp = sp - 20;
               s = upd_proc s p (\<lambda>q. q\<lparr>p_context := sp\<rparr>);
               s = poke s (\<lambda>m. snd (x_memset m sp 0 20));
               s = poke s (\<lambda>m. store32 m (sp + 16) (forkret_addr s));
               s = upd_proc s p (\<lambda>q. q\<lparr>p_resume := AtForkret\<rparr>)
           in (Some p, upd_proc s p (\<lambda>q. q\<lparr>p_ctime := sint (ticks s), p_rutime := 0, p_retime := 0, p_sltime := 0, p_priority := 0\<rparr>)))"

definition allocproc :: "xk \<Rightarrow> (nat option \<times> xk) option" where
  "allocproc s = do {
     s \<leftarrow> acquire s PtableLock;
     case find (\<lambda>i. p_state (ptable s ! i) = UNUSED) [0..<NPROC] of
       None \<Rightarrow> do { s \<leftarrow> release s PtableLock; Some (None, s) }
     | Some p \<Rightarrow> do {
         let s = upd_proc s p (\<lambda>q. q\<lparr>p_state := EMBRYO, p_pid := nextpid s\<rparr>);
         let s = s\<lparr>nextpid := nextpid s + 1\<rparr>;
         s \<leftarrow> release s PtableLock;
         Some (alloc_kstack s p)
       }
   }"

definition wakeup1 :: "xk \<Rightarrow> chan option \<Rightarrow> xk" where
  "wakeup1 s ch = s\<lparr>ptable := map (\<lambda>p. if p_state p = SLEEPING \<and> p_chan p = ch then p\<lparr>p_state := RUNNABLE\<rparr> else p) (ptable s)\<rparr>"

definition wakeup :: "xk \<Rightarrow> chan \<Rightarrow> xk option" where
  "wakeup s ch = do {
     s \<leftarrow> acquire s PtableLock;
     release (wakeup1 s (Some ch)) PtableLock
   }"

text \<open>
  \<open>sched\<close> with the second half of the scheduler's loop, which it switches to: the thread's place and its \<open>intena\<close> are
  saved, then the scheduler goes back to the kernel page table, forgets the process and releases the table.
\<close>

definition scheduler_back :: "xk \<Rightarrow> xk option" where
  "scheduler_back s = release ((switchkvm s)\<lparr>cpu_proc := None\<rparr>) PtableLock"

definition sched :: "xk \<Rightarrow> (bool \<Rightarrow> resume) \<Rightarrow> xk option" where
  "sched s r =
     (case cpu_proc s of
        None \<Rightarrow> None
      | Some p \<Rightarrow> do {
          (h, s) \<leftarrow> holding s PtableLock;
          if \<not> h then None
          else if ncli s \<noteq> 1 then None
          else if p_state (ptable s ! p) = RUNNING then None
          else if iflag s then None
          else scheduler_back (upd_proc s p (\<lambda>q. q\<lparr>p_resume := r (intena s)\<rparr>))
        })"

definition yield :: "xk \<Rightarrow> xk option" where
  "yield s = do {
     s \<leftarrow> acquire s PtableLock;
     p \<leftarrow> cpu_proc s;
     sched (upd_proc s p (\<lambda>q. q\<lparr>p_state := RUNNABLE\<rparr>)) InSched
   }"

text \<open>
  \<open>sleep\<close> up to the switch, statement by statement, so that what an interrupt between two statements does can be
  stated; \<open>sleep\<close> itself runs them one after the other.
\<close>

definition sleep_steps :: "nat \<Rightarrow> chan \<Rightarrow> lock \<Rightarrow> (xk \<Rightarrow> xk option) list" where
  "sleep_steps p ch lk =
     (if lk \<noteq> PtableLock then [\<lambda>s. acquire s PtableLock, \<lambda>s. release s lk] else []) @
     [\<lambda>s. Some (upd_proc s p (\<lambda>q. q\<lparr>p_chan := Some ch\<rparr>)),
      \<lambda>s. Some (upd_proc s p (\<lambda>q. q\<lparr>p_state := SLEEPING\<rparr>)),
      \<lambda>s. sched s (\<lambda>b. InSleep b lk)]"

definition sleep :: "xk \<Rightarrow> chan \<Rightarrow> lock \<Rightarrow> xk option" where
  "sleep s ch lk = do {
     p \<leftarrow> cpu_proc s;
     fold_opt (\<lambda>f. f) (sleep_steps p ch lk) s
   }"

definition forkret :: "xk \<Rightarrow> xk option" where
  "forkret s = do {
     s \<leftarrow> release s PtableLock;
     if first s then do {
       s \<leftarrow> iinit (s\<lparr>first := False\<rparr>) ROOTDEV;
       initlog s ROOTDEV
     }
     else Some s
   }"

text \<open>The thread \<open>p\<close> goes on after the switch: the rest of \<open>sched\<close>, and of the function that called it.\<close>

definition resume_thread :: "xk \<Rightarrow> nat \<Rightarrow> xk option" where
  "resume_thread s p =
     (case p_resume (ptable s ! p) of
        AtForkret \<Rightarrow> forkret s
      | InSched b \<Rightarrow> release (s\<lparr>intena := b\<rparr>) PtableLock
      | InSleep b lk \<Rightarrow>
          (let s = upd_proc (s\<lparr>intena := b\<rparr>) p (\<lambda>q. q\<lparr>p_chan := None\<rparr>)
           in if lk \<noteq> PtableLock then do { s \<leftarrow> release s PtableLock; acquire s lk } else Some s)
      | InExit \<Rightarrow> None)"

definition pick_step :: "proc list \<Rightarrow> nat \<Rightarrow> nat option \<Rightarrow> nat option" where
  "pick_step ps p ch =
     (if p_state (ps ! p) \<noteq> RUNNABLE then ch
      else case ch of
        None \<Rightarrow> Some p
      | Some c \<Rightarrow>
          if p_priority (ps ! p) > p_priority (ps ! c) \<or>
             p_priority (ps ! p) = p_priority (ps ! c) \<and> p_ctime (ps ! p) < p_ctime (ps ! c)
          then Some p else Some c)"

definition pick_proc :: "proc list \<Rightarrow> nat option" where
  "pick_proc ps = fold (pick_step ps) [0..<NPROC] None"

text \<open>One round of the endless loop, up to the switch into the chosen process.\<close>

definition scheduler_round :: "xk \<Rightarrow> xk option" where
  "scheduler_round s = do {
     let s = s\<lparr>iflag := True\<rparr>;
     s \<leftarrow> acquire s PtableLock;
     case pick_proc (ptable s) of
       Some ch \<Rightarrow> do {
         let s = s\<lparr>cpu_proc := Some ch, mypid := p_pid (ptable s ! ch)\<rparr>;
         s \<leftarrow> switchuvm s ch;
         resume_thread (upd_proc s ch (\<lambda>q. q\<lparr>p_state := RUNNING\<rparr>)) ch
       }
     | None \<Rightarrow> release s PtableLock
   }"

definition kill :: "xk \<Rightarrow> int \<Rightarrow> (int \<times> xk) option" where
  "kill s pid = do {
     s \<leftarrow> acquire s PtableLock;
     case find (\<lambda>i. p_pid (ptable s ! i) = pid) [0..<NPROC] of
       Some p \<Rightarrow> do {
         let s = upd_proc s p (\<lambda>q. q\<lparr>p_killed := True\<rparr>);
         let s = (if p_state (ptable s ! p) = SLEEPING then upd_proc s p (\<lambda>q. q\<lparr>p_state := RUNNABLE\<rparr>) else s);
         s \<leftarrow> release s PtableLock;
         Some (0, s)
       }
     | None \<Rightarrow> do { s \<leftarrow> release s PtableLock; Some (- 1, s) }
   }"

text \<open>The increment of a 32-bit \<open>int\<close>, which wraps.\<close>

definition inc_int :: "int \<Rightarrow> int" where
  "inc_int x = sint (word_of_int (x + 1) :: u32)"

definition updatestatistics :: "xk \<Rightarrow> xk option" where
  "updatestatistics s = do {
     s \<leftarrow> acquire s PtableLock;
     let s = s\<lparr>ptable := map (\<lambda>p.
       let p = (if p_state p = RUNNING then p\<lparr>p_rutime := inc_int (p_rutime p)\<rparr> else p);
           p = (if p_state p = RUNNABLE then p\<lparr>p_retime := inc_int (p_retime p)\<rparr> else p)
       in if p_state p = SLEEPING then p\<lparr>p_sltime := inc_int (p_sltime p)\<rparr> else p) (ptable s)\<rparr>;
     release s PtableLock
   }"

text \<open>The timer interrupt, on the CPU that counts the ticks.\<close>

definition timer_intr :: "xk \<Rightarrow> xk option" where
  "timer_intr s = do {
     s \<leftarrow> acquire s TicksLock;
     let s = s\<lparr>ticks := ticks s + 1\<rparr>;
     s \<leftarrow> wakeup s ChTicks;
     s \<leftarrow> release s TicksLock;
     updatestatistics s
   }"

definition setpriority :: "xk \<Rightarrow> int \<Rightarrow> int \<Rightarrow> (int \<times> xk) option" where
  "setpriority s pid pr = do {
     s \<leftarrow> acquire s PtableLock;
     case find (\<lambda>i. p_pid (ptable s ! i) = pid) [0..<NPROC] of
       Some p \<Rightarrow> do {
         s \<leftarrow> release (upd_proc s p (\<lambda>q. q\<lparr>p_priority := word_of_int pr\<rparr>)) PtableLock;
         Some (0, s)
       }
     | None \<Rightarrow> do { s \<leftarrow> release s PtableLock; Some (- 1, s) }
   }"

definition growproc :: "xk \<Rightarrow> int \<Rightarrow> (int \<times> xk) option" where
  "growproc s n = do {
     p \<leftarrow> cpu_proc s;
     let q = ptable s ! p;
     let sz = p_sz q;
     (fail, sz, s) \<leftarrow>
       (if n > 0 then do {
          (r, m) \<leftarrow> allocuvm (mem s) (p_pgdir q) sz (sz + word_of_int n);
          Some (r = 0, r, s\<lparr>mem := m\<rparr>)
        }
        else if n < 0 then do {
          (r, m) \<leftarrow> deallocuvm (mem s) (p_pgdir q) sz (sz + word_of_int n);
          Some (r = 0, r, s\<lparr>mem := m\<rparr>)
        }
        else Some (False, sz, s));
     if fail then Some (- 1, s)
     else do {
       s \<leftarrow> switchuvm (upd_proc s p (\<lambda>q. q\<lparr>p_sz := sz\<rparr>)) p;
       Some (0, s)
     }
   }"


subsection \<open>The choice of the scheduler\<close>

text \<open>\<open>c\<close> is at least as good a choice as \<open>i\<close>: higher priority, or the same and created no later.\<close>

definition ahead :: "proc \<Rightarrow> proc \<Rightarrow> bool" where
  "ahead c i \<longleftrightarrow> p_priority i < p_priority c \<or> p_priority i = p_priority c \<and> p_ctime c \<le> p_ctime i"

lemma pick_loop:
  "case fold (pick_step ps) [0..<n] None of
     None \<Rightarrow> \<forall>i < n. p_state (ps ! i) \<noteq> RUNNABLE
   | Some c \<Rightarrow> c < n \<and> p_state (ps ! c) = RUNNABLE \<and> (\<forall>i < n. p_state (ps ! i) = RUNNABLE \<longrightarrow> ahead (ps ! c) (ps ! i)) \<and>
       (\<forall>i < c. p_state (ps ! i) = RUNNABLE \<longrightarrow> \<not> ahead (ps ! i) (ps ! c))"
proof (induction n)
  case (Suc n)
  then show ?case
  proof (cases "fold (pick_step ps) [0..<n] None")
    case None
    have "pick_step ps n None = (if p_state (ps ! n) = RUNNABLE then Some n else None)" by (simp add: pick_step_def)
    then show ?thesis using Suc None by (auto simp: ahead_def less_Suc_eq)
  next
    case (Some c)
    then have c: "c < n" "p_state (ps ! c) = RUNNABLE" "\<forall>i < n. p_state (ps ! i) = RUNNABLE \<longrightarrow> ahead (ps ! c) (ps ! i)"
      "\<forall>i < c. p_state (ps ! i) = RUNNABLE \<longrightarrow> \<not> ahead (ps ! i) (ps ! c)" using Suc by auto
    show ?thesis
    proof (cases "p_state (ps ! n) = RUNNABLE \<and> \<not> ahead (ps ! c) (ps ! n)")
      case True
      have "ahead (ps ! n) (ps ! i) \<and> \<not> ahead (ps ! i) (ps ! n)" if "i < n" "p_state (ps ! i) = RUNNABLE" for i
      proof -
        have "ahead (ps ! c) (ps ! i)" "\<not> ahead (ps ! c) (ps ! n)" using c(3) that True by simp_all
        then show ?thesis unfolding ahead_def by auto
      qed
      moreover have "pick_step ps n (Some c) = Some n" using True by (auto simp: pick_step_def ahead_def)
      ultimately show ?thesis using True Some by (auto simp: less_Suc_eq ahead_def)
    next
      case False
      then have "pick_step ps n (Some c) = Some c" by (auto simp: pick_step_def ahead_def)
      then show ?thesis using False Some c by (auto simp: less_Suc_eq)
    qed
  qed
qed simp

text \<open>C21. The scheduler takes a \<open>RUNNABLE\<close> process of the highest priority, among those one that was created earliest, and among those the one with the
  lowest slot; it finds none exactly when no process is \<open>RUNNABLE\<close>.\<close>

theorem pick_proc_correct:
  "case pick_proc ps of
     None \<Rightarrow> \<forall>i < NPROC. p_state (ps ! i) \<noteq> RUNNABLE
   | Some c \<Rightarrow> c < NPROC \<and> p_state (ps ! c) = RUNNABLE \<and> (\<forall>i < NPROC. p_state (ps ! i) = RUNNABLE \<longrightarrow> ahead (ps ! c) (ps ! i)) \<and>
       (\<forall>i < c. p_state (ps ! i) = RUNNABLE \<longrightarrow> \<not> ahead (ps ! i) (ps ! c))"
  unfolding pick_proc_def by (rule pick_loop)

theorem pick_proc_correct_witness:
  "pick_proc ((replicate NPROC no_proc)[3 := no_proc\<lparr>p_state := RUNNABLE, p_priority := 5, p_ctime := 20\<rparr>,
     7 := no_proc\<lparr>p_state := RUNNABLE, p_priority := 5, p_ctime := 10\<rparr>, 9 := no_proc\<lparr>p_state := RUNNABLE, p_priority := 1\<rparr>]) = Some 7"
proof -
  define ps where "ps = (replicate NPROC no_proc)[3 := no_proc\<lparr>p_state := RUNNABLE, p_priority := 5, p_ctime := 20\<rparr>,
     7 := no_proc\<lparr>p_state := RUNNABLE, p_priority := 5, p_ctime := 10\<rparr>, 9 := no_proc\<lparr>p_state := RUNNABLE, p_priority := 1\<rparr>]"
  have n: "7 < NPROC" "3 < NPROC" "9 < NPROC" by (simp_all add: NPROC_def)
  have u: "p_state no_proc = UNUSED" by (simp add: no_proc_def)
  have r: "p_state (ps ! i) = RUNNABLE \<longleftrightarrow> i = 3 \<or> i = 7 \<or> i = 9" if "i < NPROC" for i
    using that n u by (simp add: ps_def nth_list_update)
  have a: "\<not> ahead (ps ! 3) (ps ! 7)" "\<not> ahead (ps ! 9) (ps ! 7)" using n by (simp_all add: ps_def ahead_def nth_list_update)
  have "pick_proc ps = Some 7"
  proof (cases "pick_proc ps")
    case None
    then show ?thesis using pick_proc_correct [of ps] r [OF n(1)] n by auto
  next
    case (Some c)
    then have "c < NPROC" "p_state (ps ! c) = RUNNABLE" "ahead (ps ! c) (ps ! 7)" using pick_proc_correct [of ps] r [OF n(1)] n by auto
    then show ?thesis using r [of c] a Some by auto
  qed
  then show ?thesis by (simp only: ps_def)
qed

lemma pick_proc_bound: "pick_proc ps = Some c \<Longrightarrow> c < NPROC"
  using pick_loop [of NPROC ps] by (simp add: pick_proc_def)

subsection \<open>Critical sections\<close>

text \<open>A critical section of the process table leaves no trace but the table itself, and the interrupt state remembered for the outermost lock.\<close>

definition settle :: "xk \<Rightarrow> xk" where
  "settle s = s\<lparr>intena := (if ncli s = 0 then iflag s else intena s)\<rparr>"

lemma settle_simps [simp]:
  "ptable (settle s) = ptable s" "cpu_proc (settle s) = cpu_proc s" "locks (settle s) = locks s" "ncli (settle s) = ncli s" "iflag (settle s) = iflag s"
  "nextpid (settle s) = nextpid s" "initproc (settle s) = initproc s" "mem (settle s) = mem s" "icache (settle s) = icache s" "ftable (settle s) = ftable s"
  "pipes (settle s) = pipes s" "cpu_ok (settle s) = cpu_ok s" "logst.truncate (settle s) = logst.truncate s" "ticks (settle s) = ticks s"
  "inp (settle s) = inp s" "cr3 (settle s) = cr3 s" "kpgdir (settle s) = kpgdir s" "first (settle s) = first s"
  by (simp_all add: settle_def cpu_ok_def logst.truncate_def)

lemma enters_simps [simp]:
  "ptable (enters s lk) = ptable s" "cpu_proc (enters s lk) = cpu_proc s" "nextpid (enters s lk) = nextpid s" "initproc (enters s lk) = initproc s"
  "mem (enters s lk) = mem s" "locks (enters s lk) = insert lk (locks s)" "ncli (enters s lk) = ncli s + 1" "\<not> iflag (enters s lk)" "ticks (enters s lk) = ticks s"
  "icache (enters s lk) = icache s" "ftable (enters s lk) = ftable s" "pipes (enters s lk) = pipes s" "first (enters s lk) = first s"
  by (simp_all add: enters_def)

lemma cpu_ok_upd [simp]:
  "cpu_ok (s\<lparr>ptable := ps\<rparr>) = cpu_ok s" "cpu_ok (upd_proc s i f) = cpu_ok s" "cpu_ok (s\<lparr>nextpid := n\<rparr>) = cpu_ok s" "cpu_ok (s\<lparr>cpu_proc := c\<rparr>) = cpu_ok s"
  "cpu_ok (s\<lparr>mem := m\<rparr>) = cpu_ok s" "cpu_ok (s\<lparr>intena := b\<rparr>) = cpu_ok s" "cpu_ok (s\<lparr>cr3 := r\<rparr>) = cpu_ok s"
  by (simp_all add: cpu_ok_def upd_proc_def)

lemma upd_proc_simps [simp]:
  "ptable (upd_proc s i f) = (ptable s)[i := f (ptable s ! i)]" "locks (upd_proc s i f) = locks s" "cpu_proc (upd_proc s i f) = cpu_proc s"
  "ncli (upd_proc s i f) = ncli s" "iflag (upd_proc s i f) = iflag s" "mem (upd_proc s i f) = mem s" "nextpid (upd_proc s i f) = nextpid s"
  "initproc (upd_proc s i f) = initproc s" "intena (upd_proc s i f) = intena s" "ticks (upd_proc s i f) = ticks s" "icache (upd_proc s i f) = icache s"
  "ftable (upd_proc s i f) = ftable s" "pipes (upd_proc s i f) = pipes s" "kpgdir (upd_proc s i f) = kpgdir s" "first (upd_proc s i f) = first s"
  "mypid (upd_proc s i f) = mypid s"
  by (simp_all add: upd_proc_def)

lemma release_ptable:
  assumes "cpu_ok s" "lk \<notin> locks s"
  shows "release ((enters s lk)\<lparr>ptable := ps\<rparr>) lk = Some (settle (s\<lparr>ptable := ps\<rparr>))"
    "release (enters s lk) lk = Some (settle s)"
    "release ((enters s lk)\<lparr>ptable := ps, nextpid := n\<rparr>) lk = Some (settle (s\<lparr>ptable := ps, nextpid := n\<rparr>))"
proof -
  have c: "cpu_ok (enters s lk)" using assms by (rule cpu_ok_enters)
  have u: "leaves ((enters s lk)\<lparr>ptable := ps\<rparr>) lk = (leaves (enters s lk) lk)\<lparr>ptable := ps\<rparr>"
    "leaves ((enters s lk)\<lparr>ptable := ps, nextpid := n\<rparr>) lk = (leaves (enters s lk) lk)\<lparr>ptable := ps, nextpid := n\<rparr>"
    by (simp_all add: leaves_def)
  show "release ((enters s lk)\<lparr>ptable := ps\<rparr>) lk = Some (settle (s\<lparr>ptable := ps\<rparr>))"
    "release (enters s lk) lk = Some (settle s)"
    "release ((enters s lk)\<lparr>ptable := ps, nextpid := n\<rparr>) lk = Some (settle (s\<lparr>ptable := ps, nextpid := n\<rparr>))"
    using c assms by (simp_all add: cpu_ok_release u leaves_enters settle_def)
qed

lemma wakeup_eq: "cpu_ok s \<Longrightarrow> PtableLock \<notin> locks s \<Longrightarrow> wakeup s ch = Some (settle (wakeup1 s (Some ch)))"
  by (simp add: wakeup_def cpu_ok_acquire wakeup1_def release_ptable)

lemma setpriority_eq:
  assumes "cpu_ok s" "PtableLock \<notin> locks s"
  shows "setpriority s pid pr =
    (case find (\<lambda>i. p_pid (ptable s ! i) = pid) [0..<NPROC] of
       Some p \<Rightarrow> Some (0, settle (upd_proc s p (\<lambda>q. q\<lparr>p_priority := word_of_int pr\<rparr>)))
     | None \<Rightarrow> Some (- 1, settle s))"
  using assms by (simp add: setpriority_def cpu_ok_acquire release_ptable upd_proc_def split: option.split)

lemma kill_eq:
  assumes "cpu_ok s" "PtableLock \<notin> locks s" "length (ptable s) = NPROC"
  shows "kill s pid =
    (case find (\<lambda>i. p_pid (ptable s ! i) = pid) [0..<NPROC] of
       Some p \<Rightarrow> Some (0, settle (upd_proc s p (\<lambda>q. q\<lparr>p_killed := True, p_state := (if p_state q = SLEEPING then RUNNABLE else p_state q)\<rparr>)))
     | None \<Rightarrow> Some (- 1, settle s))"
proof (cases "find (\<lambda>i. p_pid (ptable s ! i) = pid) [0..<NPROC]")
  case None
  then show ?thesis using assms by (simp add: kill_def cpu_ok_acquire release_ptable)
next
  case (Some p)
  then have p: "p < NPROC" by (auto simp: find_Some_iff)
  let ?q = "ptable s ! p"
  have "?q\<lparr>p_killed := True, p_state := p_state ?q\<rparr> = ?q\<lparr>p_killed := True\<rparr>" by (cases ?q) simp
  then show ?thesis using Some p assms by (simp add: kill_def cpu_ok_acquire release_ptable upd_proc_def)
qed

definition count_tick :: "proc \<Rightarrow> proc" where
  "count_tick p = (case p_state p of
     RUNNING \<Rightarrow> p\<lparr>p_rutime := inc_int (p_rutime p)\<rparr>
   | RUNNABLE \<Rightarrow> p\<lparr>p_retime := inc_int (p_retime p)\<rparr>
   | SLEEPING \<Rightarrow> p\<lparr>p_sltime := inc_int (p_sltime p)\<rparr>
   | _ \<Rightarrow> p)"

lemma updatestatistics_eq:
  assumes "cpu_ok s" "PtableLock \<notin> locks s"
  shows "updatestatistics s = Some (settle (s\<lparr>ptable := map count_tick (ptable s)\<rparr>))"
proof -
  have m: "map (\<lambda>p. let p = (if p_state p = RUNNING then p\<lparr>p_rutime := inc_int (p_rutime p)\<rparr> else p);
           p = (if p_state p = RUNNABLE then p\<lparr>p_retime := inc_int (p_retime p)\<rparr> else p)
       in if p_state p = SLEEPING then p\<lparr>p_sltime := inc_int (p_sltime p)\<rparr> else p) ps = map count_tick ps" for ps
    by (rule map_cong) (auto simp: count_tick_def split: procstate.split)
  show ?thesis using assms by (simp add: updatestatistics_def cpu_ok_acquire release_ptable m)
qed

lemma count_tick_simps [simp]: "p_state (count_tick p) = p_state p" "p_chan (count_tick p) = p_chan p" "p_resume (count_tick p) = p_resume p"
  "p_kstack (count_tick p) = p_kstack p" "p_pgdir (count_tick p) = p_pgdir p" "p_pid (count_tick p) = p_pid p"
  by (simp_all add: count_tick_def split: procstate.split)

text \<open>The timer interrupt wakes the processes that sleep on the clock and then counts.\<close>

lemma timer_intr_eq:
  assumes "cpu_ok s" "PtableLock \<notin> locks s" "TicksLock \<notin> locks s"
  shows "\<exists>t. timer_intr s = Some t \<and> ptable t = map count_tick (ptable (wakeup1 s (Some ChTicks))) \<and> cpu_proc t = cpu_proc s \<and>
    locks t = locks s \<and> cpu_ok t \<and> iflag t = iflag s"
proof -
  define e where "e = (enters s TicksLock)\<lparr>ticks := ticks s + 1\<rparr>"
  have e: "ptable e = ptable s" "cpu_proc e = cpu_proc s" "locks e = insert TicksLock (locks s)" "ncli e = ncli s + 1"
    "intena e = (if ncli s = 0 then iflag s else intena s)"
    unfolding e_def by (simp_all add: enters_def)
  have "cpu_ok (enters s TicksLock)" using assms(1,3) by (rule cpu_ok_enters)
  then have ce: "cpu_ok e" "PtableLock \<notin> locks e" using assms(2) by (simp_all add: e_def cpu_ok_def)
  define u where "u = settle (wakeup1 e (Some ChTicks))"
  have "ncli e \<noteq> 0" using e(4) assms(1) by (simp add: cpu_ok_def)
  then have u: "cpu_ok u" "locks u = insert TicksLock (locks s)" "ptable u = ptable (wakeup1 s (Some ChTicks))"
    "cpu_proc u = cpu_proc s" "ncli u = ncli s + 1" "intena u = (if ncli s = 0 then iflag s else intena s)"
    unfolding u_def using ce(1) e by (simp_all add: wakeup1_def) (simp add: settle_def)
  define v where "v = leaves u TicksLock"
  have v: "release u TicksLock = Some v" "cpu_ok v" using u(1,2) cpu_ok_leaves [of u TicksLock] by (simp_all add: cpu_ok_release v_def)
  have "ncli s = 0 \<or> \<not> iflag s" using assms(1) by (auto simp: cpu_ok_def)
  then have w: "locks v = locks s" "ptable v = ptable u" "cpu_proc v = cpu_proc s" "iflag v = iflag s"
    using u(2-6) assms(1,3) by (auto simp: v_def leaves_def cpu_ok_def)
  have "updatestatistics v = Some (settle (v\<lparr>ptable := map count_tick (ptable v)\<rparr>))"
    using v(2) w(1) assms(2) by (intro updatestatistics_eq) simp_all
  moreover have "wakeup e ChTicks = Some u" unfolding u_def using ce by (rule wakeup_eq)
  moreover have "acquire s TicksLock = Some (enters s TicksLock)" using assms(1,3) by (simp add: cpu_ok_acquire)
  ultimately have "timer_intr s = Some (settle (v\<lparr>ptable := map count_tick (ptable v)\<rparr>))"
    using v(1) by (simp add: timer_intr_def flip: e_def)
  then show ?thesis using v(2) w u(3) by simp
qed

subsection \<open>Leaving and entering a thread\<close>

text \<open>The CPU back in the scheduler: no process, no locks, the kernel page table.\<close>

definition idle_cpu :: "xk \<Rightarrow> bool \<Rightarrow> proc list \<Rightarrow> xk" where
  "idle_cpu s b ps = s\<lparr>ptable := ps, cpu_proc := None, cr3 := V2P (kpgdir s), iflag := b, intena := b, ncli := 0, locks := {}\<rparr>"

lemma only_lock: "cpu_ok s \<Longrightarrow> locks s = {lk} \<Longrightarrow> ncli s = 1 \<and> \<not> iflag s"
  by (simp add: cpu_ok_def)

lemma no_locks: "cpu_ok s \<Longrightarrow> locks s = {} \<Longrightarrow> ncli s = 0"
  by (simp add: cpu_ok_def)

lemma sched_eq:
  assumes c: "cpu_ok s" "locks s = {PtableLock}" and p: "cpu_proc s = Some p" "p_state (ptable s ! p) \<noteq> RUNNING"
  shows "sched s r = Some (idle_cpu s (intena s) ((ptable s)[p := (ptable s ! p)\<lparr>p_resume := r (intena s)\<rparr>]))"
proof -
  have n: "ncli s = 1" "\<not> iflag s" using only_lock [OF c] by auto
  have s: "s\<lparr>intena := intena s\<rparr> = s" by (cases s) simp
  have h: "holding s PtableLock = Some (True, s)" using n c(2) s by (simp add: holding_eq)
  define t where "t = upd_proc s p (\<lambda>q. q\<lparr>p_resume := r (intena s)\<rparr>)"
  have "release ((switchkvm t)\<lparr>cpu_proc := None\<rparr>) PtableLock = Some (leaves ((switchkvm t)\<lparr>cpu_proc := None\<rparr>) PtableLock)"
    by (subst release_eq) (use n c(2) in \<open>simp_all add: switchkvm_def t_def\<close>)
  then have "sched s r = Some (leaves ((switchkvm t)\<lparr>cpu_proc := None\<rparr>) PtableLock)"
    using h n p by (simp add: sched_def scheduler_back_def t_def)
  also have "leaves ((switchkvm t)\<lparr>cpu_proc := None\<rparr>) PtableLock = idle_cpu s (intena s) ((ptable s)[p := (ptable s ! p)\<lparr>p_resume := r (intena s)\<rparr>])"
    using n c(2) by (cases s) (simp add: leaves_def switchkvm_def t_def upd_proc_def idle_cpu_def)
  finally show ?thesis .
qed

lemma enters_first:
  assumes "cpu_ok s" "locks s = {}"
  shows "acquire s lk = Some (enters s lk)" "cpu_ok (enters s lk)" "intena (enters s lk) = iflag s" "locks (enters s lk) = {lk}"
  using assms cpu_ok_enters [of s lk] by (simp_all add: cpu_ok_acquire) (simp add: enters_def no_locks)

lemma idle_cpu_enters: "idle_cpu (enters s lk) b ps = idle_cpu s b ps" "idle_cpu (upd_proc s i f) b ps = idle_cpu s b ps" "idle_cpu (leaves s lk) b ps = idle_cpu s b ps"
  by (simp_all add: idle_cpu_def enters_def upd_proc_def leaves_def)

lemma yield_eq:
  assumes c: "cpu_ok s" "locks s = {}" and p: "cpu_proc s = Some p" "p < length (ptable s)"
  shows "yield s = Some (idle_cpu s (iflag s) ((ptable s)[p := (ptable s ! p)\<lparr>p_state := RUNNABLE, p_resume := InSched (iflag s)\<rparr>]))"
proof -
  let ?s = "upd_proc (enters s PtableLock) p (\<lambda>q. q\<lparr>p_state := RUNNABLE\<rparr>)"
  note e = enters_first [OF c, of PtableLock]
  have "sched ?s InSched = Some (idle_cpu ?s (intena ?s) ((ptable ?s)[p := (ptable ?s ! p)\<lparr>p_resume := InSched (intena ?s)\<rparr>]))"
    by (rule sched_eq) (use e p in auto)
  then show ?thesis using e p by (simp add: yield_def idle_cpu_enters)
qed

lemma upd_proc_twice: "i < length (ptable s) \<Longrightarrow> upd_proc (upd_proc s i f) i g = upd_proc s i (\<lambda>q. g (f q))"
  by (simp add: upd_proc_def)

text \<open>\<open>sleep\<close> with the lock of the process table, as \<open>wait\<close> calls it, and with another lock.\<close>

lemma sleep_ptable_eq:
  assumes c: "cpu_ok s" "locks s = {PtableLock}" and p: "cpu_proc s = Some p" "p < length (ptable s)"
  shows "sleep s ch PtableLock = Some (idle_cpu s (intena s)
    ((ptable s)[p := (ptable s ! p)\<lparr>p_chan := Some ch, p_state := SLEEPING, p_resume := InSleep (intena s) PtableLock\<rparr>]))"
proof -
  let ?s = "upd_proc s p (\<lambda>q. q\<lparr>p_chan := Some ch, p_state := SLEEPING\<rparr>)"
  have "sched ?s (\<lambda>b. InSleep b PtableLock) = Some (idle_cpu ?s (intena ?s) ((ptable ?s)[p := (ptable ?s ! p)\<lparr>p_resume := InSleep (intena ?s) PtableLock\<rparr>]))"
    by (rule sched_eq) (use c p in auto)
  then show ?thesis using p by (simp add: sleep_def sleep_steps_def upd_proc_twice idle_cpu_enters)
qed

lemma sleep_eq:
  assumes c: "cpu_ok s" "locks s = {lk}" "lk \<noteq> PtableLock" and p: "cpu_proc s = Some p" "p < length (ptable s)"
  shows "sleep s ch lk = Some (idle_cpu s (intena s)
    ((ptable s)[p := (ptable s ! p)\<lparr>p_chan := Some ch, p_state := SLEEPING, p_resume := InSleep (intena s) lk\<rparr>]))"
proof -
  have n: "ncli s = 1" "\<not> iflag s" using only_lock [OF c(1,2)] by auto
  have a: "acquire s PtableLock = Some (enters s PtableLock)" "cpu_ok (enters s PtableLock)"
    using c by (auto simp: cpu_ok_acquire cpu_ok_enters)
  define u where "u = leaves (enters s PtableLock) lk"
  have r: "release (enters s PtableLock) lk = Some u" "cpu_ok u" using c a(2) by (auto simp: cpu_ok_release u_def cpu_ok_leaves)
  have u: "locks u = {PtableLock}" "cpu_proc u = Some p" "ptable u = ptable s" "intena u = intena s" using c n p by (auto simp: u_def leaves_def enters_def)
  let ?s = "upd_proc u p (\<lambda>q. q\<lparr>p_chan := Some ch, p_state := SLEEPING\<rparr>)"
  have "sched ?s (\<lambda>b. InSleep b lk) = Some (idle_cpu ?s (intena ?s) ((ptable ?s)[p := (ptable ?s ! p)\<lparr>p_resume := InSleep (intena ?s) lk\<rparr>]))"
    by (rule sched_eq) (use r u p in auto)
  moreover have "idle_cpu u b ps = idle_cpu s b ps" for b ps by (simp add: u_def idle_cpu_enters)
  ultimately show ?thesis using p c(3) a r(1) u by (simp add: sleep_def sleep_steps_def upd_proc_twice idle_cpu_enters)
qed


text \<open>The CPU in the thread of process \<open>c\<close>: its page table and stack, the interrupt state \<open>b\<close>, the locks \<open>L\<close>.\<close>

definition in_thread :: "xk \<Rightarrow> nat \<Rightarrow> bool \<Rightarrow> lock set \<Rightarrow> proc list \<Rightarrow> xk" where
  "in_thread s c b L ps = s\<lparr>mypid := p_pid (ptable s ! c), ptable := ps, cpu_proc := Some c, cr3 := V2P (p_pgdir (ptable s ! c)),
     esp0 := p_kstack (ptable s ! c) + KSTACKSIZE, ncli := int (card L), intena := b, iflag := (b \<and> L = {}), locks := L\<rparr>"

definition can_run :: "proc \<Rightarrow> bool" where
  "can_run p \<longleftrightarrow> p_kstack p \<noteq> 0 \<and> p_pgdir p \<noteq> 0"

lemma round_idle:
  assumes "cpu_ok s" "locks s = {}" "pick_proc (ptable s) = None"
  shows "scheduler_round s = Some (s\<lparr>iflag := True, intena := True\<rparr>)"
proof -
  let ?s = "s\<lparr>iflag := True\<rparr>"
  have c: "cpu_ok ?s" "locks ?s = {}" using assms by (auto simp: cpu_ok_def)
  have n: "ncli s = 0" using assms no_locks by blast
  show ?thesis using assms(3) enters_first [OF c] release_ptable(2) [OF c(1), of PtableLock] c(2) n by (simp add: scheduler_round_def settle_def)
qed

lemma round_pick:
  assumes "cpu_ok s" "locks s = {}" "pick_proc (ptable s) = Some c" "can_run (ptable s ! c)" "length (ptable s) = NPROC"
  shows "scheduler_round s = resume_thread (in_thread s c True {PtableLock} ((ptable s)[c := (ptable s ! c)\<lparr>p_state := RUNNING\<rparr>])) c"
proof -
  let ?s = "s\<lparr>iflag := True\<rparr>"
  have c: "cpu_ok ?s" "locks ?s = {}" using assms by (auto simp: cpu_ok_def)
  have n: "ncli s = 0" using assms no_locks by blast
  define u where "u = (enters ?s PtableLock)\<lparr>cpu_proc := Some c, mypid := p_pid (ptable s ! c)\<rparr>"
  have u: "ncli u = 1" "\<not> iflag u" "ptable u = ptable s" "intena u" using n by (simp_all add: u_def enters_def)
  have k: "p_kstack (ptable s ! c) \<noteq> 0" "p_pgdir (ptable s ! c) \<noteq> 0" using assms(4) by (auto simp: can_run_def)
  have "switchuvm u c = Some (u\<lparr>esp0 := p_kstack (ptable s ! c) + KSTACKSIZE, cr3 := V2P (p_pgdir (ptable s ! c))\<rparr>)"
    using u k by (cases u) (simp add: switchuvm_def pushcli_eq popcli_eq)
  moreover have "upd_proc (u\<lparr>esp0 := p_kstack (ptable s ! c) + KSTACKSIZE, cr3 := V2P (p_pgdir (ptable s ! c))\<rparr>) c (\<lambda>q. q\<lparr>p_state := RUNNING\<rparr>) =
      in_thread s c True {PtableLock} ((ptable s)[c := (ptable s ! c)\<lparr>p_state := RUNNING\<rparr>])"
    using n assms(2) by (cases s) (simp add: u_def enters_def upd_proc_def in_thread_def)
  ultimately show ?thesis using assms(3) enters_first [OF c, of PtableLock] by (simp add: scheduler_round_def u_def)
qed

lemma release_in_thread: "release (in_thread s c b {PtableLock} ps) PtableLock = Some (in_thread s c b {} ps)"
  by (subst release_eq) (simp_all add: in_thread_def leaves_def)

lemma acquire_in_thread: "acquire (in_thread s c b {} ps) lk = Some (in_thread s c b {lk} ps)"
  by (subst acquire_eq) (simp_all add: in_thread_def enters_def)

lemma in_thread_intena: "(in_thread s c b {lk} ps)\<lparr>intena := b'\<rparr> = in_thread s c b' {lk} ps"
  by (simp add: in_thread_def)

lemma in_thread_simps [simp]:
  "ptable (in_thread s c b L ps) = ps" "cpu_proc (in_thread s c b L ps) = Some c" "locks (in_thread s c b L ps) = L" "nextpid (in_thread s c b L ps) = nextpid s"
  "initproc (in_thread s c b L ps) = initproc s" "intena (in_thread s c b L ps) = b" "upd_proc (in_thread s c b L ps) i f = in_thread s c b L (ps[i := f (ps ! i)])"
  "mypid (in_thread s c b L ps) = p_pid (ptable s ! c)" "first (in_thread s c b L ps) = first s" "mem (in_thread s c b L ps) = mem s" "icache (in_thread s c b L ps) = icache s"
  by (simp_all add: in_thread_def upd_proc_def)

lemma cpu_ok_in_thread: "finite L \<Longrightarrow> cpu_ok (in_thread s c b L ps)"
  by (simp add: cpu_ok_def in_thread_def card_gt_0_iff)

lemma cpu_ok_idle: "cpu_ok (idle_cpu s b ps)" "locks (idle_cpu s b ps) = {}" "cpu_proc (idle_cpu s b ps) = None" "ptable (idle_cpu s b ps) = ps"
  "nextpid (idle_cpu s b ps) = nextpid s" "initproc (idle_cpu s b ps) = initproc s" "mem (idle_cpu s b ps) = mem s" "icache (idle_cpu s b ps) = icache s"
  "first (idle_cpu s b ps) = first s"
  by (simp_all add: cpu_ok_def idle_cpu_def)

lemma resume_eq:
  "p_resume (ps ! c) = InSched b \<Longrightarrow> resume_thread (in_thread s c True {PtableLock} ps) c = Some (in_thread s c b {} ps)"
  "p_resume (ps ! c) = InSleep b lk \<Longrightarrow>
     resume_thread (in_thread s c True {PtableLock} ps) c = Some (in_thread s c b {lk} (ps[c := (ps ! c)\<lparr>p_chan := None\<rparr>]))"
  "p_resume (ps ! c) = InExit \<Longrightarrow> resume_thread (in_thread s c True {PtableLock} ps) c = None"
  "p_resume (ps ! c) = AtForkret \<Longrightarrow> \<not> first s \<Longrightarrow> resume_thread (in_thread s c True {PtableLock} ps) c = Some (in_thread s c True {} ps)"
  by (auto simp: resume_thread_def in_thread_intena release_in_thread acquire_in_thread forkret_def Let_def)


end
