(* ===== verification/X6Sleep.thy ===== *)
theory X6Sleep
  imports X6Sched
begin

text \<open>
  What the operations on the process table promise: sleeping and waking, allocation of a slot, killing, growing.
\<close>

subsection \<open>Sleeping and waking\<close>

text \<open>
  The interrupts that touch the process table: the timer, and a device whose handler wakes up a channel (\<open>ideintr\<close>,
  \<open>consoleintr\<close>). An interrupt may come in before any statement, when interrupts are enabled.
\<close>

datatype intr = Timer | Device chan

definition handle :: "intr \<Rightarrow> xk \<Rightarrow> xk option" where
  "handle e s = (case e of Timer \<Rightarrow> timer_intr s | Device ch \<Rightarrow> wakeup s ch)"

inductive interleaved :: "xk \<Rightarrow> (xk \<Rightarrow> xk option) list \<Rightarrow> intr list \<Rightarrow> xk \<Rightarrow> bool" where
  il_done: "interleaved s [] [] s"
| il_step: "f s = Some s' \<Longrightarrow> interleaved s' fs es t \<Longrightarrow> interleaved s (f # fs) es t"
| il_intr: "iflag s \<Longrightarrow> handle e s = Some s' \<Longrightarrow> interleaved s' fs es t \<Longrightarrow> interleaved s fs (e # es) t"

inductive_cases il_stepE: "interleaved s (f # fs) es t"
inductive_cases il_nilE: "interleaved s [] (e # es) t"
inductive_cases il_doneE: "interleaved s [] [] t"

lemma il_masked: "interleaved s (f # fs) es t \<Longrightarrow> \<not> iflag s \<Longrightarrow> \<exists>s'. f s = Some s' \<and> interleaved s' fs es t"
  by (erule il_stepE) auto

definition wakes :: "intr \<Rightarrow> chan" where
  "wakes e = (case e of Timer \<Rightarrow> ChTicks | Device ch \<Rightarrow> ch)"

text \<open>The CPU in the scheduler with the thread of \<open>p\<close> parked in \<open>sleep\<close>, in state \<open>ps\<close>.\<close>

definition parked :: "nat \<Rightarrow> chan \<Rightarrow> bool \<Rightarrow> lock \<Rightarrow> procstate \<Rightarrow> xk \<Rightarrow> bool" where
  "parked p ch b lk ps s \<longleftrightarrow> cpu_ok s \<and> locks s = {} \<and> cpu_proc s = None \<and> length (ptable s) = NPROC \<and>
     p_state (ptable s ! p) = ps \<and> p_chan (ptable s ! p) = Some ch \<and> p_resume (ptable s ! p) = InSleep b lk"

lemma wakeup1_slot:
  "i < length (ptable s) \<Longrightarrow> ptable (wakeup1 s c) ! i =
     (if p_state (ptable s ! i) = SLEEPING \<and> p_chan (ptable s ! i) = c then (ptable s ! i)\<lparr>p_state := RUNNABLE\<rparr> else ptable s ! i)"
  "length (ptable (wakeup1 s c)) = length (ptable s)" "locks (wakeup1 s c) = locks s" "cpu_proc (wakeup1 s c) = cpu_proc s" "cpu_ok (wakeup1 s c) = cpu_ok s"
  by (simp_all add: wakeup1_def)

lemma parked_handle:
  assumes pk: "parked p ch b lk ps s" "p < NPROC" "ps = SLEEPING \<or> ps = RUNNABLE" and h: "handle e s = Some s'"
  shows "parked p ch b lk (if wakes e = ch then RUNNABLE else ps) s'"
proof -
  have s: "cpu_ok s" "locks s = {}" "cpu_proc s = None" "length (ptable s) = NPROC" using pk(1) by (simp_all add: parked_def)
  have q: "p_state (ptable (wakeup1 s (Some (wakes e))) ! p) = (if wakes e = ch then RUNNABLE else ps)"
    "p_chan (ptable (wakeup1 s (Some (wakes e))) ! p) = Some ch" "p_resume (ptable (wakeup1 s (Some (wakes e))) ! p) = InSleep b lk"
    using pk s(4) by (auto simp: parked_def wakeup1_slot)
  have l: "p < length (ptable (wakeup1 s c))" for c using pk(2) s(4) by (simp add: wakeup1_slot)
  show ?thesis
  proof (cases e)
    case Timer
    then have "timer_intr s = Some s'" "wakes e = ChTicks" using h by (simp_all add: handle_def wakes_def)
    then show ?thesis
      using timer_intr_eq [OF s(1)] s q l by (auto simp: parked_def wakeup1_slot(2))
  next
    case (Device c)
    then have "wakeup s c = Some s'" "wakes e = c" using h by (simp_all add: handle_def wakes_def)
    then have "s' = settle (wakeup1 s (Some (wakes e)))" using wakeup_eq [OF s(1), of c] s(2) by simp
    then show ?thesis using s q by (simp add: parked_def wakeup1_slot)
  qed
qed

lemma parked_interrupts:
  "interleaved s fs es t \<Longrightarrow> fs = [] \<Longrightarrow> p < NPROC \<Longrightarrow> parked p ch b lk ps s \<Longrightarrow> ps = SLEEPING \<or> ps = RUNNABLE \<Longrightarrow>
     parked p ch b lk (if \<exists>e \<in> set es. wakes e = ch then RUNNABLE else ps) t"
proof (induction arbitrary: ps rule: interleaved.induct)
  case (il_intr s e s' fs es t)
  let ?ps = "if wakes e = ch then RUNNABLE else ps"
  have "parked p ch b lk (if \<exists>e \<in> set es. wakes e = ch then RUNNABLE else ?ps) t"
    using il_intr.prems il_intr.hyps(2) by (intro il_intr.IH parked_handle) auto
  moreover have "(if \<exists>e \<in> set es. wakes e = ch then RUNNABLE else ?ps) = (if \<exists>e \<in> set (e # es). wakes e = ch then RUNNABLE else ps)" by auto
  ultimately show ?case by simp
qed auto

text \<open>The steps of \<open>sleep\<close> run with interrupts disabled, up to the switch: no interrupt comes in between.\<close>

lemma sleep_steps_masked:
  assumes c: "cpu_ok s" "locks s = {lk}" and p: "cpu_proc s = Some p" and il: "interleaved s (sleep_steps p ch lk) es t"
  shows "\<exists>s1. sleep s ch lk = Some s1 \<and> interleaved s1 [] es t"
proof -
  have tail: "\<exists>s1. fold_opt (\<lambda>f. f) [\<lambda>s. Some (upd_proc s p f), \<lambda>s. Some (upd_proc s p g), h] s = Some s1 \<and> interleaved s1 [] es t"
    if "interleaved s [\<lambda>s. Some (upd_proc s p f), \<lambda>s. Some (upd_proc s p g), h] es t" "\<not> iflag s" for s f g h
  proof -
    note m = that(2)
    have "interleaved (upd_proc s p f) [\<lambda>s. Some (upd_proc s p g), h] es t" using il_masked [OF that] by simp
    then have "interleaved (upd_proc (upd_proc s p f) p g) [h] es t" using il_masked m by fastforce
    then obtain s1 where "h (upd_proc (upd_proc s p f) p g) = Some s1" "interleaved s1 [] es t" using il_masked m by fastforce
    then show ?thesis by simp
  qed
  have n: "ncli s = 1" "\<not> iflag s" using only_lock [OF c] by auto
  show ?thesis
  proof (cases "lk = PtableLock")
    case True
    then show ?thesis using tail [OF _ n(2)] il p by (simp add: sleep_def sleep_steps_def)
  next
    case False
    let ?e = "enters s PtableLock"
    have a: "acquire s PtableLock = Some ?e" "cpu_ok ?e" using c False by (auto simp: cpu_ok_acquire cpu_ok_enters)
    then have r: "release ?e lk = Some (leaves ?e lk)" using c(2) by (simp add: cpu_ok_release)
    have i: "\<not> iflag ?e" "\<not> iflag (leaves ?e lk)" using n by (simp_all add: leaves_def)
    let ?fs = "[\<lambda>s. Some (upd_proc s p (\<lambda>q. q\<lparr>p_chan := Some ch\<rparr>)), \<lambda>s. Some (upd_proc s p (\<lambda>q. q\<lparr>p_state := SLEEPING\<rparr>)), \<lambda>s. sched s (\<lambda>b. InSleep b lk)]"
    have "interleaved s ((\<lambda>s. acquire s PtableLock) # (\<lambda>s. release s lk) # ?fs) es t" using il False by (simp add: sleep_steps_def)
    then have "interleaved ?e ((\<lambda>s. release s lk) # ?fs) es t" using il_masked [OF _ n(2)] a(1) by fastforce
    then have "interleaved (leaves ?e lk) ?fs es t" using il_masked [OF _ i(1)] r by fastforce
    from tail [OF this i(2)] show ?thesis using a(1) r p False by (simp add: sleep_def sleep_steps_def)
  qed
qed

lemma il_run: "fold_opt (\<lambda>f. f) fs s = Some s1 \<Longrightarrow> interleaved s1 [] es t \<Longrightarrow> interleaved s fs es t"
proof (induction fs arbitrary: s)
  case (Cons f fs)
  then obtain s' where "f s = Some s'" "fold_opt (\<lambda>f. f) fs s' = Some s1" by (auto split: option.splits)
  then show ?case using Cons by (blast intro: il_step)
qed simp

lemma sleep_parks:
  assumes c: "cpu_ok s" "locks s = {lk}" and p: "cpu_proc s = Some p" "p < NPROC" "length (ptable s) = NPROC"
  shows "\<exists>s1. sleep s ch lk = Some s1 \<and> parked p ch (intena s) lk SLEEPING s1 \<and> iflag s1 = intena s \<and> (\<forall>i. i \<noteq> p \<longrightarrow> ptable s1 ! i = ptable s ! i)"
proof -
  let ?q = "(ptable s ! p)\<lparr>p_chan := Some ch, p_state := SLEEPING, p_resume := InSleep (intena s) lk\<rparr>"
  have pl: "p < length (ptable s)" using p by simp
  have "sleep s ch lk = Some (idle_cpu s (intena s) ((ptable s)[p := ?q]))"
  proof (cases "lk = PtableLock")
    case True
    then show ?thesis using sleep_ptable_eq [OF c(1) _ p(1) pl] c(2) by simp
  next
    case False
    then show ?thesis by (rule sleep_eq [OF c _ p(1) pl])
  qed
  moreover have "iflag (idle_cpu s (intena s) ps) = intena s" for ps by (simp add: idle_cpu_def)
  ultimately show ?thesis using p by (simp add: parked_def cpu_ok_idle)
qed

lemma parked_resumes:
  assumes u: "cpu_ok u" "locks u = {}" "length (ptable u) = NPROC" "can_run (ptable u ! p)" "p_resume (ptable u ! p) = InSleep b lk"
    "pick_proc (ptable u) = Some p"
  shows "\<exists>u'. scheduler_round u = Some u' \<and> cpu_proc u' = Some p \<and> locks u' = {lk} \<and> cpu_ok u' \<and> intena u' = b \<and>
     p_state (ptable u' ! p) = RUNNING \<and> p_chan (ptable u' ! p) = None"
proof -
  have pl: "p < NPROC" using u(6) by (rule pick_proc_bound)
  let ?ps = "(ptable u)[p := (ptable u ! p)\<lparr>p_state := RUNNING\<rparr>]"
  have "p_resume (?ps ! p) = InSleep b lk" using u(3,5) pl by simp
  from resume_eq(2) [OF this, of u] round_pick [OF u(1,2,6,4,3)]
  have "scheduler_round u = Some (in_thread u p b {lk} (?ps[p := (?ps ! p)\<lparr>p_chan := None\<rparr>]))" by simp
  then show ?thesis using u(3) pl by (simp add: cpu_ok_in_thread)
qed

text \<open>C9. Sleeping and waking, on one CPU with interrupts. A process that calls \<open>sleep\<close> with one lock held gets parked: it is marked as sleeping on the
  channel, its lock is released and the CPU is back in the scheduler. However timer and device interrupts fall between the statements of \<open>sleep\<close> and after
  them, the process is runnable at the end if one of them woke the channel, and sleeping otherwise: no such wakeup comes between the release of the lock
  and the sleep, where it would be lost. Later a \<open>wakeup\<close> of the channel makes a process that sleeps on it runnable, whatever its statistics are; and when the
  scheduler takes the process up at that place, it goes on as the running process with its lock held once more, no channel, and the interrupt state it had.\<close>

theorem sleep_wakeup:
  assumes "cpu_ok s" "locks s = {lk}" "cpu_proc s = Some p" "p < NPROC" "length (ptable s) = NPROC"
  shows "(\<exists>s1. sleep s ch lk = Some s1 \<and> parked p ch (intena s) lk SLEEPING s1 \<and> iflag s1 = intena s \<and> (\<forall>i. i \<noteq> p \<longrightarrow> ptable s1 ! i = ptable s ! i)) \<and>
     (\<forall>es t. interleaved s (sleep_steps p ch lk) es t \<longrightarrow>
        parked p ch (intena s) lk (if \<exists>e \<in> set es. wakes e = ch then RUNNABLE else SLEEPING) t) \<and>
     (\<forall>t. cpu_ok t \<and> PtableLock \<notin> locks t \<and> length (ptable t) = NPROC \<and> p_state (ptable t ! p) = SLEEPING \<and> p_chan (ptable t ! p) = Some ch \<longrightarrow>
        (\<exists>t'. wakeup t ch = Some t' \<and> ptable t' ! p = (ptable t ! p)\<lparr>p_state := RUNNABLE\<rparr>)) \<and>
     (\<forall>u. cpu_ok u \<and> locks u = {} \<and> length (ptable u) = NPROC \<and> can_run (ptable u ! p) \<and> p_resume (ptable u ! p) = InSleep (intena s) lk \<and>
        pick_proc (ptable u) = Some p \<longrightarrow>
        (\<exists>u'. scheduler_round u = Some u' \<and> cpu_proc u' = Some p \<and> locks u' = {lk} \<and> cpu_ok u' \<and> intena u' = intena s \<and>
           p_state (ptable u' ! p) = RUNNING \<and> p_chan (ptable u' ! p) = None))"
proof (intro conjI allI impI)
  show parks: "\<exists>s1. sleep s ch lk = Some s1 \<and> parked p ch (intena s) lk SLEEPING s1 \<and> iflag s1 = intena s \<and> (\<forall>i. i \<noteq> p \<longrightarrow> ptable s1 ! i = ptable s ! i)"
    using assms by (rule sleep_parks)
  fix es t
  assume "interleaved s (sleep_steps p ch lk) es t"
  then obtain s1 where "sleep s ch lk = Some s1" "interleaved s1 [] es t" using sleep_steps_masked [OF assms(1-3)] by blast
  then show "parked p ch (intena s) lk (if \<exists>e \<in> set es. wakes e = ch then RUNNABLE else SLEEPING) t"
    using parks assms(4) by (intro parked_interrupts) auto
next
  fix t
  assume "cpu_ok t \<and> PtableLock \<notin> locks t \<and> length (ptable t) = NPROC \<and> p_state (ptable t ! p) = SLEEPING \<and> p_chan (ptable t ! p) = Some ch"
  then show "\<exists>t'. wakeup t ch = Some t' \<and> ptable t' ! p = (ptable t ! p)\<lparr>p_state := RUNNABLE\<rparr>"
    using assms(4) by (simp add: wakeup_eq wakeup1_slot)
next
  fix u
  assume "cpu_ok u \<and> locks u = {} \<and> length (ptable u) = NPROC \<and> can_run (ptable u ! p) \<and> p_resume (ptable u ! p) = InSleep (intena s) lk \<and>
        pick_proc (ptable u) = Some p"
  then show "\<exists>u'. scheduler_round u = Some u' \<and> cpu_proc u' = Some p \<and> locks u' = {lk} \<and> cpu_ok u' \<and> intena u' = intena s \<and>
           p_state (ptable u' ! p) = RUNNING \<and> p_chan (ptable u' ! p) = None"
    by (intro parked_resumes) auto
qed

theorem sleep_wakeup_witness:
  "\<exists>s t. s = at_rest\<lparr>cpu_proc := Some 3, locks := {PipeLock 7}, ncli := 1, iflag := False, intena := True\<rparr> \<and>
     interleaved s (sleep_steps 3 (ChNread 7) (PipeLock 7)) [Timer, Device (ChNread 7)] t \<and> p_state (ptable t ! 3) = RUNNABLE"
proof -
  define s where "s = at_rest\<lparr>cpu_proc := Some 3, locks := {PipeLock 7}, ncli := 1, iflag := False, intena := True\<rparr>"
  have s: "cpu_ok s" "locks s = {PipeLock 7}" "cpu_proc s = Some 3" "3 < NPROC" "length (ptable s) = NPROC" "intena s"
    unfolding s_def by (simp_all add: cpu_ok_def at_rest_eq NPROC_def)
  note W = sleep_wakeup [OF s(1-5), of "ChNread 7"]
  obtain s1 where s1: "sleep s (ChNread 7) (PipeLock 7) = Some s1" "parked 3 (ChNread 7) (intena s) (PipeLock 7) SLEEPING s1" "iflag s1"
    using W [THEN conjunct1] s(6) by blast
  have c1: "cpu_ok s1" "locks s1 = {}" using s1(2) by (simp_all add: parked_def)
  obtain s2 where s2: "timer_intr s1 = Some s2" "cpu_ok s2" "locks s2 = {}" "iflag s2" using timer_intr_eq [OF c1(1)] c1(2) s1(3) by auto
  have s3: "wakeup s2 (ChNread 7) = Some (settle (wakeup1 s2 (Some (ChNread 7))))" using s2(2,3) by (simp add: wakeup_eq)
  let ?t = "settle (wakeup1 s2 (Some (ChNread 7)))"
  have "interleaved s1 [] [Timer, Device (ChNread 7)] ?t"
    by (rule il_intr [OF s1(3) _ il_intr [OF s2(4) _ il_done]]) (simp_all add: handle_def s2(1) s3)
  moreover have "fold_opt (\<lambda>f. f) (sleep_steps 3 (ChNread 7) (PipeLock 7)) s = Some s1" using s1(1) s(3) by (simp add: sleep_def)
  ultimately have il: "interleaved s (sleep_steps 3 (ChNread 7) (PipeLock 7)) [Timer, Device (ChNread 7)] ?t" by (rule il_run [rotated])
  then have "parked 3 (ChNread 7) (intena s) (PipeLock 7) (if \<exists>e \<in> set [Timer, Device (ChNread 7)]. wakes e = ChNread 7 then RUNNABLE else SLEEPING) ?t"
    using W [THEN conjunct2, THEN conjunct1] by blast
  then have "p_state (ptable ?t ! 3) = RUNNABLE" by (simp add: parked_def wakes_def)
  with il s_def show ?thesis by blast
qed

subsection \<open>Allocating a slot\<close>

text \<open>The kernel stack of a new process: the return address to \<open>trapret\<close> and below it the context that starts in \<open>forkret\<close>.\<close>

definition new_stack :: "xk \<Rightarrow> u32 \<Rightarrow> bytes \<Rightarrow> bytes" where
  "new_stack s k m = store32 (snd (x_memset (store32 m (k + KSTACKSIZE - 80) (trapret_addr s)) (k + KSTACKSIZE - 100) 0 20)) (k + KSTACKSIZE - 84) (forkret_addr s)"

definition new_proc :: "xk \<Rightarrow> u32 \<Rightarrow> proc \<Rightarrow> proc" where
  "new_proc s k q = q\<lparr>p_kstack := k, p_tf := k + KSTACKSIZE - 76, p_context := k + KSTACKSIZE - 100, p_resume := AtForkret,
     p_ctime := sint (ticks s), p_rutime := 0, p_retime := 0, p_sltime := 0, p_priority := 0\<rparr>"

lemma kalloc_none: "kalloc m = (0, m') \<Longrightarrow> m' = m"
  by (auto simp: kalloc_def Let_def split: if_splits)

lemma alloc_kstack_eq:
  assumes "p < length (ptable s)" "kalloc (mem s) = (k, m)"
  shows "alloc_kstack s p =
    (if k = 0 then (None, s\<lparr>mem := m, ptable := (ptable s)[p := (ptable s ! p)\<lparr>p_kstack := 0, p_state := UNUSED\<rparr>]\<rparr>)
     else (Some p, s\<lparr>mem := m\<lparr>pm := new_stack s k (pm m)\<rparr>, ptable := (ptable s)[p := new_proc s k (ptable s ! p)]\<rparr>))"
proof -
  have sp: "k + KSTACKSIZE - 76 - 4 = k + KSTACKSIZE - 80" "k + KSTACKSIZE - 80 - 20 = k + KSTACKSIZE - 100" "k + KSTACKSIZE - 100 + 16 = k + KSTACKSIZE - 84"
    by (simp_all add: algebra_simps)
  show ?thesis
    unfolding alloc_kstack_def assms(2) Let_def prod.case sp using assms(1)
    by (simp add: upd_proc_def poke_def new_stack_def new_proc_def)
qed


definition embryo :: "xk \<Rightarrow> nat \<Rightarrow> proc" where
  "embryo s p = (ptable s ! p)\<lparr>p_state := EMBRYO, p_pid := nextpid s\<rparr>"

lemma allocproc_eq:
  assumes c: "cpu_ok s" "locks s = {}" and l: "length (ptable s) = NPROC" and k: "kalloc (mem s) = (k, m)"
  shows "allocproc s =
    (case find (\<lambda>i. p_state (ptable s ! i) = UNUSED) [0..<NPROC] of
       None \<Rightarrow> Some (None, settle s)
     | Some p \<Rightarrow>
         if k = 0 then Some (None, (settle s)\<lparr>nextpid := nextpid s + 1, mem := m, ptable := (ptable s)[p := (ptable s ! p)\<lparr>p_pid := nextpid s, p_kstack := 0\<rparr>]\<rparr>)
         else Some (Some p, (settle s)\<lparr>nextpid := nextpid s + 1, mem := m\<lparr>pm := new_stack s k (pm m)\<rparr>, ptable := (ptable s)[p := new_proc s k (embryo s p)]\<rparr>))"
proof (cases "find (\<lambda>i. p_state (ptable s ! i) = UNUSED) [0..<NPROC]")
  case None
  then show ?thesis using c enters_first [OF c] by (simp add: allocproc_def release_ptable)
next
  case (Some p)
  then have p: "p < length (ptable s)" "p_state (ptable s ! p) = UNUSED" using l by (auto simp: find_Some_iff)
  define t where "t = settle (s\<lparr>ptable := (ptable s)[p := embryo s p], nextpid := nextpid s + 1\<rparr>)"
  have u: "(upd_proc (enters s PtableLock) p (\<lambda>q. q\<lparr>p_state := EMBRYO, p_pid := nextpid (enters s PtableLock)\<rparr>))\<lparr>nextpid := nextpid s + 1\<rparr> =
      (enters s PtableLock)\<lparr>ptable := (ptable s)[p := embryo s p], nextpid := nextpid s + 1\<rparr>"
    by (simp add: upd_proc_def embryo_def)
  have "PtableLock \<notin> locks s" using c by simp
  then have r: "release ((enters s PtableLock)\<lparr>ptable := (ptable s)[p := embryo s p], nextpid := nextpid s + 1\<rparr>) PtableLock = Some t"
    unfolding t_def using c(1) by (intro release_ptable)
  have a: "allocproc s = Some (alloc_kstack t p)"
    unfolding allocproc_def enters_first(1) [OF c] using Some r u by simp
  have t: "p < length (ptable t)" "kalloc (mem t) = (k, m)" "ptable t ! p = embryo s p" using p k by (simp_all add: t_def)
  have e: "(embryo s p)\<lparr>p_kstack := 0, p_state := UNUSED\<rparr> = (ptable s ! p)\<lparr>p_pid := nextpid s, p_kstack := 0\<rparr>"
    using p(2) by (cases "ptable s ! p") (simp add: embryo_def)
  have s: "new_stack t k = new_stack s k" "new_proc t k = new_proc s k" by (simp_all add: fun_eq_iff new_stack_def new_proc_def t_def settle_def)
  have v: "t\<lparr>mem := m', ptable := (ptable t)[p := q]\<rparr> = (settle s)\<lparr>nextpid := nextpid s + 1, mem := m', ptable := (ptable s)[p := q]\<rparr>" for m' q
    by (simp add: t_def settle_def)
  show ?thesis unfolding a alloc_kstack_eq [OF t(1,2)] t(3) s v e using Some by simp
qed

text \<open>C36. \<open>kill\<close> does not check that a slot is in use, and a free slot has pid 0. So \<open>kill(0)\<close> reports success, marks the first free slot as killed, and
  the next process that is created in it starts out killed.\<close>

theorem kill_zero_marks_next:
  assumes c: "cpu_ok s" "locks s = {}" and l: "length (ptable s) = NPROC"
    and z: "\<And>i. i < NPROC \<Longrightarrow> p_pid (ptable s ! i) = 0 \<longleftrightarrow> p_state (ptable s ! i) = UNUSED"
    and p: "find (\<lambda>i. p_state (ptable s ! i) = UNUSED) [0..<NPROC] = Some p" and m: "freelist (mem s) \<noteq> 0"
  shows "\<exists>s1 s2. kill s 0 = Some (0, s1) \<and> p_state (ptable s1 ! p) = UNUSED \<and> allocproc s1 = Some (Some p, s2) \<and> p_state (ptable s2 ! p) = EMBRYO \<and>
    p_killed (ptable s2 ! p)"
proof -
  have pl: "p < NPROC" "p_state (ptable s ! p) = UNUSED" "\<forall>j < p. p_state (ptable s ! j) \<noteq> UNUSED" using p by (auto simp: find_upt_Some)
  have f: "find (\<lambda>i. p_pid (ptable s ! i) = 0) [0..<NPROC] = Some p" using pl z by (auto simp: find_upt_Some)
  let ?q = "(ptable s ! p)\<lparr>p_killed := True, p_state := UNUSED\<rparr>"
  define s1 where "s1 = settle (upd_proc s p (\<lambda>q. q\<lparr>p_killed := True, p_state := (if p_state q = SLEEPING then RUNNABLE else p_state q)\<rparr>))"
  have k: "kill s 0 = Some (0, s1)" using kill_eq [OF c(1) _ l, of 0] c(2) f by (simp add: s1_def)
  have s1: "ptable s1 = (ptable s)[p := ?q]" "cpu_ok s1" "locks s1 = {}" "mem s1 = mem s" using c pl by (simp_all add: s1_def)
  obtain k m' where km: "kalloc (mem s1) = (k, m')" by (cases "kalloc (mem s1)")
  have k0: "k \<noteq> 0" using km m s1 by (auto simp: kalloc_def Let_def)
  have f1: "find (\<lambda>i. p_state (ptable s1 ! i) = UNUSED) [0..<NPROC] = Some p" using pl l by (simp add: find_upt_Some s1 nth_list_update)
  have l1: "length (ptable s1) = NPROC" using l s1 by simp
  obtain s2 where s2: "allocproc s1 = Some (Some p, s2)" "ptable s2 = (ptable s1)[p := new_proc s1 k (embryo s1 p)]"
    using allocproc_eq [OF s1(2,3) l1 km] f1 k0 by simp
  have "ptable s2 ! p = new_proc s1 k (embryo s1 p)" using s2(2) pl l1 by simp
  then have "p_state (ptable s2 ! p) = EMBRYO" "p_killed (ptable s2 ! p)" using pl l by (simp_all add: new_proc_def embryo_def s1)
  then show ?thesis using k s1(1) pl l s2(1) by auto
qed

lemma kill_zero_marks_next_witness: "\<exists>s1 s2. kill at_rest 0 = Some (0, s1) \<and> allocproc s1 = Some (Some 0, s2) \<and> p_killed (ptable s2 ! 0)"
proof -
  have c: "cpu_ok at_rest" "locks at_rest = {}" "length (ptable at_rest) = NPROC" by (simp_all add: at_rest_def boot_cache_eq cpu_ok_def)
  have z: "p_pid (ptable at_rest ! i) = 0 \<longleftrightarrow> p_state (ptable at_rest ! i) = UNUSED" if "i < NPROC" for i using that by (simp add: at_rest_eq no_proc_def)
  have f: "find (\<lambda>i. p_state (ptable at_rest ! i) = UNUSED) [0..<NPROC] = Some 0" by (simp add: find_upt_Some at_rest_eq no_proc_def NPROC_def)
  have "freelist (mem at_rest) \<noteq> 0" by (simp add: at_rest_eq small_mem_def)
  from kill_zero_marks_next [OF c z f this] show ?thesis by blast
qed

end
