(* ===== verification/X6Io.thy ===== *)
theory X6Io
  imports X6Sleep
begin

text \<open>
  Console input (console.c) and the contents of files and directories (fs.c). Memory that a file is read into or written from is a byte
  function \<open>m\<close> that the operations thread through; a copy between two objects reads one and writes the other. A wait for console input is \<open>None\<close>,
  like the waits for locks below.
\<close>

subsection \<open>Console input\<close>

definition upd_inp :: "xk \<Rightarrow> (input \<Rightarrow> input) \<Rightarrow> xk" where
  "upd_inp s f = s\<lparr>inp := f (inp s)\<rparr>"

definition in_at :: "xk \<Rightarrow> u32 \<Rightarrow> u8" where
  "in_at s i = in_buf (inp s) ! (unat i mod INPUT_BUF)"

text \<open>The loop behind control-U.\<close>

function kill_line :: "xk \<Rightarrow> xk option" where
  "kill_line s =
     (if in_e (inp s) \<noteq> in_w (inp s) \<and> in_at s (in_e (inp s) - 1) \<noteq> 10
      then Option.bind (consputc (upd_inp s (\<lambda>x. x\<lparr>in_e := in_e x - 1\<rparr>)) BACKSPACE) kill_line
      else Some s)"
  by auto

termination
proof (relation "measure (\<lambda>s. unat (in_e (inp s) - in_w (inp s)))")
  fix s t :: xk
  assume a: "in_e (inp s) \<noteq> in_w (inp s) \<and> in_at s (in_e (inp s) - 1) \<noteq> 10"
    and t: "consputc (upd_inp s (\<lambda>x. x\<lparr>in_e := in_e x - 1\<rparr>)) BACKSPACE = Some t"
  let ?d = "in_e (inp s) - in_w (inp s)"
  have "?d \<noteq> 0" using a by simp
  then have "unat (?d - 1) < unat ?d" by (simp add: unat_gt_0 measure_unat)
  moreover have "in_e (inp s) - 1 - in_w (inp s) = ?d - 1" by simp
  ultimately have "unat (in_e (inp s) - 1 - in_w (inp s)) < unat ?d" by (simp only:)
  then show "(t, s) \<in> measure (\<lambda>s. unat (in_e (inp s) - in_w (inp s)))"
    using consputc_frame(1) [OF t] by (simp add: upd_inp_def)
qed simp

definition consoleintr_char :: "int \<Rightarrow> xk \<times> bool \<Rightarrow> (xk \<times> bool) option" where
  "consoleintr_char c = (\<lambda>(s, dump).
     if c = 16 then Some (s, True)
     else if c = 21 then do { s \<leftarrow> kill_line s; Some (s, dump) }
     else if c = 8 \<or> c = 127 then
       if in_e (inp s) \<noteq> in_w (inp s)
       then do { s \<leftarrow> consputc (upd_inp s (\<lambda>x. x\<lparr>in_e := in_e x - 1\<rparr>)) BACKSPACE; Some (s, dump) }
       else Some (s, dump)
     else if c \<noteq> 0 \<and> in_e (inp s) - in_r (inp s) < of_nat INPUT_BUF then
       let c = (if c = 13 then 10 else c);
           s = upd_inp s (\<lambda>x. x\<lparr>in_buf := (in_buf x)[unat (in_e x) mod INPUT_BUF := word_of_int c], in_e := in_e x + 1\<rparr>)
       in do {
         s \<leftarrow> consputc s c;
         if c = 10 \<or> c = 4 \<or> in_e (inp s) = in_r (inp s) + of_nat INPUT_BUF
         then do { s \<leftarrow> wakeup (upd_inp s (\<lambda>x. x\<lparr>in_w := in_e x\<rparr>)) ChInput; Some (s, dump) }
         else Some (s, dump)
       }
     else Some (s, dump))"

text \<open>\<open>consoleintr\<close> with the characters that the device returns before it has no more; whether a process listing is due comes back.\<close>

definition consoleintr :: "xk \<Rightarrow> int list \<Rightarrow> (bool \<times> xk) option" where
  "consoleintr s cs = do {
     s \<leftarrow> acquire s ConsLock;
     (s, dump) \<leftarrow> fold_opt consoleintr_char cs (s, False);
     s \<leftarrow> release s ConsLock;
     Some (dump, s)
   }"

definition curkilled :: "xk \<Rightarrow> bool" where
  "curkilled s = (case cpu_proc s of None \<Rightarrow> False | Some p \<Rightarrow> p_killed (ptable s ! p))"

text \<open>The bytes still wanted after the loop, or \<open>None\<close> inside for a killed reader.\<close>

fun consoleread_loop :: "nat \<Rightarrow> nat \<Rightarrow> u32 \<Rightarrow> bytes \<Rightarrow> xk \<Rightarrow> (nat option \<times> bytes \<times> xk) option" where
  "consoleread_loop target 0 dst m s = Some (Some 0, m, s)"
| "consoleread_loop target (Suc n) dst m s =
     (if in_r (inp s) = in_w (inp s) then (if curkilled s then Some (None, m, s) else None)
      else
        let c = in_at s (in_r (inp s)); s = upd_inp s (\<lambda>x. x\<lparr>in_r := in_r x + 1\<rparr>)
        in if c = 4 then Some (Some (Suc n), m, if Suc n < target then upd_inp s (\<lambda>x. x\<lparr>in_r := in_r x - 1\<rparr>) else s)
           else let m = m(dst := c)
                in if c = 10 then Some (Some n, m, s) else consoleread_loop target n (dst + 1) m s)"

definition consoleread :: "xk \<Rightarrow> nat \<Rightarrow> bytes \<Rightarrow> u32 \<Rightarrow> int \<Rightarrow> (int \<times> bytes \<times> xk) option" where
  "consoleread s ip m dst n = do {
     s \<leftarrow> iunlock s ip;
     s \<leftarrow> acquire s ConsLock;
     (r, m, s) \<leftarrow> consoleread_loop (nat n) (nat n) dst m s;
     s \<leftarrow> release s ConsLock;
     s \<leftarrow> ilock s ip;
     Some (case r of None \<Rightarrow> - 1 | Some k \<Rightarrow> int (nat n - k), m, s)
   }"

definition consolewrite :: "xk \<Rightarrow> nat \<Rightarrow> bytes \<Rightarrow> u32 \<Rightarrow> int \<Rightarrow> (int \<times> xk) option" where
  "consolewrite s ip m src n = do {
     s \<leftarrow> iunlock s ip;
     s \<leftarrow> acquire s ConsLock;
     s \<leftarrow> fold_opt (\<lambda>i s. consputc s (uint (m (src + of_nat i)))) [0..<nat n] s;
     s \<leftarrow> release s ConsLock;
     s \<leftarrow> ilock s ip;
     Some (n, s)
   }"

definition consoleinit :: "xk \<Rightarrow> xk" where
  "consoleinit s = s\<lparr>devsw := (devsw s)[CONSOLE := Some ConsoleDev]\<rparr>"

subsection \<open>File contents\<close>

record stat =
  st_type :: u16
  st_dev :: u32
  st_ino :: u32
  st_nlink :: u16
  st_size :: u32

definition stati :: "xk \<Rightarrow> nat \<Rightarrow> stat" where
  "stati s ip = (let x = icache s ! ip in
     \<lparr>st_type = i_type x, st_dev = i_dev x, st_ino = i_inum x, st_nlink = i_nlink x, st_size = i_size x\<rparr>)"

text \<open>\<open>memmove\<close> from one object to another.\<close>

definition copy_to :: "bytes \<Rightarrow> u32 \<Rightarrow> bytes \<Rightarrow> u32 \<Rightarrow> u32 \<Rightarrow> bytes" where
  "copy_to dst d src p n = (\<lambda>a. if a - d < n then src (p + (a - d)) else dst a)"

definition chunk :: "u32 \<Rightarrow> u32 \<Rightarrow> u32 \<Rightarrow> u32" where
  "chunk n tot off = min (n - tot) (BSIZE - off mod BSIZE)"

lemma chunk_progress:
  assumes "tot < n"
  shows "unat (n - (tot + chunk n tot off)) < unat (n - tot)" "0 < unat (chunk n tot off)" "unat (chunk n tot off) \<le> unat (n - tot)"
    "unat (chunk n tot off) \<le> 512 - unat off mod 512"
proof -
  have "off mod BSIZE < BSIZE" by (rule word_mod_less_divisor) (simp add: BSIZE_def)
  then have b: "0 < BSIZE - off mod BSIZE" by (simp add: word_less_nat_alt unat_sub word_le_nat_alt)
  have a: "0 < n - tot" using assms by (simp add: word_less_nat_alt unat_sub word_le_nat_alt)
  have c: "0 < chunk n tot off" "chunk n tot off \<le> n - tot" using a b by (auto simp: chunk_def min_def)
  then show "0 < unat (chunk n tot off)" "unat (chunk n tot off) \<le> unat (n - tot)" by (simp_all add: word_less_nat_alt word_le_nat_alt)
  have "n - (tot + chunk n tot off) = (n - tot) - chunk n tot off" by simp
  then have "unat (n - (tot + chunk n tot off)) = unat (n - tot) - unat (chunk n tot off)" using unat_sub [OF c(2)] by (simp only:)
  then show "unat (n - (tot + chunk n tot off)) < unat (n - tot)" using c by (simp add: word_less_nat_alt word_le_nat_alt)
  have "chunk n tot off \<le> BSIZE - off mod BSIZE" by (simp add: chunk_def)
  then show "unat (chunk n tot off) \<le> 512 - unat off mod 512"
    using \<open>off mod BSIZE < BSIZE\<close> by (simp add: word_le_nat_alt unat_sub word_less_nat_alt unat_mod BSIZE_def)
qed

function readi_loop :: "nat \<Rightarrow> u32 \<Rightarrow> u32 \<Rightarrow> u32 \<Rightarrow> u32 \<Rightarrow> bytes \<Rightarrow> xk \<Rightarrow> (bytes \<times> xk) option" where
  "readi_loop ip n tot off dst m s =
     (if tot < n then do {
        (addr, s) \<leftarrow> bmap s ip (off div BSIZE);
        (bp, s) \<leftarrow> bread s (i_dev (icache s ! ip)) addr;
        let k = chunk n tot off;
        let m = copy_to m dst (b_data (bufs s ! bp)) (off mod BSIZE) k;
        s \<leftarrow> brelse s bp;
        readi_loop ip n (tot + k) (off + k) (dst + k) m s
      }
      else Some (m, s))"
  by auto

termination
  by (relation "measure (\<lambda>(ip, n, tot, off, dst, m, s). unat (n - tot))") (auto simp: chunk_progress)

definition readi :: "xk \<Rightarrow> nat \<Rightarrow> bytes \<Rightarrow> u32 \<Rightarrow> u32 \<Rightarrow> u32 \<Rightarrow> (int \<times> bytes \<times> xk) option" where
  "readi s ip m dst off n =
     (let x = icache s ! ip
      in if i_type x = T_DEV
         then (if sint (i_major x) < 0 \<or> sint (i_major x) \<ge> int NDEV \<or> devsw s ! nat (sint (i_major x)) = None then Some (- 1, m, s)
               else consoleread s ip m dst (sint n))
         else if off > i_size x \<or> off + n < off then Some (- 1, m, s)
         else
           let n = (if off + n > i_size x then i_size x - off else n)
           in do {
             (m, s) \<leftarrow> readi_loop ip n 0 off dst m s;
             Some (sint n, m, s)
           })"

function writei_loop :: "nat \<Rightarrow> u32 \<Rightarrow> bytes \<Rightarrow> u32 \<Rightarrow> u32 \<Rightarrow> u32 \<Rightarrow> xk \<Rightarrow> (u32 \<times> xk) option" where
  "writei_loop ip n m tot off src s =
     (if tot < n then do {
        (addr, s) \<leftarrow> bmap s ip (off div BSIZE);
        (bp, s) \<leftarrow> bread s (i_dev (icache s ! ip)) addr;
        let k = chunk n tot off;
        s \<leftarrow> log_write (upd_buf s bp (\<lambda>b. b\<lparr>b_data := copy_to (b_data b) (off mod BSIZE) m src k\<rparr>)) bp;
        s \<leftarrow> brelse s bp;
        writei_loop ip n m (tot + k) (off + k) (src + k) s
      }
      else Some (off, s))"
  by auto

termination
  by (relation "measure (\<lambda>(ip, n, m, tot, off, src, s). unat (n - tot))") (auto simp: chunk_progress)

definition writei :: "xk \<Rightarrow> nat \<Rightarrow> bytes \<Rightarrow> u32 \<Rightarrow> u32 \<Rightarrow> u32 \<Rightarrow> (int \<times> xk) option" where
  "writei s ip m src off n =
     (let x = icache s ! ip
      in if i_type x = T_DEV
         then (if sint (i_major x) < 0 \<or> sint (i_major x) \<ge> int NDEV \<or> devsw s ! nat (sint (i_major x)) = None then Some (- 1, s)
               else consolewrite s ip m src (sint n))
         else if off > i_size x \<or> off + n < off then Some (- 1, s)
         else if off + n > of_nat MAXFILE * BSIZE then Some (- 1, s)
         else do {
           (off, s) \<leftarrow> writei_loop ip n m 0 off src s;
           s \<leftarrow> (if n > 0 \<and> off > i_size (icache s ! ip)
                 then iupdate (upd_inode s ip (\<lambda>x. x\<lparr>i_size := off\<rparr>)) ip
                 else Some s);
           Some (sint n, s)
         })"

end
