(* ===== verification/X6Dir.thy ===== *)
theory X6Dir
  imports X6Io
begin

text \<open>
  Directories and path names of xv6 (fs.c). A directory is a file of 16-byte entries, a 16-bit inode number and a name of up to 14 bytes. The local variables
  \<open>de\<close> and \<open>name\<close> of the code are byte arrays of their own, starting at 0; path names are strings in memory. The loops over a path are partial functions:
  without a zero byte they would run through all of memory.
\<close>

subsection \<open>The code\<close>

definition DIRSIZ :: nat where "DIRSIZ = 14"
definition ROOTINO :: u32 where "ROOTINO = 1"

text \<open>Two byte arrays side by side, for the string routines that take two pointers.\<close>

definition side_by_side :: "bytes \<Rightarrow> bytes \<Rightarrow> bytes" where
  "side_by_side x y = (\<lambda>a. if a < 0x80000000 then x a else y (a - 0x80000000))"

definition namecmp :: "bytes \<Rightarrow> bytes \<Rightarrow> int" where
  "namecmp s t = x_strncmp (side_by_side s t) 0 0x80000000 (of_nat DIRSIZ)"

definition de_inum :: "bytes \<Rightarrow> u16" where "de_inum de = load16 de 0"
definition de_name :: "bytes \<Rightarrow> bytes" where "de_name de = (\<lambda>a. de (a + 2))"

text \<open>The offsets of the entries of a directory of a given size.\<close>

definition dirents :: "u32 \<Rightarrow> u32 list" where
  "dirents sz = map (\<lambda>k. of_nat k * 16) [0..<(unat sz + 15) div 16]"

fun dirlookup_loop :: "nat \<Rightarrow> bytes \<Rightarrow> u32 list \<Rightarrow> xk \<Rightarrow> ((nat \<times> u32) option \<times> xk) option" where
  "dirlookup_loop dp name [] s = Some (None, s)"
| "dirlookup_loop dp name (off # offs) s = do {
     (r, de, s) \<leftarrow> readi s dp (\<lambda>_. 0) 0 off 16;
     if r \<noteq> 16 then None
     else if de_inum de = 0 then dirlookup_loop dp name offs s
     else if namecmp name (de_name de) = 0 then do {
       (ip, s) \<leftarrow> iget s (i_dev (icache s ! dp)) (ucast (de_inum de));
       Some (Some (ip, off), s)
     }
     else dirlookup_loop dp name offs s
   }"

definition dirlookup :: "xk \<Rightarrow> nat \<Rightarrow> bytes \<Rightarrow> ((nat \<times> u32) option \<times> xk) option" where
  "dirlookup s dp name =
     (if i_type (icache s ! dp) \<noteq> T_DIR then None
      else dirlookup_loop dp name (dirents (i_size (icache s ! dp))) s)"

text \<open>The first free entry, or the end of the directory.\<close>

fun dirlink_loop :: "nat \<Rightarrow> u32 list \<Rightarrow> u32 \<Rightarrow> xk \<Rightarrow> (u32 \<times> xk) option" where
  "dirlink_loop dp [] q s = Some (q, s)"
| "dirlink_loop dp (off # offs) q s = do {
     (r, de, s) \<leftarrow> readi s dp (\<lambda>_. 0) 0 off 16;
     if r \<noteq> 16 then None
     else if de_inum de = 0 then Some (off, s)
     else dirlink_loop dp offs (off + 16) s
   }"

definition dirlink :: "xk \<Rightarrow> nat \<Rightarrow> bytes \<Rightarrow> u32 \<Rightarrow> (int \<times> xk) option" where
  "dirlink s dp name inum = do {
     (r, s) \<leftarrow> dirlookup s dp name;
     case r of
       Some (ip, _) \<Rightarrow> do {
         s \<leftarrow> iput s ip;
         Some (- 1, s)
       }
     | None \<Rightarrow> do {
         (off, s) \<leftarrow> dirlink_loop dp (dirents (i_size (icache s ! dp))) 0 s;
         let de = store16 (snd (x_strncpy (side_by_side (\<lambda>_. 0) name) 2 0x80000000 (of_nat DIRSIZ))) 0 (ucast inum);
         (r, s) \<leftarrow> writei s dp de 0 off 16;
         if r \<noteq> 16 then None else Some (0, s)
       }
   }"

partial_function (option) skip_slashes :: "bytes \<Rightarrow> u32 \<Rightarrow> u32 option" where
  "skip_slashes m p = (if m p = 47 then skip_slashes m (p + 1) else Some p)"

partial_function (option) elem_end :: "bytes \<Rightarrow> u32 \<Rightarrow> u32 option" where
  "elem_end m p = (if m p \<noteq> 47 \<and> m p \<noteq> 0 then elem_end m (p + 1) else Some p)"

definition skipelem :: "bytes \<Rightarrow> u32 \<Rightarrow> bytes \<Rightarrow> (u32 \<times> bytes) option option" where
  "skipelem m path name = do {
     s \<leftarrow> skip_slashes m path;
     if m s = 0 then Some None
     else do {
       e \<leftarrow> elem_end m s;
       let len = sint (e - s);
       let name = (if len \<ge> int DIRSIZ then copy_to name 0 m s (of_nat DIRSIZ)
                   else (copy_to name 0 m s (word_of_int len))(word_of_int len := 0));
       p \<leftarrow> skip_slashes m e;
       Some (Some (p, name))
     }
   }"

partial_function (option) namex_loop :: "bytes \<Rightarrow> bool \<Rightarrow> nat \<Rightarrow> u32 \<Rightarrow> bytes \<Rightarrow> xk \<Rightarrow> (nat option \<times> bytes \<times> xk) option" where
  "namex_loop m parent ip path name s =
     Option.bind (skipelem m path name) (\<lambda>r.
       case r of
         None \<Rightarrow> if parent then Option.bind (iput s ip) (\<lambda>s. Some (None, name, s)) else Some (Some ip, name, s)
       | Some (path, name) \<Rightarrow>
           Option.bind (ilock s ip) (\<lambda>s.
             if i_type (icache s ! ip) \<noteq> T_DIR then Option.bind (iunlockput s ip) (\<lambda>s. Some (None, name, s))
             else if parent \<and> m path = 0 then Option.bind (iunlock s ip) (\<lambda>s. Some (Some ip, name, s))
             else Option.bind (dirlookup s ip name) (\<lambda>(r, s).
               case r of
                 None \<Rightarrow> Option.bind (iunlockput s ip) (\<lambda>s. Some (None, name, s))
               | Some (next, _) \<Rightarrow> Option.bind (iunlockput s ip) (\<lambda>s. namex_loop m parent next path name s))))"

definition namex :: "xk \<Rightarrow> bytes \<Rightarrow> u32 \<Rightarrow> bool \<Rightarrow> bytes \<Rightarrow> (nat option \<times> bytes \<times> xk) option" where
  "namex s m path parent name = do {
     (ip, s) \<leftarrow>
       (if m path = 47 then iget s ROOTDEV ROOTINO
        else do {
          p \<leftarrow> cpu_proc s;
          cwd \<leftarrow> p_cwd (ptable s ! p);
          Some (idup s cwd)
        });
     namex_loop m parent ip path name s
   }"

definition namei :: "xk \<Rightarrow> bytes \<Rightarrow> u32 \<Rightarrow> (nat option \<times> xk) option" where
  "namei s m path = do {
     (r, _, s) \<leftarrow> namex s m path False (\<lambda>_. 0);
     Some (r, s)
   }"

definition nameiparent :: "xk \<Rightarrow> bytes \<Rightarrow> u32 \<Rightarrow> bytes \<Rightarrow> (nat option \<times> bytes \<times> xk) option" where
  "nameiparent s m path name = namex s m path True name"

end
