(* ===== verification/X6File.thy ===== *)
theory X6File
  imports X6Dir Ring
begin

text \<open>
  Open files (file.c) and pipes (pipe.c) of xv6. A read or write that has to wait goes to sleep in the scheduler: the result \<open>Slept i s\<close> says that the caller's
  thread is parked in the loop of the call after \<open>i\<close> bytes, and \<open>Back r s\<close> that the call returned. When the scheduler resumes the thread it holds the lock of the
  pipe again and the loop goes on, with \<open>pipewrite_loop\<close> from \<open>i\<close> on, with \<open>piperead_body\<close> from its test.
\<close>

subsection \<open>The code\<close>

datatype 'a call = Back 'a xk | Slept nat xk

definition filealloc :: "xk \<Rightarrow> nat option \<times> xk" where
  "filealloc s =
     (case find (\<lambda>i. f_ref (ftable s ! i) = 0) [0..<NFILE] of
        Some f \<Rightarrow> (Some f, upd_file s f (\<lambda>x. x\<lparr>f_ref := 1\<rparr>))
      | None \<Rightarrow> (None, s))"

definition filedup :: "xk \<Rightarrow> nat \<Rightarrow> (nat \<times> xk) option" where
  "filedup s f = (if f_ref (ftable s ! f) < 1 then None else Some (f, upd_file s f (\<lambda>x. x\<lparr>f_ref := f_ref x + 1\<rparr>)))"

definition pipeclose :: "xk \<Rightarrow> u32 \<Rightarrow> bool \<Rightarrow> xk option" where
  "pipeclose s p writable = do {
     s \<leftarrow> acquire s (PipeLock p);
     s \<leftarrow>
       (if writable then wakeup (upd_pipe s p (\<lambda>x. x\<lparr>writeopen := False\<rparr>)) (ChNread p)
        else wakeup (upd_pipe s p (\<lambda>x. x\<lparr>readopen := False\<rparr>)) (ChNwrite p));
     if \<not> readopen (pipes s p) \<and> \<not> writeopen (pipes s p)
     then do {
       s \<leftarrow> release s (PipeLock p);
       m \<leftarrow> kfree (mem s) p;
       Some (s\<lparr>mem := m\<rparr>)
     }
     else release s (PipeLock p)
   }"

definition fileclose :: "xk \<Rightarrow> nat \<Rightarrow> xk option" where
  "fileclose s f =
     (if f_ref (ftable s ! f) < 1 then None
      else
        let s = upd_file s f (\<lambda>x. x\<lparr>f_ref := f_ref x - 1\<rparr>)
        in if f_ref (ftable s ! f) > 0 then Some s
           else
             let ff = ftable s ! f;
                 s = upd_file s f (\<lambda>x. x\<lparr>f_ref := 0, f_type := FD_NONE\<rparr>)
             in if f_type ff = FD_PIPE then pipeclose s (f_pipe ff) (f_writable ff)
                else if f_type ff = FD_INODE then do {
                  s \<leftarrow> begin_op s;
                  ip \<leftarrow> f_ip ff;
                  s \<leftarrow> iput s ip;
                  end_op s
                }
                else Some s)"

definition filestat :: "xk \<Rightarrow> nat \<Rightarrow> (stat option \<times> xk) option" where
  "filestat s f =
     (if f_type (ftable s ! f) = FD_INODE then do {
        ip \<leftarrow> f_ip (ftable s ! f);
        s \<leftarrow> ilock s ip;
        let st = stati s ip;
        s \<leftarrow> iunlock s ip;
        Some (Some st, s)
      }
      else Some (None, s))"

text \<open>\<open>pipealloc\<close> returns the two files or, having undone everything, nothing.\<close>

definition pipealloc_bad :: "xk \<Rightarrow> nat option \<Rightarrow> nat option \<Rightarrow> ((nat \<times> nat) option \<times> xk) option" where
  "pipealloc_bad s f0 f1 = do {
     s \<leftarrow> (case f0 of Some f \<Rightarrow> fileclose s f | None \<Rightarrow> Some s);
     s \<leftarrow> (case f1 of Some f \<Rightarrow> fileclose s f | None \<Rightarrow> Some s);
     Some (None, s)
   }"

definition pipealloc :: "xk \<Rightarrow> ((nat \<times> nat) option \<times> xk) option" where
  "pipealloc s =
     (let (f0, s) = filealloc s
      in case f0 of
        None \<Rightarrow> pipealloc_bad s None None
      | Some a \<Rightarrow>
          let (f1, s) = filealloc s
          in case f1 of
            None \<Rightarrow> pipealloc_bad s (Some a) None
          | Some b \<Rightarrow>
              let (p, m) = kalloc (mem s); s = s\<lparr>mem := m\<rparr>
              in if p = 0 then pipealloc_bad s (Some a) (Some b)
                 else
                   let s = upd_pipe s p (\<lambda>x. x\<lparr>readopen := True, writeopen := True, nwrite := 0, nread := 0\<rparr>);
                       s = upd_file s a (\<lambda>x. x\<lparr>f_type := FD_PIPE, f_readable := True, f_writable := False, f_pipe := p\<rparr>);
                       s = upd_file s b (\<lambda>x. x\<lparr>f_type := FD_PIPE, f_readable := False, f_writable := True, f_pipe := p\<rparr>)
                   in Some (Some (a, b), s))"

definition pipe_put :: "u8 \<Rightarrow> pipe \<Rightarrow> pipe" where
  "pipe_put c x = x\<lparr>p_data := (p_data x)[unat (nwrite x) mod PIPESIZE := c], nwrite := nwrite x + 1\<rparr>"

text \<open>The loop of \<open>pipewrite\<close> from byte \<open>i\<close> on, with \<open>k\<close> bytes to go.\<close>

fun pipewrite_loop :: "u32 \<Rightarrow> bytes \<Rightarrow> u32 \<Rightarrow> int \<Rightarrow> nat \<Rightarrow> nat \<Rightarrow> xk \<Rightarrow> int call option" where
  "pipewrite_loop p m addr n i 0 s = do {
     s \<leftarrow> wakeup s (ChNread p);
     s \<leftarrow> release s (PipeLock p);
     Some (Back n s)
   }"
| "pipewrite_loop p m addr n i (Suc k) s =
     (if nwrite (pipes s p) = nread (pipes s p) + of_nat PIPESIZE
      then if \<not> readopen (pipes s p) \<or> curkilled s
           then do { s \<leftarrow> release s (PipeLock p); Some (Back (- 1) s) }
           else do {
             s \<leftarrow> wakeup s (ChNread p);
             s \<leftarrow> sleep s (ChNwrite p) (PipeLock p);
             Some (Slept i s)
           }
      else pipewrite_loop p m addr n (Suc i) k (upd_pipe s p (pipe_put (m (addr + of_nat i)))))"

definition pipewrite :: "xk \<Rightarrow> u32 \<Rightarrow> bytes \<Rightarrow> u32 \<Rightarrow> int \<Rightarrow> int call option" where
  "pipewrite s p m addr n = do {
     s \<leftarrow> acquire s (PipeLock p);
     pipewrite_loop p m addr n 0 (nat n) s
   }"

definition pipe_get :: "pipe \<Rightarrow> u8 \<times> pipe" where
  "pipe_get x = (p_data x ! (unat (nread x) mod PIPESIZE), x\<lparr>nread := nread x + 1\<rparr>)"

fun piperead_copy :: "u32 \<Rightarrow> u32 \<Rightarrow> nat \<Rightarrow> nat \<Rightarrow> bytes \<times> xk \<Rightarrow> nat \<times> bytes \<times> xk" where
  "piperead_copy p addr i 0 (m, s) = (i, m, s)"
| "piperead_copy p addr i (Suc k) (m, s) =
     (if nread (pipes s p) = nwrite (pipes s p) then (i, m, s)
      else let (c, x) = pipe_get (pipes s p)
           in piperead_copy p addr (Suc i) k (m(addr + of_nat i := c), upd_pipe s p (\<lambda>_. x)))"

definition piperead_body :: "xk \<Rightarrow> u32 \<Rightarrow> bytes \<Rightarrow> u32 \<Rightarrow> int \<Rightarrow> (int \<times> bytes) call option" where
  "piperead_body s p m addr n =
     (if nread (pipes s p) = nwrite (pipes s p) \<and> writeopen (pipes s p)
      then if curkilled s
           then do { s \<leftarrow> release s (PipeLock p); Some (Back (- 1, m) s) }
           else do { s \<leftarrow> sleep s (ChNread p) (PipeLock p); Some (Slept 0 s) }
      else
        let (i, m, s) = piperead_copy p addr 0 (nat n) (m, s)
        in do {
          s \<leftarrow> wakeup s (ChNwrite p);
          s \<leftarrow> release s (PipeLock p);
          Some (Back (int i, m) s)
        })"

definition piperead :: "xk \<Rightarrow> u32 \<Rightarrow> bytes \<Rightarrow> u32 \<Rightarrow> int \<Rightarrow> (int \<times> bytes) call option" where
  "piperead s p m addr n = do {
     s \<leftarrow> acquire s (PipeLock p);
     piperead_body s p m addr n
   }"

definition fileread :: "xk \<Rightarrow> nat \<Rightarrow> bytes \<Rightarrow> u32 \<Rightarrow> int \<Rightarrow> (int \<times> bytes) call option" where
  "fileread s f m addr n =
     (let x = ftable s ! f
      in if \<not> f_readable x then Some (Back (- 1, m) s)
         else if f_type x = FD_PIPE then piperead s (f_pipe x) m addr n
         else if f_type x = FD_INODE then do {
           ip \<leftarrow> f_ip x;
           s \<leftarrow> ilock s ip;
           (r, m, s) \<leftarrow> readi s ip m addr (f_off (ftable s ! f)) (word_of_int n);
           let s = (if r > 0 then upd_file s f (\<lambda>x. x\<lparr>f_off := f_off x + word_of_int r\<rparr>) else s);
           s \<leftarrow> iunlock s ip;
           Some (Back (r, m) s)
         }
         else None)"

text \<open>A write to an inode goes out in pieces that fit one transaction of the log.\<close>

definition max_write :: nat where "max_write = ((nat MAXOPBLOCKS - 1 - 1 - 2) div 2) * 512"

function filewrite_loop :: "nat \<Rightarrow> bytes \<Rightarrow> u32 \<Rightarrow> int \<Rightarrow> int \<Rightarrow> xk \<Rightarrow> (int \<times> xk) option" where
  "filewrite_loop f m addr n i s =
     (if i < n then do {
        let n1 = min (n - i) (int max_write);
        s \<leftarrow> begin_op s;
        ip \<leftarrow> f_ip (ftable s ! f);
        s \<leftarrow> ilock s ip;
        (r, s) \<leftarrow> writei s ip m (addr + word_of_int i) (f_off (ftable s ! f)) (word_of_int n1);
        let s = (if r > 0 then upd_file s f (\<lambda>x. x\<lparr>f_off := f_off x + word_of_int r\<rparr>) else s);
        s \<leftarrow> iunlock s ip;
        s \<leftarrow> end_op s;
        if r < 0 then Some (i, s)
        else if r \<noteq> n1 then None
        else filewrite_loop f m addr n (i + r) s
      }
      else Some (i, s))"
  by auto

termination
  by (relation "measure (\<lambda>(f, m, addr, n, i, s). nat (n - i))") (auto simp: max_write_def MAXOPBLOCKS_def min_def)

definition filewrite :: "xk \<Rightarrow> nat \<Rightarrow> bytes \<Rightarrow> u32 \<Rightarrow> int \<Rightarrow> int call option" where
  "filewrite s f m addr n =
     (let x = ftable s ! f
      in if \<not> f_writable x then Some (Back (- 1) s)
         else if f_type x = FD_PIPE then pipewrite s (f_pipe x) m addr n
         else if f_type x = FD_INODE then do {
           (i, s) \<leftarrow> filewrite_loop f m addr n 0 s;
           Some (Back (if i = n then n else - 1) s)
         }
         else None)"

end
