(* ===== verification/X6Proc.thy ===== *)
theory X6Proc
  imports X6File
begin

text \<open>
  The life of a process in xv6 (proc.c): \<open>userinit\<close>, \<open>fork\<close>, \<open>exit\<close> and \<open>wait\<close> over the process table, the memory, the open files and the inodes. The
  initial program is linked into the kernel; its address and size are arguments. Names are byte arrays of 16.
\<close>

subsection \<open>The code\<close>

definition copy_name :: "bytes \<Rightarrow> bytes \<Rightarrow> bytes" where
  "copy_name dst src = snd (safestrcpy (side_by_side dst src) 0 0x80000000 16)"

definition initcode_name :: bytes where
  "initcode_name = (\<lambda>a. if unat a < 8 then [105, 110, 105, 116, 99, 111, 100, 101] ! unat a else 0)"

definition slash :: bytes where "slash = (\<lambda>a. if a = 0 then 47 else 0)"

text \<open>The trap frame that starts the first process: user segments, interrupts on, a stack of one page, address 0.\<close>

definition user_frame :: "u32 \<Rightarrow> bytes \<Rightarrow> bytes" where
  "user_frame tf m =
     (let m = snd (x_memset m tf 0 76);
          m = store16 m (tf + 60) 27;
          m = store16 m (tf + 44) 35;
          m = store16 m (tf + 40) 35;
          m = store16 m (tf + 72) 35;
          m = store32 m (tf + 64) 0x200;
          m = store32 m (tf + 68) X_PGSIZE
      in store32 m (tf + 56) 0)"

definition userinit :: "xk \<Rightarrow> u32 \<Rightarrow> u32 \<Rightarrow> xk option" where
  "userinit s initcode codesz = do {
     (r, s) \<leftarrow> allocproc s;
     p \<leftarrow> r;
     let s = s\<lparr>initproc := Some p\<rparr>;
     (d, m) \<leftarrow> setupkvm (mem s);
     if d = 0 then None
     else do {
       let s = upd_proc (s\<lparr>mem := m\<rparr>) p (\<lambda>q. q\<lparr>p_pgdir := d\<rparr>);
       m \<leftarrow> inituvm (mem s) d initcode codesz;
       let s = upd_proc (s\<lparr>mem := m\<rparr>) p (\<lambda>q. q\<lparr>p_sz := X_PGSIZE\<rparr>);
       let s = poke s (user_frame (p_tf (ptable s ! p)));
       let s = upd_proc s p (\<lambda>q. q\<lparr>p_name := copy_name (p_name q) initcode_name\<rparr>);
       (ip, s) \<leftarrow> namei s slash 0;
       let s = upd_proc s p (\<lambda>q. q\<lparr>p_cwd := ip\<rparr>);
       s \<leftarrow> acquire s PtableLock;
       release (upd_proc s p (\<lambda>q. q\<lparr>p_state := RUNNABLE\<rparr>)) PtableLock
     }
   }"

definition dup_files :: "nat \<Rightarrow> nat \<Rightarrow> xk \<Rightarrow> xk option" where
  "dup_files cur np s = fold_opt (\<lambda>i s.
     case p_ofile (ptable s ! cur) ! i of
       None \<Rightarrow> Some s
     | Some f \<Rightarrow> do {
         (f, s) \<leftarrow> filedup s f;
         Some (upd_proc s np (\<lambda>q. q\<lparr>p_ofile := (p_ofile q)[i := Some f]\<rparr>))
       }) [0..<NOFILE] s"

definition fork :: "xk \<Rightarrow> (int \<times> xk) option" where
  "fork s = do {
     cur \<leftarrow> cpu_proc s;
     (r, s) \<leftarrow> allocproc s;
     case r of
       None \<Rightarrow> Some (- 1, s)
     | Some np \<Rightarrow> do {
         (d, m) \<leftarrow> copyuvm (mem s) (p_pgdir (ptable s ! cur)) (p_sz (ptable s ! cur));
         let s = upd_proc (s\<lparr>mem := m\<rparr>) np (\<lambda>q. q\<lparr>p_pgdir := d\<rparr>);
         if d = 0
         then do {
           m \<leftarrow> kfree (mem s) (p_kstack (ptable s ! np));
           Some (- 1, upd_proc (s\<lparr>mem := m\<rparr>) np (\<lambda>q. q\<lparr>p_kstack := 0, p_state := UNUSED\<rparr>))
         }
         else do {
           let c = ptable s ! cur;
           let s = upd_proc s np (\<lambda>q. q\<lparr>p_sz := p_sz c, p_priority := p_priority c, p_parent := Some cur\<rparr>);
           let tf = p_tf (ptable s ! np);
           let s = poke s (\<lambda>m. copy_to m tf m (p_tf c) 76);
           let s = poke s (\<lambda>m. store32 m (tf + 28) 0);
           s \<leftarrow> dup_files cur np s;
           cwd \<leftarrow> p_cwd (ptable s ! cur);
           let (ip, s) = idup s cwd;
           let s = upd_proc s np (\<lambda>q. q\<lparr>p_cwd := Some ip\<rparr>);
           let s = upd_proc s np (\<lambda>q. q\<lparr>p_name := copy_name (p_name q) (p_name (ptable s ! cur))\<rparr>);
           let pid = p_pid (ptable s ! np);
           s \<leftarrow> acquire s PtableLock;
           s \<leftarrow> release (upd_proc s np (\<lambda>q. q\<lparr>p_state := RUNNABLE\<rparr>)) PtableLock;
           Some (pid, s)
         }
       }
   }"

definition close_files :: "nat \<Rightarrow> xk \<Rightarrow> xk option" where
  "close_files cur s = fold_opt (\<lambda>fd s.
     case p_ofile (ptable s ! cur) ! fd of
       None \<Rightarrow> Some s
     | Some f \<Rightarrow> do {
         s \<leftarrow> fileclose s f;
         Some (upd_proc s cur (\<lambda>q. q\<lparr>p_ofile := (p_ofile q)[fd := None]\<rparr>))
       }) [0..<NOFILE] s"

text \<open>Children of an exiting process go to \<open>init\<close>, which is woken when one of them is a zombie already.\<close>

definition reparent :: "nat \<Rightarrow> xk \<Rightarrow> xk" where
  "reparent cur s = fold (\<lambda>i s.
     if p_parent (ptable s ! i) = Some cur
     then let s = upd_proc s i (\<lambda>q. q\<lparr>p_parent := initproc s\<rparr>)
          in if p_state (ptable s ! i) = ZOMBIE then wakeup1 s (map_option ChProc (initproc s)) else s
     else s) [0..<NPROC] s"

definition exit_tail :: "xk \<Rightarrow> nat \<Rightarrow> xk option" where
  "exit_tail s cur = do {
     s \<leftarrow> acquire s PtableLock;
     let s = wakeup1 s (map_option ChProc (p_parent (ptable s ! cur)));
     let s = reparent cur s;
     sched (upd_proc s cur (\<lambda>q. q\<lparr>p_state := ZOMBIE\<rparr>)) (\<lambda>_. InExit)
   }"

definition exit :: "xk \<Rightarrow> xk option" where
  "exit s = do {
     cur \<leftarrow> cpu_proc s;
     if initproc s = Some cur then None
     else do {
       s \<leftarrow> close_files cur s;
       s \<leftarrow> begin_op s;
       cwd \<leftarrow> p_cwd (ptable s ! cur);
       s \<leftarrow> iput s cwd;
       s \<leftarrow> end_op s;
       exit_tail (upd_proc s cur (\<lambda>q. q\<lparr>p_cwd := None\<rparr>)) cur
     }
   }"

text \<open>
  \<open>wait\<close> and \<open>waitsch\<close>: one pass over the table, with its lock held. A zombie child is cleaned up; without one the caller returns or goes to sleep,
  and does the next pass when it is resumed. \<open>waitsch\<close> also leaves the priority in the freed slot.
\<close>

definition reap :: "xk \<Rightarrow> nat \<Rightarrow> (proc \<Rightarrow> proc) \<Rightarrow> (int \<times> xk) option" where
  "reap s i prio = do {
     let pid = p_pid (ptable s ! i);
     m \<leftarrow> kfree (mem s) (p_kstack (ptable s ! i));
     let s = upd_proc (s\<lparr>mem := m\<rparr>) i (\<lambda>q. q\<lparr>p_kstack := 0\<rparr>);
     m \<leftarrow> freevm (mem s) (p_pgdir (ptable s ! i));
     let s = upd_proc (s\<lparr>mem := m\<rparr>) i (\<lambda>q. prio (q\<lparr>p_pid := 0, p_parent := None, p_name := (p_name q)(0 := 0), p_killed := False, p_ctime := 0,
       p_rutime := 0, p_retime := 0, p_sltime := 0, p_state := UNUSED\<rparr>));
     s \<leftarrow> release s PtableLock;
     Some (pid, s)
   }"

definition zombie_child :: "xk \<Rightarrow> nat \<Rightarrow> nat option" where
  "zombie_child s cur = find (\<lambda>i. p_parent (ptable s ! i) = Some cur \<and> p_state (ptable s ! i) = ZOMBIE) [0..<NPROC]"

definition no_child :: "xk \<Rightarrow> nat \<Rightarrow> bool" where
  "no_child s cur \<longleftrightarrow> (\<forall>i \<in> set [0..<NPROC]. p_parent (ptable s ! i) \<noteq> Some cur)"

definition wait_pass :: "xk \<Rightarrow> int call option" where
  "wait_pass s = do {
     cur \<leftarrow> cpu_proc s;
     case zombie_child s cur of
       Some i \<Rightarrow> do {
         (pid, s) \<leftarrow> reap s i (\<lambda>q. q\<lparr>p_priority := 0\<rparr>);
         Some (Back pid s)
       }
     | None \<Rightarrow>
         if no_child s cur \<or> p_killed (ptable s ! cur)
         then do { s \<leftarrow> release s PtableLock; Some (Back (- 1) s) }
         else do { s \<leftarrow> sleep s (ChProc cur) PtableLock; Some (Slept 0 s) }
   }"

definition wait :: "xk \<Rightarrow> int call option" where
  "wait s = do {
     s \<leftarrow> acquire s PtableLock;
     wait_pass s
   }"

definition percent_d :: bytes where
  "percent_d = literal (''%d'' @ [CHR 0x0A])"

definition waitsch_pass :: "xk \<Rightarrow> (int \<times> (int \<times> int \<times> int \<times> int) option) call option" where
  "waitsch_pass s = do {
     cur \<leftarrow> cpu_proc s;
     case zombie_child s cur of
       Some i \<Rightarrow> do {
         let c = ptable s ! cur;
         s \<leftarrow> xcprintf s percent_d 1 [p_priority c];
         (pid, s) \<leftarrow> reap s i (\<lambda>q. q);
         Some (Back (pid, Some (p_rutime c, p_retime c, p_sltime c, sint (p_priority c))) s)
       }
     | None \<Rightarrow>
         if no_child s cur \<or> p_killed (ptable s ! cur)
         then do { s \<leftarrow> release s PtableLock; Some (Back (- 1, None) s) }
         else do { s \<leftarrow> sleep s (ChProc cur) PtableLock; Some (Slept 0 s) }
   }"

definition waitsch :: "xk \<Rightarrow> (int \<times> (int \<times> int \<times> int \<times> int) option) call option" where
  "waitsch s = do {
     s \<leftarrow> acquire s PtableLock;
     waitsch_pass s
   }"

end
