(* ===== verification/X6Pipe.thy ===== *)
theory X6Pipe
  imports X6File
begin

text \<open>
  Pipes of xv6 as bounded queues of 512 bytes. The counters \<open>nread\<close> and \<open>nwrite\<close> only grow and wrap around at \<open>2 ^ 32\<close>, a multiple of the size of the buffer.
\<close>

subsection \<open>A pipe is a queue\<close>

definition pipe_inv :: "pipe \<Rightarrow> bool" where
  "pipe_inv x \<longleftrightarrow> length (p_data x) = 512 \<and> unat (nwrite x - nread x) \<le> 512"

definition pipe_items :: "pipe \<Rightarrow> u8 list" where
  "pipe_items x = ring_list (p_data x) 512 (unat (nread x)) (unat (nwrite x - nread x))"

lemma unat_mod_add: "unat (a + b :: u32) mod 512 = (unat a + unat b) mod 512"
proof -
  have "(unat a + unat b) mod 4294967296 mod 512 = (unat a + unat b) mod 512" by (rule mod_mod_cancel) simp
  then show ?thesis by (simp add: unat_word_ariths)
qed

lemma count_Suc: "unat (w - r :: u32) < 512 \<Longrightarrow> unat (w + 1 - r) = Suc (unat (w - r))"
proof -
  assume "unat (w - r) < 512"
  then have "unat (w - r + 1) = Suc (unat (w - r))" by (simp add: unat_word_ariths)
  moreover have "w - r + 1 = w + 1 - r" by simp
  ultimately show ?thesis by (simp only:)
qed

lemma count_pred: "w \<noteq> r \<Longrightarrow> Suc (unat (w - (r + 1) :: u32)) = unat (w - r)"
proof -
  assume "w \<noteq> r"
  then have "w - r \<noteq> 0" by simp
  then have "Suc (unat (w - r - 1)) = unat (w - r)" by (simp add: unat_gt_0 unat_minus_one)
  moreover have "w - r - 1 = w - (r + 1)" by simp
  ultimately show ?thesis by (simp only:)
qed

interpretation pipe_q: fifo pipe_inv pipe_items 512 pipe_put pipe_get
proof
  fix x :: pipe and c :: u8
  assume inv: "pipe_inv x" and l: "length (pipe_items x) < 512"
  then have n: "unat (nwrite x - nread x) < 512" by (simp add: pipe_items_def)
  then show "pipe_inv (pipe_put c x)" using inv by (simp add: pipe_inv_def pipe_put_def count_Suc)
  have "nwrite x = nread x + (nwrite x - nread x)" by simp
  then have "unat (nwrite x) mod 512 = (unat (nread x) + unat (nwrite x - nread x)) mod 512" by (metis unat_mod_add)
  then show "pipe_items (pipe_put c x) = pipe_items x @ [c]"
    using ring_list_store [OF n, of "p_data x" "unat (nread x)" c] inv n by (simp add: pipe_items_def pipe_put_def PIPESIZE_def count_Suc pipe_inv_def)
next
  fix x :: pipe
  assume inv: "pipe_inv x" and ne: "pipe_items x \<noteq> []"
  then have d: "nwrite x \<noteq> nread x" by (auto simp: pipe_items_def)
  note c = count_pred [OF d]
  show "pipe_inv (snd (pipe_get x))" using inv c by (simp add: pipe_inv_def pipe_get_def)
  have "unat (nread x + 1) mod 512 = Suc (unat (nread x)) mod 512" using unat_mod_add [of "nread x" 1] by simp
  then have "ring_list (p_data x) 512 (unat (nread x + 1)) k = ring_list (p_data x) 512 (Suc (unat (nread x))) k" for k by (rule ring_list_cong)
  then show "pipe_items x = fst (pipe_get x) # pipe_items (snd (pipe_get x))"
    unfolding pipe_items_def c [symmetric] ring_list_Suc by (simp add: pipe_get_def PIPESIZE_def)
qed

lemma pipe_full: "pipe_inv x \<Longrightarrow> nwrite x = nread x + of_nat PIPESIZE \<longleftrightarrow> length (pipe_items x) = 512"
proof -
  have "nwrite x = nread x + 512 \<longleftrightarrow> nwrite x - nread x = 512" by (simp add: diff_eq_eq add.commute)
  also have "\<dots> \<longleftrightarrow> unat (nwrite x - nread x) = 512" by (simp add: word_unat_eq_iff)
  finally show ?thesis by (simp add: pipe_items_def PIPESIZE_def)
qed

lemma pipe_empty: "nread x = nwrite x \<longleftrightarrow> pipe_items x = []"
  by (auto simp: pipe_items_def unat_eq_zero)

subsection \<open>Writing and reading\<close>

definition bytes_at :: "bytes \<Rightarrow> u32 \<Rightarrow> nat \<Rightarrow> nat \<Rightarrow> u8 list" where
  "bytes_at m addr i n = map (\<lambda>k. m (addr + of_nat k)) [i..<i + n]"

lemma bytes_at_Suc: "bytes_at m addr i (Suc n) = m (addr + of_nat i) # bytes_at m addr (Suc i) n"
  unfolding bytes_at_def by (subst upt_conv_Cons) simp_all

lemma upd_pipe_simps [simp]:
  "pipes (upd_pipe s p f) = (pipes s)(p := f (pipes s p))" "locks (upd_pipe s p f) = locks s" "ptable (upd_pipe s p f) = ptable s" "cpu_proc (upd_pipe s p f) = cpu_proc s"
  "cpu_ok (upd_pipe s p f) = cpu_ok s" "mem (upd_pipe s p f) = mem s" "intena (upd_pipe s p f) = intena s" "upd_pipe (upd_pipe s p f) p g = upd_pipe s p (g \<circ> f)"
  by (simp_all add: upd_pipe_def cpu_ok_def)

lemma wakeup1_simps [simp]:
  "pipes (wakeup1 s ch) = pipes s" "locks (wakeup1 s ch) = locks s" "cpu_proc (wakeup1 s ch) = cpu_proc s" "cpu_ok (wakeup1 s ch) = cpu_ok s" "mem (wakeup1 s ch) = mem s"
  "length (ptable (wakeup1 s ch)) = length (ptable s)" "initproc (wakeup1 s ch) = initproc s" "nextpid (wakeup1 s ch) = nextpid s" "intena (wakeup1 s ch) = intena s"
  by (simp_all add: wakeup1_def cpu_ok_def)

lemma leaves_simps [simp]:
  "ptable (leaves s lk) = ptable s" "pipes (leaves s lk) = pipes s" "cpu_proc (leaves s lk) = cpu_proc s" "locks (leaves s lk) = locks s - {lk}" "mem (leaves s lk) = mem s"
  by (simp_all add: leaves_def)

text \<open>Everybody who slept on the channel is runnable, nobody else has changed.\<close>

definition woken :: "chan \<Rightarrow> proc list \<Rightarrow> proc list" where
  "woken ch ps = map (\<lambda>p. if p_state p = SLEEPING \<and> p_chan p = Some ch then p\<lparr>p_state := RUNNABLE\<rparr> else p) ps"

lemma wake_release:
  assumes "cpu_ok s" "locks s = {PipeLock p}"
  obtains t s' where "wakeup s ch = Some t" "release t (PipeLock p) = Some s'" "cpu_ok s'" "locks s' = {}" "pipes s' = pipes s" "ptable s' = woken ch (ptable s)"
    "cpu_proc s' = cpu_proc s" "mem s' = mem s"
proof -
  let ?t = "settle (wakeup1 s (Some ch))"
  have "wakeup s ch = Some ?t" using assms by (simp add: wakeup_eq)
  moreover have "release ?t (PipeLock p) = Some (leaves ?t (PipeLock p))" "cpu_ok (leaves ?t (PipeLock p))"
    using assms by (simp_all add: cpu_ok_release cpu_ok_leaves)
  ultimately show ?thesis using that [of ?t "leaves ?t (PipeLock p)"] assms by (simp add: wakeup1_def woken_def)
qed

lemma pipewrite_loop_fits:
  assumes "pipe_inv (pipes s p)" "length (pipe_items (pipes s p)) + k \<le> 512"
  shows "pipewrite_loop p m addr n i k s = do {
    s \<leftarrow> wakeup (upd_pipe s p (\<lambda>x. fold pipe_put (bytes_at m addr i k) x)) (ChNread p);
    s \<leftarrow> release s (PipeLock p);
    Some (Back n s)
  }"
  using assms
proof (induction k arbitrary: i s)
  case 0
  have "upd_pipe s p (\<lambda>x. x) = s" by (cases s) (simp add: upd_pipe_def)
  then show ?case by (simp add: bytes_at_def)
next
  case (Suc k)
  let ?x = "pipes s p" and ?s = "upd_pipe s p (pipe_put (m (addr + of_nat i)))"
  have l: "length (pipe_items ?x) < 512" using Suc.prems by simp
  have i: "pipe_inv (pipes ?s p)" "length (pipe_items (pipes ?s p)) + k \<le> 512"
    using pipe_q.put_inv [OF Suc.prems(1) l] pipe_q.put_items [OF Suc.prems(1) l] Suc.prems(2) by simp_all
  have "pipewrite_loop p m addr n i (Suc k) s = pipewrite_loop p m addr n (Suc i) k ?s"
    using l pipe_full [OF Suc.prems(1)] by simp
  also have "\<dots> = do { s \<leftarrow> wakeup (upd_pipe ?s p (\<lambda>x. fold pipe_put (bytes_at m addr (Suc i) k) x)) (ChNread p); s \<leftarrow> release s (PipeLock p); Some (Back n s) }"
    by (rule Suc.IH [OF i])
  also have "upd_pipe ?s p (\<lambda>x. fold pipe_put (bytes_at m addr (Suc i) k) x) = upd_pipe s p (\<lambda>x. fold pipe_put (bytes_at m addr i (Suc k)) x)"
    by (simp add: bytes_at_Suc comp_def)
  finally show ?case .
qed

lemma piperead_copy_eq:
  assumes "pipe_inv (pipes s p)" "i + k < 2 ^ 32"
  shows "\<exists>m' s'. piperead_copy p addr i k (m, s) = (i + min k (length (pipe_items (pipes s p))), m', s') \<and>
    (\<forall>j < min k (length (pipe_items (pipes s p))). m' (addr + of_nat (i + j)) = pipe_items (pipes s p) ! j) \<and>
    (\<forall>a. (\<forall>j < min k (length (pipe_items (pipes s p))). a \<noteq> addr + of_nat (i + j)) \<longrightarrow> m' a = m a) \<and>
    (\<exists>x. s' = upd_pipe s p (\<lambda>_. x) \<and> pipe_inv x \<and> pipe_items x = drop k (pipe_items (pipes s p)) \<and> readopen x = readopen (pipes s p) \<and> writeopen x = writeopen (pipes s p))"
  using assms
proof (induction k arbitrary: i m s)
  case 0
  have "s = upd_pipe s p (\<lambda>_. pipes s p)" by (cases s) (simp add: upd_pipe_def)
  with 0 show ?case by auto
next
  case (Suc k)
  let ?x = "pipes s p"
  show ?case
  proof (cases "pipe_items ?x = []")
    case True
    moreover have "s = upd_pipe s p (\<lambda>_. ?x)" by (cases s) (simp add: upd_pipe_def)
    ultimately show ?thesis using Suc.prems pipe_empty [of ?x] by auto
  next
    case False
    obtain c y where g: "pipe_get ?x = (c, y)" by (cases "pipe_get ?x")
    have y: "pipe_inv y" "pipe_items ?x = c # pipe_items y" "readopen y = readopen ?x" "writeopen y = writeopen ?x"
      using pipe_q.get_inv [OF Suc.prems(1) False] pipe_q.get_items [OF Suc.prems(1) False] g by (auto simp: pipe_get_def)
    let ?s = "upd_pipe s p (\<lambda>_. y)" and ?m = "m(addr + of_nat i := c)"
    let ?r = "min k (length (pipe_items y))"
    have e: "piperead_copy p addr i (Suc k) (m, s) = piperead_copy p addr (Suc i) k (?m, ?s)" using False pipe_empty [of ?x] g by simp
    have ps: "pipes ?s p = y" and b: "Suc i + k < 2 ^ 32" using Suc.prems(2) by simp_all
    obtain m' s' x where ih: "piperead_copy p addr (Suc i) k (?m, ?s) = (Suc i + ?r, m', s')" "\<forall>j < ?r. m' (addr + of_nat (Suc i + j)) = pipe_items y ! j"
      "\<forall>a. (\<forall>j < ?r. a \<noteq> addr + of_nat (Suc i + j)) \<longrightarrow> m' a = ?m a" "s' = upd_pipe ?s p (\<lambda>_. x)" "pipe_inv x" "pipe_items x = drop k (pipe_items y)"
      "readopen x = readopen y" "writeopen x = writeopen y"
      using Suc.IH [of ?s "Suc i" ?m, unfolded ps, OF y(1) b] by blast
    have ne: "addr + of_nat i \<noteq> addr + of_nat (Suc i + j)" if "j < ?r" for j
    proof
      assume "addr + of_nat i = addr + of_nat (Suc i + j)"
      then have "(of_nat i :: u32) = of_nat (Suc i + j)" by (simp only: add_left_cancel)
      then have "unat (of_nat i :: u32) = unat (of_nat (Suc i + j) :: u32)" by (simp only:)
      moreover have "Suc i + j < 4294967296" "i < 4294967296" using that Suc.prems(2) by auto
      ultimately have "i = Suc i + j" by (simp only: off_of_nat)
      then show False by simp
    qed
    have r: "min (Suc k) (length (pipe_items ?x)) = Suc ?r" using y(2) by simp
    have "m' (addr + of_nat (i + j)) = pipe_items ?x ! j" if "j < Suc ?r" for j
      using that ih(2,3) ne y(2) by (cases j) auto
    moreover have "m' a = m a" if "\<forall>j < Suc ?r. a \<noteq> addr + of_nat (i + j)" for a
    proof -
      have "a \<noteq> addr + of_nat i" using that [rule_format, of 0] by simp
      moreover have "a \<noteq> addr + of_nat (Suc i + j)" if "j < ?r" for j using \<open>\<forall>j < Suc ?r. a \<noteq> addr + of_nat (i + j)\<close> [rule_format, of "Suc j"] that by simp
      ultimately show ?thesis using ih(3) by simp
    qed
    moreover have "s' = upd_pipe s p (\<lambda>_. x)" using ih(4) by (simp add: comp_def)
    ultimately show ?thesis unfolding e ih(1) r using ih(5-8) y by auto
  qed
qed


lemma pipewrite_fits:
  assumes c: "cpu_ok s" "locks s = {}" and i: "pipe_inv (pipes s p)" and n: "length (pipe_items (pipes s p)) + nat n \<le> 512"
  shows "\<exists>s'. pipewrite s p m addr n = Some (Back n s') \<and> pipe_inv (pipes s' p) \<and> pipe_items (pipes s' p) = pipe_items (pipes s p) @ bytes_at m addr 0 (nat n) \<and>
      ptable s' = woken (ChNread p) (ptable s) \<and> cpu_ok s' \<and> locks s' = {}"
proof -
  let ?e = "enters s (PipeLock p)"
  note a = enters_first [OF c, of "PipeLock p"]
  define xs where "xs = bytes_at m addr 0 (nat n)"
  let ?x = "fold pipe_put xs (pipes s p)"
  define u where "u = upd_pipe ?e p (\<lambda>x. fold pipe_put xs x)"
  have u: "cpu_ok u" "locks u = {PipeLock p}" "pipes u p = ?x" "ptable u = ptable s" using a by (simp_all add: u_def)
  obtain t s' where s': "wakeup u (ChNread p) = Some t" "release t (PipeLock p) = Some s'" "cpu_ok s'" "locks s' = {}" "pipes s' = pipes u"
      "ptable s' = woken (ChNread p) (ptable u)" "cpu_proc s' = cpu_proc u" "mem s' = mem u" using wake_release [OF u(1,2), of "ChNread p"] by blast
  have "length xs = nat n" by (simp add: bytes_at_def xs_def)
  then have x: "pipe_inv ?x" "pipe_items ?x = pipe_items (pipes s p) @ xs" using pipe_q.put_many [OF i, of xs] n by simp_all
  have "pipewrite_loop p m addr n 0 (nat n) ?e = Some (Back n s')"
    using pipewrite_loop_fits [of ?e p "nat n" m addr n 0] i n s'(1,2) by (simp add: u_def xs_def)
  then have "pipewrite s p m addr n = Some (Back n s')" by (simp add: pipewrite_def a(1))
  with s' u x show ?thesis by (simp add: xs_def)
qed

lemma piperead_ready:
  assumes c: "cpu_ok s" "locks s = {}" and i: "pipe_inv (pipes s p)" and k: "k < 2 ^ 31" "pipe_items (pipes s p) \<noteq> [] \<or> \<not> writeopen (pipes s p)"
  shows "\<exists>r m' s'. piperead s p m addr k = Some (Back (int r, m') s') \<and> r = min (nat k) (length (pipe_items (pipes s p))) \<and>
      bytes_at m' addr 0 r = take r (pipe_items (pipes s p)) \<and> (\<forall>a. (\<forall>j < r. a \<noteq> addr + of_nat j) \<longrightarrow> m' a = m a) \<and>
      pipe_inv (pipes s' p) \<and> pipe_items (pipes s' p) = drop r (pipe_items (pipes s p)) \<and> ptable s' = woken (ChNwrite p) (ptable s) \<and> cpu_ok s' \<and> locks s' = {}"
proof -
  let ?e = "enters s (PipeLock p)"
  note a = enters_first [OF c, of "PipeLock p"]
  define q where "q = pipe_items (pipes s p)"
  define r where "r = min (nat k) (length q)"
  have kb: "0 + nat k < 2 ^ 32" using k by simp
  have pe: "pipes ?e = pipes s" by simp
  obtain m' u x where cp: "piperead_copy p addr 0 (nat k) (m, ?e) = (0 + r, m', u)" "\<forall>j < r. m' (addr + of_nat (0 + j)) = q ! j"
      "\<forall>a. (\<forall>j < r. a \<noteq> addr + of_nat (0 + j)) \<longrightarrow> m' a = m a" "u = upd_pipe ?e p (\<lambda>_. x)" "pipe_inv x" "pipe_items x = drop (nat k) q"
    using piperead_copy_eq [of ?e p 0 "nat k" addr m, unfolded pe, OF i kb] unfolding q_def r_def by blast
  have u: "cpu_ok u" "locks u = {PipeLock p}" "pipes u p = x" "ptable u = ptable s" using a cp(4) by simp_all
  obtain t s' where s': "wakeup u (ChNwrite p) = Some t" "release t (PipeLock p) = Some s'" "cpu_ok s'" "locks s' = {}" "pipes s' = pipes u"
      "ptable s' = woken (ChNwrite p) (ptable u)" "cpu_proc s' = cpu_proc u" "mem s' = mem u" using wake_release [OF u(1,2), of "ChNwrite p"] by blast
  have "\<not> (nread (pipes s p) = nwrite (pipes s p) \<and> writeopen (pipes s p))" using k(2) pipe_empty [of "pipes s p"] by auto
  then have "piperead s p m addr k = Some (Back (int r, m') s')" using cp(1) s'(1,2) by (auto simp: piperead_def a(1) piperead_body_def)
  moreover have "bytes_at m' addr 0 r = take r q" using cp(2) by (intro nth_equalityI) (auto simp: bytes_at_def r_def)
  moreover have "drop (nat k) q = drop r q" by (simp add: r_def min_def)
  moreover have "\<forall>a. (\<forall>j < r. a \<noteq> addr + of_nat j) \<longrightarrow> m' a = m a" using cp(3) by simp
  ultimately show ?thesis using s' u cp(5,6) unfolding q_def [symmetric] by (intro exI [of _ r] exI [of _ m'] exI [of _ s']) (simp add: r_def)
qed

text \<open>C13. A pipe carries bytes in order. A write that fits into the free part of the buffer returns its length, appends exactly its bytes, and makes every process that
  sleeps on the reading end runnable. A read takes the first bytes of the queue, up to the length it asks for, stores them in order at its address and nowhere
  else, and wakes the writers; on an empty pipe whose writers are gone it returns 0. Both leave all locks free. The 32-bit counters may wrap around.\<close>

theorem pipe_transfer:
  assumes "cpu_ok s" "locks s = {}" "pipe_inv (pipes s p)" "0 \<le> n" "length (pipe_items (pipes s p)) + nat n \<le> 512" "k < 2 ^ 31"
  shows "\<exists>s'. pipewrite s p m addr n = Some (Back n s') \<and> pipe_items (pipes s' p) = pipe_items (pipes s p) @ bytes_at m addr 0 (nat n) \<and>
      pipe_inv (pipes s' p) \<and> ptable s' = woken (ChNread p) (ptable s) \<and>
      (pipe_items (pipes s' p) \<noteq> [] \<or> \<not> writeopen (pipes s' p) \<longrightarrow>
        (\<exists>r m' t. piperead s' p m1 dst k = Some (Back (int r, m') t) \<and> r = min (nat k) (length (pipe_items (pipes s' p))) \<and>
          bytes_at m' dst 0 r = take r (pipe_items (pipes s' p)) \<and> (\<forall>a. (\<forall>j < r. a \<noteq> dst + of_nat j) \<longrightarrow> m' a = m1 a) \<and>
          pipe_inv (pipes t p) \<and> pipe_items (pipes t p) = drop r (pipe_items (pipes s' p)) \<and> ptable t = woken (ChNwrite p) (ptable s') \<and> cpu_ok t \<and> locks t = {}))"
proof -
  obtain s' where s': "pipewrite s p m addr n = Some (Back n s')" "pipe_inv (pipes s' p)" "pipe_items (pipes s' p) = pipe_items (pipes s p) @ bytes_at m addr 0 (nat n)"
      "ptable s' = woken (ChNread p) (ptable s)" "cpu_ok s'" "locks s' = {}" using pipewrite_fits [OF assms(1,2,3,5)] by blast
  note r = piperead_ready [OF s'(5,6,2) assms(6), of m1 dst]
  show ?thesis
  proof (intro exI [of _ s'] conjI impI)
    assume "pipe_items (pipes s' p) \<noteq> [] \<or> \<not> writeopen (pipes s' p)"
    from r [OF this] show "\<exists>r m' t. piperead s' p m1 dst k = Some (Back (int r, m') t) \<and> r = min (nat k) (length (pipe_items (pipes s' p))) \<and>
          bytes_at m' dst 0 r = take r (pipe_items (pipes s' p)) \<and> (\<forall>a. (\<forall>j < r. a \<noteq> dst + of_nat j) \<longrightarrow> m' a = m1 a) \<and>
          pipe_inv (pipes t p) \<and> pipe_items (pipes t p) = drop r (pipe_items (pipes s' p)) \<and> ptable t = woken (ChNwrite p) (ptable s') \<and> cpu_ok t \<and> locks t = {}"
      by (elim exE conjE) (intro exI conjI; assumption)
  qed (fact s')+
qed

lemma pipe_transfer_witness:
  "\<exists>s'. pipewrite at_rest 0x80401000 (\<lambda>a. ucast a) 100 2 = Some (Back 2 s') \<and> pipe_items (pipes s' 0x80401000) = [100, 101]"
proof -
  have c: "cpu_ok at_rest" "locks at_rest = {}" "pipes at_rest 0x80401000 = no_pipe" by (simp_all add: at_rest_def boot_cache_eq cpu_ok_def)
  have i: "pipe_inv no_pipe" "pipe_items no_pipe = []" 
    by (simp_all add: pipe_inv_def pipe_items_def ring_list_def no_pipe_def PIPESIZE_def)
  have b: "bytes_at (\<lambda>a. ucast a) 100 0 2 = [100, 101]" by (simp add: bytes_at_def upt_rec)
  have f: "length (pipe_items (pipes at_rest 0x80401000)) + nat 2 \<le> 512" "pipe_inv (pipes at_rest 0x80401000)" using c(3) i by simp_all
  have z: "0 \<le> (2 :: int)" "(1 :: int) < 2 ^ 31" by simp_all
  obtain s' where "pipewrite at_rest 0x80401000 (\<lambda>a. ucast a) 100 2 = Some (Back 2 s')"
      "pipe_items (pipes s' 0x80401000) = pipe_items (pipes at_rest 0x80401000) @ bytes_at (\<lambda>a. ucast a) 100 0 (nat 2)"
    using pipe_transfer [OF c(1,2) f(2) z(1) f(1) z(2), of "\<lambda>a. ucast a" 100 "\<lambda>a. 0" 0] by (elim exE conjE) (rule that; assumption)
  then show ?thesis using c(3) i b by simp
qed

end
