(* ===== verification/Spec2Isabelle.thy ===== *)
theory Spec2Isabelle
  imports JosIpc JosPrintfmt X6Proc X6Pipe
begin

text \<open>
  \<^bold>\<open>Verification of the teaching kernels JOS and xv6.\<close>

  \<^bold>\<open>The program.\<close> The repository holds two small operating systems for the 32-bit x86, in C. JOS is an
  exokernel: src/oslab6 is its newest state, src/lab1 and src/lab5 are earlier snapshots of the same files. Its
  kernel (kern/) hands out physical pages (pmap.c), keeps a table of environments (env.c), runs them round robin
  (sched.c) and gives them system calls to build address spaces and to send messages (syscall.c); lib/ is the C
  library that the kernel and the user programs share. xv6 (src/xv6) is a Unix-like kernel: a page allocator
  (kalloc.c), address spaces (vm.c), a buffer cache (bio.c), a write-ahead log (log.c) that makes the disk writes of
  a file-system call atomic, inodes, directories and path names over it (fs.c), open files and pipes (file.c, pipe.c), the
  console (console.c), and processes with a priority scheduler (proc.c). The JOS theories model src/oslab6.

  \<^bold>\<open>How C is rendered.\<close> Words keep their width (\<open>u8\<close>, \<open>u16\<close>, \<open>u32\<close>), so sums wrap as in C; error
  codes are negative \<open>int\<close>. A panic, a failed assertion or an endless loop is the outer \<open>None\<close> of the option
  monad, a NULL result an inner \<open>None\<close> (address 0 in xv6). JOS pointers into the arrays \<open>pages\<close> and
  \<open>envs\<close> are indices, its memory outside them is words; in the xv6 theories memory is bytes, and a linked list
  threaded through memory stays so. Loops are recursion over their range (\<open>fold_opt\<close> of \<open>Prelude\<close>) where the
  range is known at the start, \<open>partial_function (option)\<close> where a loop may run forever; the lemmas then show the
  result as \<open>Some\<close>. A JOS function that does not return has a value of \<open>outcome\<close>: it returns, it runs an
  environment, it halts the CPU, or it enters the monitor. One CPU is modelled, running kernel code to completion under
  the big kernel lock (JOS) or between two sleeps (xv6; interrupts are considered for \<open>sleep\<close> only).

  \<^bold>\<open>JOS.\<close>
  \<^item> \<open>JosMmu\<close>: the macros of inc/mmu.h, inc/memlayout.h, inc/types.h. \<open>JosState\<close>: the structures of inc/trap.h,
    inc/env.h, kern/cpu.h and the record \<open>kern\<close> of kernel globals.
  \<^item> \<open>JosPmap\<close>: kern/pmap.c (\<open>page_init\<close>, \<open>page_alloc\<close>, \<open>page_free\<close>, \<open>pgdir_walk\<close>,
    \<open>page_insert\<close>, \<open>page_remove\<close>, ...). The free list is what \<open>free_inv\<close> says, and the allocator satisfies
    the contract \<open>page_allocator\<close> of \<open>Allocator\<close>.
  \<^item> \<open>JosPageTable\<close>: the meaning of page tables as maps from pages to frames, and that the operations keep
    the reference counts of all frames exact (\<open>ref_inv\<close>): every count is the number of entries that name the frame.
  \<^item> \<open>JosUserMem\<close>: \<open>user_mem_check\<close> accepts exactly the ranges whose pages are mapped with the
    permission, if they do not wrap around the end of the address space; those that do it accepts unchecked.
  \<^item> \<open>JosEnv\<close>, \<open>JosEnvCreate\<close>, \<open>JosSpace\<close>: kern/env.c; the invariant \<open>kinv\<close> of the whole kernel (frames,
    counts, directories, environment table and its free list), which \<open>env_alloc\<close>, \<open>env_free\<close> and
    \<open>region_alloc\<close> keep.
  \<^item> \<open>JosSched\<close>: kern/sched.c with \<open>env_run\<close> and \<open>env_destroy\<close>; the choice of the next environment, and
    bounded waiting: as long as the callers of \<open>sched_yield\<close> stay alive, an environment that stays runnable is entered
    within \<open>NENV\<close> calls. After an environment destroyed itself the search starts over at slot 0.
  \<^item> \<open>JosSyscall\<close>, \<open>JosIpc\<close>: every system call and the dispatcher. Under the conditions on the arguments that
    \<open>args_ok\<close> lists (no address bits in permission words, reference counts below 65535, a mapped page to send, a
    printable string) a call keeps \<open>kinv\<close> and does not panic. The calls on address spaces, \<open>sys_exofork\<close> and the
    message calls do what they promise for permission words within \<open>PTE_SYSCALL\<close>; that the code accepts other words,
    that \<open>sys_cputs\<close> reads a byte too many and that \<open>sys_ipc_try_send\<close> has no defined result for an unmapped page are
    theorems too.
  \<^item> \<open>Ring\<close>, \<open>JosConsole\<close>: the contract \<open>fifo\<close> of a bounded queue and the console buffer of kern/console.c.
  \<^item> \<open>CMem\<close>, \<open>JosString\<close>, \<open>JosPrintfmt\<close>: lib/string.c, lib/printfmt.c and the two versions of \<open>cprintf\<close>.

  \<^bold>\<open>xv6.\<close>
  \<^item> \<open>X6String\<close>: string.c, compared with the JOS routines of the same name.
  \<^item> \<open>X6Bio\<close>, \<open>X6Log\<close>, \<open>X6Crash\<close>: bio.c with sleeplock.c and the requests of ide.c, log.c with its
    recovery; a crash after any number of disk writes of a transaction leaves, after recovery, all of the transaction
    or none of it. A disk may report read errors (\<open>io_error\<close>), which the driver ignores; the theorems are for a disk
    that reports none.
  \<^item> \<open>X6Kalloc\<close>, \<open>X6Vm\<close>, \<open>X6Uvm\<close>: kalloc.c and vm.c; the free list in the free pages satisfies
    \<open>page_allocator\<close>, and growing and shrinking an address space returns every page.
  \<^item> \<open>X6Txn\<close>: what an operation inside a transaction may rely on (\<open>tx\<close>: the buffers it holds, the blocks that still fit the
    log) and what it leaves alone (\<open>tx_frame\<close>); the layers above are proved with these rules.
  \<^item> \<open>X6State\<close>: the record \<open>xk\<close> of all kernel state above the log, and spinlock.c. \<open>X6Cons\<close>: output to the serial line and
    the screen, and \<open>cprintf\<close>; the cursor never leaves the screen.
  \<^item> \<open>X6Inode\<close>, \<open>X6Fs\<close>: the free-block bitmap and the inodes of fs.c; \<open>balloc\<close> takes the first free block and
    \<open>bfree\<close> gives it back, the inode cache has no duplicates, and what \<open>iupdate\<close> writes \<open>ilock\<close> reads.
  \<^item> \<open>X6Sched\<close>, \<open>X6Sleep\<close>: the scheduler, \<open>sleep\<close> and \<open>wakeup\<close>. A switch of kernel threads is a field of the process that
    says where it goes on. \<open>sleep\<close> is given by its statements, between which interrupts may fall (\<open>interleaved\<close>): no
    wakeup by a timer or device interrupt is lost between them.
  \<^item> \<open>X6Io\<close>, \<open>X6Dir\<close>: console input, file contents, directories and path names. \<open>X6File\<close>, \<open>X6Pipe\<close>: open files and
    pipes; a pipe is an instance of \<open>fifo\<close>, and bytes come out in the order they went in.
  \<^item> \<open>X6Proc\<close>: \<open>fork\<close>, \<open>exit\<close>, \<open>wait\<close> and the first process.

  \<^bold>\<open>Bounds.\<close> Tables have their sizes in the source (64 processes, 50 inodes, 100 files, 30 buffers, pipes of 512
  bytes). Recursion with a counter gets the number of iterations of the C loop, so no fuel can run out. In xv6 a call that has
  to wait for another process is \<open>Slept\<close> where the code calls \<open>sleep\<close> in pipe.c and proc.c, and \<open>None\<close> where a sleep lock, the
  log or console input is waited for. Process identifiers and reference counts of xv6 (\<open>nextpid\<close>, \<open>ref\<close>) are \<open>int\<close> without wrap-around; a
  C \<open>int\<close> that counts time (\<open>updatestatistics\<close>) wraps. The concrete states of the witnesses are small instances of the same records, such as
  \<open>at_rest\<close>, a kernel with an empty file system and one transaction open.

  \<^bold>\<open>Not modelled.\<close> Start-up code, assembly, interrupt controllers and port accesses; more than one CPU; the JOS
  monitor and debug information; the JOS user library and file server, which run interleaved with other environments that share
  their pages; the loading of programs (\<open>load_icode\<close>, \<open>exec\<close>, \<open>spawn\<close>); the fetching of system-call arguments in
  xv6; user programs and tests; src/lab1 and src/lab5, which are earlier states of the same files.
\<close>

end
